(* ===== verification/Zip_Prelude.thy ===== *)
theory Zip_Prelude
  imports Main "HOL-Library.Word" "HOL-Library.List_Lexorder"
begin

text \<open>
  Shared vocabulary of the development.

  \<^item> \<open>('e, 'a) rust\<close> is the outcome of a Rust computation: a value, an error of the
    function's own \<open>Result\<close> type, a panic (an index or a slice out of range, an \<open>expect\<close>
    that fails), or a loop that never ends.
  \<^item> Indices, lengths and file offsets are natural numbers. A conversion or an addition the
    code checks is a function that returns \<open>None\<close> past the width; an addition the code does
    not check wraps around, as in a release build. \<open>usize\<close> has 64 bits.
  \<^item> Bytes are \<open>8 word\<close>; a byte string is a list of them, ordered lexicographically, as
    Rust orders slices.
\<close>

unbundle bit_operations_syntax

type_synonym byte = "8 word"
type_synonym bytes = "8 word list"
type_synonym u8 = "8 word"
type_synonym u16 = "16 word"
type_synonym u32 = "32 word"
type_synonym u64 = "64 word"

named_theorems rust_simps \<open>rewrite rules for outcomes\<close>

section \<open>Outcomes\<close>

datatype ('e, 'a) rust = Ok 'a | Err 'e | Panic | Hang

definition rbind :: "('e, 'a) rust \<Rightarrow> ('a \<Rightarrow> ('e, 'b) rust) \<Rightarrow> ('e, 'b) rust" where
  "rbind m f = (case m of Ok x \<Rightarrow> f x | Err e \<Rightarrow> Err e | Panic \<Rightarrow> Panic | Hang \<Rightarrow> Hang)"

lemma rbind_simps [simp, rust_simps]:
  "rbind (Ok x) f = f x"
  "rbind (Err e) f = Err e"
  "rbind Panic f = Panic"
  "rbind Hang f = Hang"
  by (simp_all add: rbind_def)

lemma rbind_eq_Ok [simp]: "rbind m f = Ok y \<longleftrightarrow> (\<exists>x. m = Ok x \<and> f x = Ok y)"
  by (cases m) auto

lemma rbind_eq_Ok_sym [simp]: "Ok y = rbind m f \<longleftrightarrow> (\<exists>x. m = Ok x \<and> f x = Ok y)"
  by (cases m) auto

lemma rbind_assoc: "rbind (rbind m f) g = rbind m (\<lambda>x. rbind (f x) g)"
  by (cases m) auto

lemma rbind_cong [fundef_cong]:
  assumes "m = m'" and "\<And>x. m' = Ok x \<Longrightarrow> f x = g x"
  shows "rbind m f = rbind m' g"
  using assms by (cases m') auto

text \<open>\<open>ok_or\<close>, and the panic of \<open>unwrap\<close> and of an index out of range.\<close>

definition ok_or :: "'e \<Rightarrow> 'a option \<Rightarrow> ('e, 'a) rust" where
  "ok_or e x = (case x of None \<Rightarrow> Err e | Some v \<Rightarrow> Ok v)"

definition expect :: "'a option \<Rightarrow> ('e, 'a) rust" where
  "expect x = (case x of None \<Rightarrow> Panic | Some v \<Rightarrow> Ok v)"

lemma ok_or_eq_Ok [simp]: "ok_or e x = Ok v \<longleftrightarrow> x = Some v"
  by (cases x) (auto simp: ok_or_def)

lemma ok_or_simps [simp]: "ok_or e None = Err e" "ok_or e (Some v) = Ok v"
  by (simp_all add: ok_or_def)

lemma expect_eq_Ok [simp]: "expect x = Ok v \<longleftrightarrow> x = Some v"
  by (cases x) (auto simp: expect_def)

lemma expect_simps [simp]: "expect None = Panic" "expect (Some v) = Ok v"
  by (simp_all add: expect_def)

definition at :: "'a list \<Rightarrow> nat \<Rightarrow> ('e, 'a) rust" where
  "at xs i = (if i < length xs then Ok (xs ! i) else Panic)"

lemma at_eq_Ok [simp]: "at xs i = Ok x \<longleftrightarrow> i < length xs \<and> x = xs ! i"
  by (auto simp: at_def)

lemma at_in_range [simp]: "i < length xs \<Longrightarrow> at xs i = Ok (xs ! i)"
  by (simp add: at_def)

text \<open>\<open>&xs[lo..hi]\<close>\<close>

definition sub_slice :: "'a list \<Rightarrow> nat \<Rightarrow> nat \<Rightarrow> ('e, 'a list) rust" where
  "sub_slice xs lo hi =
     (if lo \<le> hi \<and> hi \<le> length xs then Ok (take (hi - lo) (drop lo xs)) else Panic)"

lemma sub_slice_eq_Ok [simp]:
  "sub_slice xs lo hi = Ok ys \<longleftrightarrow> lo \<le> hi \<and> hi \<le> length xs \<and> ys = take (hi - lo) (drop lo xs)"
  by (auto simp: sub_slice_def)

lemma sub_slice_in_range [simp]:
  "lo \<le> hi \<Longrightarrow> hi \<le> length xs \<Longrightarrow> sub_slice xs lo hi = Ok (take (hi - lo) (drop lo xs))"
  by (simp add: sub_slice_def)

text \<open>\<open>xs[i] = v\<close>\<close>

definition set_at :: "'a list \<Rightarrow> nat \<Rightarrow> 'a \<Rightarrow> ('e, 'a list) rust" where
  "set_at xs i v = (if i < length xs then Ok (xs[i := v]) else Panic)"

lemma set_at_eq_Ok [simp]: "set_at xs i v = Ok ys \<longleftrightarrow> i < length xs \<and> ys = xs[i := v]"
  by (auto simp: set_at_def)

lemma set_at_in_range [simp]: "i < length xs \<Longrightarrow> set_at xs i v = Ok (xs[i := v])"
  by (simp add: set_at_def)

text \<open>A \<open>for\<close> loop whose body can leave the function with \<open>?\<close>.\<close>

fun for_each :: "('a \<Rightarrow> 's \<Rightarrow> ('e, 's) rust) \<Rightarrow> 'a list \<Rightarrow> 's \<Rightarrow> ('e, 's) rust" where
  "for_each f [] s = Ok s"
| "for_each f (x # xs) s = rbind (f x s) (for_each f xs)"

lemma for_each_append: "for_each f (xs @ ys) s = rbind (for_each f xs s) (for_each f ys)"
proof (induction xs arbitrary: s)
  case (Cons x xs)
  then show ?case by (cases "f x s") auto
qed simp

lemma for_each_invariant:
  assumes "for_each f xs s = Ok t" and "P s"
    and "\<And>x s s'. x \<in> set xs \<Longrightarrow> P s \<Longrightarrow> f x s = Ok s' \<Longrightarrow> P s'"
  shows "P t"
  using assms
proof (induction xs arbitrary: s)
  case (Cons x xs)
  then obtain s' where "f x s = Ok s'" and "for_each f xs s' = Ok t" by auto
  with Cons.IH [of s'] Cons.prems show ?case by auto
qed simp

text \<open>The rule of a \<open>for\<close> loop that runs to its end: an invariant on the number of rounds.\<close>

lemma for_each_rounds:
  assumes "I 0 s"
    and "\<And>m s. m < length xs \<Longrightarrow> I m s \<Longrightarrow> \<exists>s'. f (xs ! m) s = Ok s' \<and> I (Suc m) s'"
  shows "\<exists>s'. for_each f xs s = Ok s' \<and> I (length xs) s'"
  using assms
proof (induction xs arbitrary: s I)
  case (Cons x xs)
  obtain s1 where "f x s = Ok s1" and "I 1 s1" using Cons.prems(2) [of 0 s] Cons.prems(1) by auto
  moreover have "\<exists>s'. for_each f xs s1 = Ok s' \<and> I (Suc (length xs)) s'"
  proof (rule Cons.IH [of "\<lambda>m. I (Suc m)"])
    show "I (Suc 0) s1" using \<open>I 1 s1\<close> by simp
  next
    fix m s assume "m < length xs" "I (Suc m) s"
    then show "\<exists>s'. f (xs ! m) s = Ok s' \<and> I (Suc (Suc m)) s'" using Cons.prems(2) [of "Suc m" s] by simp
  qed
  ultimately show ?case by simp
qed simp

text \<open>
  A computation on a state that can fail: the state is kept on an error, as Rust keeps what was
  written before a \<open>?\<close> returned.
\<close>

type_synonym ('s, 'e, 'a) act = "'s \<Rightarrow> 's \<times> ('e, 'a) rust"

definition sbind :: "('s, 'e, 'a) act \<Rightarrow> ('a \<Rightarrow> ('s, 'e, 'b) act) \<Rightarrow> ('s, 'e, 'b) act" where
  "sbind m f = (\<lambda>s. case m s of
     (s', Ok x) \<Rightarrow> f x s' | (s', Err e) \<Rightarrow> (s', Err e) | (s', Panic) \<Rightarrow> (s', Panic) | (s', Hang) \<Rightarrow> (s', Hang))"

lemma sbind_simps [simp]:
  "m s = (s', Ok x) \<Longrightarrow> sbind m f s = f x s'"
  "m s = (s', Err e) \<Longrightarrow> sbind m f s = (s', Err e)"
  "m s = (s', Panic) \<Longrightarrow> sbind m f s = (s', Panic)"
  "m s = (s', Hang) \<Longrightarrow> sbind m f s = (s', Hang)"
  by (simp_all add: sbind_def)

lemma sbind_Ok:
  assumes "sbind m f s = (s', Ok y)"
  obtains s1 x where "m s = (s1, Ok x)" and "f x s1 = (s', Ok y)"
  using assms by (auto simp: sbind_def split: prod.splits rust.splits)

section \<open>Machine integers as naturals with a width\<close>

abbreviation u32_max :: nat where "u32_max \<equiv> 4294967295"
abbreviation u64_max :: nat where "u64_max \<equiv> 18446744073709551615"
abbreviation usize_max :: nat where "usize_max \<equiv> 18446744073709551615"

definition try_u16 :: "nat \<Rightarrow> nat option" where
  "try_u16 n = (if n \<le> 65535 then Some n else None)"

definition try_u32 :: "nat \<Rightarrow> nat option" where
  "try_u32 n = (if n \<le> u32_max then Some n else None)"

definition try_usize :: "nat \<Rightarrow> nat option" where
  "try_usize n = (if n \<le> usize_max then Some n else None)"

definition checked_add_u32 :: "nat \<Rightarrow> nat \<Rightarrow> nat option" where
  "checked_add_u32 a b = (if a + b \<le> u32_max then Some (a + b) else None)"

definition checked_add_u64 :: "nat \<Rightarrow> nat \<Rightarrow> nat option" where
  "checked_add_u64 a b = (if a + b \<le> u64_max then Some (a + b) else None)"

definition saturating_add_u64 :: "nat \<Rightarrow> nat \<Rightarrow> nat" where
  "saturating_add_u64 a b = min (a + b) u64_max"

definition wrapping_add_u32 :: "nat \<Rightarrow> nat \<Rightarrow> nat" where
  "wrapping_add_u32 a b = (a + b) mod (u32_max + 1)"

definition wrapping_add_u64 :: "nat \<Rightarrow> nat \<Rightarrow> nat" where
  "wrapping_add_u64 a b = (a + b) mod (u64_max + 1)"

definition wrapping_sub_u64 :: "nat \<Rightarrow> nat \<Rightarrow> nat" where
  "wrapping_sub_u64 a b = (if b \<le> a then a - b else a + (u64_max + 1) - b)"

lemma try_u16_eq_Some [simp]: "try_u16 n = Some m \<longleftrightarrow> n \<le> 65535 \<and> m = n"
  by (auto simp: try_u16_def)

lemma try_u32_eq_Some [simp]: "try_u32 n = Some m \<longleftrightarrow> n \<le> u32_max \<and> m = n"
  by (auto simp: try_u32_def)

lemma try_usize_eq_Some [simp]: "try_usize n = Some m \<longleftrightarrow> n \<le> usize_max \<and> m = n"
  by (auto simp: try_usize_def)

lemma try_usize_fits: "n \<le> usize_max \<Longrightarrow> try_usize n = Some n"
  by simp

lemma checked_add_u32_eq_Some [simp]:
  "checked_add_u32 a b = Some c \<longleftrightarrow> a + b \<le> u32_max \<and> c = a + b"
  by (auto simp: checked_add_u32_def)

lemma checked_add_u64_eq_Some [simp]:
  "checked_add_u64 a b = Some c \<longleftrightarrow> a + b \<le> u64_max \<and> c = a + b"
  by (auto simp: checked_add_u64_def)

lemma saturating_add_u64_bound [simp]: "saturating_add_u64 a b \<le> u64_max"
  by (simp add: saturating_add_u64_def)

lemma nat_and_mask_mod: "(n::nat) AND (2 ^ k - 1) = n mod 2 ^ k"
  by (metis mask_eq_exp_minus_1 take_bit_eq_mask take_bit_eq_mod)

section \<open>Lists\<close>

lemma take_drop_append_left [simp]:
  "a + n \<le> length xs \<Longrightarrow> take n (drop a (xs @ ys)) = take n (drop a xs)"
  by simp

lemma filter_nth_upt: "filter P xs = map ((!) xs) (filter (\<lambda>i. P (xs ! i)) [0..<length xs])"
proof -
  have "filter P xs = filter P (map ((!) xs) [0..<length xs])"
    by (simp add: map_nth)
  then show ?thesis by (simp add: filter_map o_def)
qed

text \<open>\<open>slice_at xs k bs\<close>: the bytes \<open>bs\<close> stand at offset \<open>k\<close> of \<open>xs\<close>.\<close>

definition slice_at :: "'a list \<Rightarrow> nat \<Rightarrow> 'a list \<Rightarrow> bool" where
  "slice_at xs k bs \<longleftrightarrow> k + length bs \<le> length xs \<and> take (length bs) (drop k xs) = bs"

lemma slice_at_Nil [simp]: "slice_at xs k [] \<longleftrightarrow> k \<le> length xs"
  by (simp add: slice_at_def)

lemma slice_at_take_drop [simp, intro]: "k + n \<le> length xs \<Longrightarrow> slice_at xs k (take n (drop k xs))"
  by (simp add: slice_at_def)

lemma slice_at_length: "slice_at xs k bs \<Longrightarrow> k + length bs \<le> length xs"
  by (simp add: slice_at_def)

lemma slice_at_eq: "slice_at xs k bs \<Longrightarrow> bs = take (length bs) (drop k xs)"
  by (simp add: slice_at_def)

lemma slice_at_append: "slice_at xs k (a @ b) \<longleftrightarrow> slice_at xs k a \<and> slice_at xs (k + length a) b"
proof -
  have "take (length a + length b) (drop k xs) = take (length a) (drop k xs) @ take (length b) (drop (k + length a) xs)"
    by (simp add: take_add add.commute)
  then show ?thesis by (auto simp: slice_at_def)
qed

lemma slice_at_take: "slice_at xs k bs \<Longrightarrow> slice_at xs k (take n bs)"
  using slice_at_append [of xs k "take n bs" "drop n bs"] by simp

lemma slice_at_prefix: "slice_at xs 0 bs \<longleftrightarrow> (\<exists>ys. xs = bs @ ys)"
  unfolding slice_at_def by (metis append_eq_conv_conj append_take_drop_id add_0 drop0 length_append le_add1)

lemma slice_at_extend: "slice_at xs k bs \<Longrightarrow> slice_at (xs @ ys) k bs"
  by (simp add: slice_at_def)

lemma slice_at_take_append: "slice_at xs k bs \<Longrightarrow> n \<le> length bs \<Longrightarrow> take k xs @ take n bs = take (k + n) xs"
  unfolding slice_at_def by (metis min.absorb1 take_add take_take)

end
