(* ===== verification/Index_Types.thy ===== *)
theory Index_Types
  imports Zip_Prelude
begin

text \<open>
  The data of \<^verbatim>\<open>src/index.rs\<close> and of the node type of \<^verbatim>\<open>src/index/intern.rs\<close>: node
  kinds, compression methods, nodes, entry metadata and the index itself, and the error type
  of \<^verbatim>\<open>src/lib.rs\<close> with its \<open>errno\<close>.

  The constants that come from the \<open>rawzip\<close> and \<open>libc\<close> crates are the fields of \<open>ext_consts\<close>,
  an argument of every definition that uses one. The wayfinder of an entry is \<open>rawzip\<close>'s
  handle to it; its type is a type parameter.
\<close>

section \<open>Constants of other crates\<close>

record ext_consts =
  xc_store :: nat             \<comment> \<open>\<open>rawzip::CompressionMethod::STORE\<close>\<close>
  xc_deflate :: nat
  xc_zstd :: nat
  xc_zstd_deprecated :: nat
  xc_s_ifmt :: u32            \<comment> \<open>\<open>libc::S_IFMT\<close>\<close>
  xc_s_iflnk :: u32           \<comment> \<open>\<open>libc::S_IFLNK\<close>\<close>

text \<open>The values of the zip specification and of Linux, for concrete runs.\<close>

definition std_consts :: ext_consts where
  "std_consts = \<lparr> xc_store = 0, xc_deflate = 8, xc_zstd = 93, xc_zstd_deprecated = 20,
     xc_s_ifmt = 0xF000, xc_s_iflnk = 0xA000 \<rparr>"

section \<open>Errors\<close>

text \<open>Error numbers by name; \<open>OsErrno\<close> is any other number the operating system reports.\<close>

datatype errno =
    EACCES | EOPNOTSUPP | EIO | EOVERFLOW | ESTALE | ENOENT | EINVAL | EISDIR | EROFS
  | EBADF | ENOTDIR | ENOSYS | OsErrno int

datatype io_kind = NotFound | InvalidInput | InvalidData | UnexpectedEof | OtherKind

text \<open>\<open>std::io::Error\<close>: its kind and, when it came from the operating system, its number.\<close>

record io_error =
  io_kind_of :: io_kind
  raw_os_error :: "errno option"

datatype zip_error = ZipIo io_error | ZipFormat string

datatype error =
    Zip zip_error
  | Io io_error
  | Encrypted
  | Unsupported nat
  | Corrupt string
  | IndexTooLarge string

text \<open>\<open>crate::Result\<close>\<close>

type_synonym 'a result = "(error, 'a) rust"

fun error_errno :: "error \<Rightarrow> errno" where
  "error_errno Encrypted = EACCES"
| "error_errno (Unsupported m) = EOPNOTSUPP"
| "error_errno (Io e) = (case raw_os_error e of Some n \<Rightarrow> n | None \<Rightarrow> EIO)"
| "error_errno (Zip z) = EIO"
| "error_errno (Corrupt what) = EIO"
| "error_errno (IndexTooLarge what) = EOVERFLOW"

section \<open>Nodes and entries\<close>

definition ROOT_INO :: nat where "ROOT_INO = 1"
definition NO_META :: nat where "NO_META = u32_max"
definition MAX_SYMLINK :: nat where "MAX_SYMLINK = 4096"
definition FLAG_SYNTHETIC :: u8 where "FLAG_SYNTHETIC = push_bit 0 1"
definition VERIFY_UNKNOWN :: nat where "VERIFY_UNKNOWN = 0"
definition VERIFY_OK :: nat where "VERIFY_OK = 1"
definition VERIFY_BAD :: nat where "VERIFY_BAD = 2"

datatype node_kind = Dir | File | Symlink

datatype cmethod = Store | Deflate | Zstd

definition from_raw :: "ext_consts \<Rightarrow> nat \<Rightarrow> cmethod option" where
  "from_raw xc raw =
     (if raw = xc_store xc then Some Store
      else if raw = xc_deflate xc then Some Deflate
      else if raw = xc_zstd xc \<or> raw = xc_zstd_deprecated xc then Some Zstd
      else None)"

text \<open>A node while the tree is being discovered.\<close>

record tmp_node =
  tn_name_off :: nat
  tn_name_len :: nat
  tn_kind :: node_kind
  tn_flags :: u8
  tn_parent :: nat
  tn_meta :: nat

text \<open>A node of the finished tree.\<close>

record node =
  name_off :: nat
  name_len :: nat
  kind :: node_kind
  flags :: u8
  parent :: nat
  first_child :: nat
  child_len :: nat
  subdir_count :: nat
  meta_idx :: nat

record 'w entry_meta =
  wayfinder :: 'w
  uncompressed_size :: nat
  compressed_size :: nat
  mtime_sec :: int
  mtime_nsec :: nat
  crc32 :: u32
  method_raw :: nat
  mode :: u16
  encrypted :: bool
  data_start :: nat
  verify_state :: nat
  symlink_slot :: nat

definition entry_method :: "ext_consts \<Rightarrow> 'w entry_meta \<Rightarrow> cmethod option" where
  "entry_method xc m = from_raw xc (method_raw m)"

text \<open>The tree; a symlink slot is a \<open>OnceLock\<close>, empty or set once.\<close>

record 'w index =
  nodes :: "node list"
  metas :: "'w entry_meta list"
  names :: bytes
  symlinks :: "bytes option list"
  total_uncompressed :: nat

section \<open>Synthetic flag\<close>

definition synthetic :: "u8 \<Rightarrow> bool" where
  "synthetic f \<longleftrightarrow> f AND FLAG_SYNTHETIC \<noteq> 0"

lemma synthetic_bit: "synthetic f \<longleftrightarrow> bit f 0"
proof -
  have "f AND 1 = (if bit f 0 then 1 else 0)"
    by (rule bit_word_eqI) (auto simp: bit_and_iff bit_1_iff intro: gr0I)
  then show ?thesis by (simp add: synthetic_def FLAG_SYNTHETIC_def)
qed

lemma synthetic_set [simp]: "synthetic (f OR FLAG_SYNTHETIC)"
  by (simp add: synthetic_bit FLAG_SYNTHETIC_def bit_or_iff bit_1_iff)

lemma synthetic_clear [simp]: "\<not> synthetic (f AND NOT FLAG_SYNTHETIC)"
  by (simp add: synthetic_bit FLAG_SYNTHETIC_def bit_and_iff bit_not_iff bit_1_iff)

lemma synthetic_FLAG [simp]: "synthetic FLAG_SYNTHETIC"
  by (simp add: synthetic_bit FLAG_SYNTHETIC_def)

end
