(* ===== verification/Hash.thy ===== *)
theory Hash
  imports Zip_Prelude
begin

text \<open>
  The two hashers of \<^verbatim>\<open>src/hash.rs\<close>. A hasher is its 64-bit state; each operation maps the
  state to the next one. The lemmas show that hashing is compositional over whole eight-byte
  blocks, that the final partial block counts as a block padded with zeros, and that the
  identity hasher returns its key.
\<close>

section \<open>FxHasher\<close>

definition SEED :: u64 where "SEED = 0x517cc1b727220a95"

definition fx_add :: "u64 \<Rightarrow> u64 \<Rightarrow> u64" where
  "fx_add h w = (word_rotl 5 h XOR w) * SEED"

text \<open>\<open>u64::from_le_bytes\<close>\<close>

fun from_le_bytes :: "bytes \<Rightarrow> u64" where
  "from_le_bytes [] = 0"
| "from_le_bytes (b # bs) = ucast b OR push_bit 8 (from_le_bytes bs)"

function fx_write :: "u64 \<Rightarrow> bytes \<Rightarrow> u64" where
  "fx_write h rest =
     (if 8 \<le> length rest then fx_write (fx_add h (from_le_bytes (take 8 rest))) (drop 8 rest)
      else if rest \<noteq> [] then fx_add h (from_le_bytes (rest @ replicate (8 - length rest) 0))
      else h)"
  by pat_completeness auto
termination
  by (relation "measure (\<lambda>(h, rest). length rest)") auto

declare fx_write.simps [simp del]

definition fx_write_u32 :: "u64 \<Rightarrow> nat \<Rightarrow> u64" where
  "fx_write_u32 h i = fx_add h (of_nat i)"

definition fx_write_u64 :: "u64 \<Rightarrow> u64 \<Rightarrow> u64" where
  "fx_write_u64 h i = fx_add h i"

definition fx_write_usize :: "u64 \<Rightarrow> nat \<Rightarrow> u64" where
  "fx_write_usize h i = fx_add h (of_nat i)"

definition fx_finish :: "u64 \<Rightarrow> u64" where
  "fx_finish h = h"

section \<open>IdentityHasher\<close>

fun identity_write :: "u64 \<Rightarrow> bytes \<Rightarrow> u64" where
  "identity_write h [] = h"
| "identity_write h (b # bs) = identity_write (push_bit 8 h OR ucast b) bs"

definition identity_write_u64 :: "u64 \<Rightarrow> u64 \<Rightarrow> u64" where
  "identity_write_u64 h i = i"

definition identity_finish :: "u64 \<Rightarrow> u64" where
  "identity_finish h = h"

section \<open>Lemmas\<close>

lemma fx_write_Nil [simp]: "fx_write h [] = h"
  by (simp add: fx_write.simps)

lemma fx_write_blocks: "8 dvd length xs \<Longrightarrow> fx_write h (xs @ ys) = fx_write (fx_write h xs) ys"
proof (induction h xs rule: fx_write.induct)
  case (1 h xs)
  show ?case
  proof (cases "8 \<le> length xs")
    case True
    then have "8 dvd length (drop 8 xs)" using "1.prems" by (auto elim!: dvdE)
    with "1.IH"(1) True show ?thesis
      by (simp add: fx_write.simps [of h "xs @ ys"] fx_write.simps [of h xs])
  next
    case False
    with "1.prems" have "length xs = 0" using dvd_imp_le [of 8 "length xs"] by auto
    then have "xs = []" by simp
    then show ?thesis by simp
  qed
qed

lemma fx_write_padded:
  assumes "xs \<noteq> []" and "length xs < 8"
  shows "fx_write h xs = fx_write h (xs @ replicate (8 - length xs) 0)"
  using assms by (simp add: fx_write.simps [of h xs] fx_write.simps [of h "xs @ _"])

text \<open>The big-endian bytes of a key give the key back, whatever the state was.\<close>

definition be_bytes :: "u64 \<Rightarrow> bytes" where
  "be_bytes w = map (\<lambda>k. ucast (drop_bit (8 * k) w)) (rev [0..<8])"

lemma identity_write_snoc: "identity_write h (bs @ [b]) = push_bit 8 (identity_write h bs) OR ucast b"
  by (induction h bs rule: identity_write.induct) simp_all

lemma bit_identity_write:
  "n < 64 \<Longrightarrow> bit (identity_write h bs) n \<longleftrightarrow>
     (if n < 8 * length bs then bit (rev bs ! (n div 8)) (n mod 8) else bit h (n - 8 * length bs))"
proof (induction bs arbitrary: n rule: rev_induct)
  case (snoc b bs)
  show ?case
  proof (cases "n < 8")
    case True
    then show ?thesis
      by (simp add: identity_write_snoc bit_or_iff bit_push_bit_iff bit_ucast_iff)
  next
    case False
    then have "n div 8 = Suc ((n - 8) div 8)" and "n mod 8 = (n - 8) mod 8"
      by (simp_all add: div_if mod_if [of n 8])
    moreover have "\<not> bit (ucast b :: u64) n"
      using False bit_imp_le_length [of b n] by (auto simp: bit_ucast_iff)
    ultimately show ?thesis
      using False snoc.IH [of "n - 8"] snoc.prems
      by (auto simp: identity_write_snoc bit_or_iff bit_push_bit_iff)
  qed
qed simp

lemma identity_write_be_bytes: "identity_write h (be_bytes w) = w"
proof (rule bit_word_eqI)
  fix n assume "n < LENGTH(64)"
  then have n: "n < 64" "n div 8 < 8" by simp_all
  then have "rev (be_bytes w) ! (n div 8) = ucast (drop_bit (8 * (n div 8)) w)"
    by (simp add: be_bytes_def rev_map)
  moreover have "8 * (n div 8) + n mod 8 = n" by simp
  moreover have "length (be_bytes w) = 8" by (simp add: be_bytes_def)
  ultimately show "bit (identity_write h (be_bytes w)) n = bit w n"
    using n by (simp add: bit_identity_write bit_ucast_iff bit_drop_bit_eq)
qed

end
