(* ===== verification/Interner.thy ===== *)
theory Interner
  imports Index_Types Hash
begin

text \<open>
  The open-addressing table of \<^verbatim>\<open>src/index/intern.rs\<close>, from a parent and a name component to
  a node. A slot holds a node index plus one, and zero when it is empty.

  The probe loops of \<open>find\<close> and \<open>place\<close> have one variable, the slot index, which runs round
  the table. The models give them as many steps as the table has slots: a loop that has not
  stopped by then is back at its first slot and never stops, which is the outcome \<open>Hang\<close>.
  The lemmas show that \<open>table_inv\<close> rules out \<open>Hang\<close> and \<open>Panic\<close>, that \<open>find\<close> is the lookup of
  the keys of the nodes, and that \<open>insert\<close>, with \<open>grow\<close> inside it, keeps the invariant. The
  locale \<open>intern_table\<close> is the interface the builder relies on.
\<close>

section \<open>Definitions\<close>

record interner =
  it_slots :: "nat list"
  it_mask :: nat
  it_len :: nat

definition hash_key :: "nat \<Rightarrow> bytes \<Rightarrow> u64" where
  "hash_key p name = fx_finish (fx_write (fx_write_u32 0 p) name)"

definition bucket :: "u64 \<Rightarrow> nat \<Rightarrow> nat" where
  "bucket hash m = unat hash AND m"

definition node_name :: "tmp_node \<Rightarrow> bytes \<Rightarrow> bytes result" where
  "node_name n nms = sub_slice nms (tn_name_off n) (tn_name_off n + tn_name_len n)"

function next_power_of_two_from :: "nat \<Rightarrow> nat \<Rightarrow> nat" where
  "next_power_of_two_from p n =
     (if n \<le> p \<or> p = 0 then p else next_power_of_two_from (2 * p) n)"
  by pat_completeness auto
termination
  by (relation "measure (\<lambda>(p, n). n - p)") auto

declare next_power_of_two_from.simps [simp del]

definition next_power_of_two :: "nat \<Rightarrow> nat" where
  "next_power_of_two n = next_power_of_two_from 1 n"

definition with_capacity :: "nat \<Rightarrow> interner" where
  "with_capacity cap =
     (let size = next_power_of_two (max cap 16 * 2)
      in \<lparr> it_slots = replicate size 0, it_mask = size - 1, it_len = 0 \<rparr>)"

fun find_loop ::
  "nat \<Rightarrow> interner \<Rightarrow> tmp_node list \<Rightarrow> bytes \<Rightarrow> nat \<Rightarrow> bytes \<Rightarrow> nat \<Rightarrow> (nat option) result" where
  "find_loop 0 it nds nms p name i = Hang"
| "find_loop (Suc fuel) it nds nms p name i =
     rbind (at (it_slots it) i) (\<lambda>slot.
       if slot = 0 then Ok None
       else rbind (at nds (slot - 1)) (\<lambda>n.
         rbind (if tn_parent n = p then rbind (node_name n nms) (\<lambda>nm. Ok (nm = name)) else Ok False)
           (\<lambda>hit. if hit then Ok (Some (slot - 1))
                  else find_loop fuel it nds nms p name ((i + 1) AND it_mask it))))"

definition find :: "interner \<Rightarrow> tmp_node list \<Rightarrow> bytes \<Rightarrow> nat \<Rightarrow> bytes \<Rightarrow> (nat option) result" where
  "find it nds nms p name =
     find_loop (length (it_slots it)) it nds nms p name (bucket (hash_key p name) (it_mask it))"

fun place_loop :: "nat \<Rightarrow> interner \<Rightarrow> nat \<Rightarrow> nat result" where
  "place_loop 0 it i = Hang"
| "place_loop (Suc fuel) it i =
     rbind (at (it_slots it) i) (\<lambda>slot.
       if slot \<noteq> 0 then place_loop fuel it ((i + 1) AND it_mask it) else Ok i)"

definition place :: "interner \<Rightarrow> tmp_node list \<Rightarrow> bytes \<Rightarrow> nat \<Rightarrow> interner result" where
  "place it nds nms nid =
     rbind (at nds nid) (\<lambda>n. rbind (node_name n nms) (\<lambda>nm.
       rbind (place_loop (length (it_slots it)) it (bucket (hash_key (tn_parent n) nm) (it_mask it)))
         (\<lambda>i. rbind (set_at (it_slots it) i (wrapping_add_u32 nid 1))
           (\<lambda>slots. Ok (it\<lparr>it_slots := slots\<rparr>)))))"

definition grow :: "interner \<Rightarrow> tmp_node list \<Rightarrow> bytes \<Rightarrow> interner result" where
  "grow it nds nms =
     (let old = it_slots it; size = length old * 2
      in for_each (\<lambda>slot t. if slot \<noteq> 0 then place t nds nms (slot - 1) else Ok t) old
           (it\<lparr>it_slots := replicate size 0, it_mask := size - 1\<rparr>))"

definition insert_node :: "interner \<Rightarrow> tmp_node list \<Rightarrow> bytes \<Rightarrow> nat \<Rightarrow> interner result" where
  "insert_node it nds nms nid =
     rbind (if length (it_slots it) < (it_len it + 1) * 2 then grow it nds nms else Ok it)
       (\<lambda>t. rbind (place t nds nms nid) (\<lambda>t. Ok (t\<lparr>it_len := it_len t + 1\<rparr>)))"

section \<open>The keys of nodes\<close>

definition name_ok :: "bytes \<Rightarrow> tmp_node \<Rightarrow> bool" where
  "name_ok nms n \<longleftrightarrow> tn_name_off n + tn_name_len n \<le> length nms"

definition tmp_name :: "bytes \<Rightarrow> tmp_node \<Rightarrow> bytes" where
  "tmp_name nms n = take (tn_name_len n) (drop (tn_name_off n) nms)"

definition node_key :: "tmp_node list \<Rightarrow> bytes \<Rightarrow> nat \<Rightarrow> nat \<times> bytes" where
  "node_key nds nms nid = (tn_parent (nds ! nid), tmp_name nms (nds ! nid))"

lemma node_name_ok [simp]: "name_ok nms n \<Longrightarrow> node_name n nms = Ok (tmp_name nms n)"
  by (simp add: node_name_def name_ok_def tmp_name_def)

lemma tmp_name_append [simp]: "name_ok nms n \<Longrightarrow> tmp_name (nms @ ext) n = tmp_name nms n"
  by (simp add: name_ok_def tmp_name_def)

lemma name_ok_append: "name_ok nms n \<Longrightarrow> name_ok (nms @ ext) n"
  by (simp add: name_ok_def)

section \<open>The table invariant\<close>

definition stored :: "nat list \<Rightarrow> nat set" where
  "stored slots = {nid. Suc nid \<in> set slots}"

text \<open>Slot \<open>j\<close> is reached from \<open>h\<close> over slots in use only.\<close>

definition reached :: "nat list \<Rightarrow> nat \<Rightarrow> nat \<Rightarrow> bool" where
  "reached slots h j \<longleftrightarrow> (\<exists>d < length slots. j = (h + d) mod length slots
     \<and> (\<forall>e < d. slots ! ((h + e) mod length slots) \<noteq> 0))"

definition home :: "tmp_node list \<Rightarrow> bytes \<Rightarrow> nat \<Rightarrow> nat \<Rightarrow> nat" where
  "home nds nms m nid = bucket (hash_key (fst (node_key nds nms nid)) (snd (node_key nds nms nid))) m"

definition slots_inv :: "interner \<Rightarrow> tmp_node list \<Rightarrow> bytes \<Rightarrow> bool" where
  "slots_inv it nds nms \<longleftrightarrow>
     (\<exists>k. length (it_slots it) = 2 ^ k) \<and> it_mask it = length (it_slots it) - 1
     \<and> distinct (filter (\<lambda>s. s \<noteq> 0) (it_slots it))
     \<and> (\<forall>nid \<in> stored (it_slots it). nid < length nds \<and> name_ok nms (nds ! nid))
     \<and> (\<forall>j < length (it_slots it). it_slots it ! j \<noteq> 0 \<longrightarrow>
          reached (it_slots it) (home nds nms (it_mask it) (it_slots it ! j - 1)) j)"

definition table_inv :: "interner \<Rightarrow> tmp_node list \<Rightarrow> bytes \<Rightarrow> bool" where
  "table_inv it nds nms \<longleftrightarrow>
     slots_inv it nds nms
     \<and> stored (it_slots it) = {1..<length nds}
     \<and> it_len it = length nds - 1 \<and> nds \<noteq> [] \<and> 2 * it_len it \<le> length (it_slots it)"

section \<open>Probe sequences\<close>

lemma stored_iff: "nid \<in> stored slots \<longleftrightarrow> (\<exists>j < length slots. slots ! j = Suc nid)"
  by (auto simp: stored_def in_set_conv_nth)

lemma slots_invD:
  assumes "slots_inv it nds nms"
  shows "0 < length (it_slots it)"
    and "bucket hash (it_mask it) = unat hash mod length (it_slots it)"
    and "i AND it_mask it = i mod length (it_slots it)"
proof -
  from assms obtain k where "length (it_slots it) = 2 ^ k" and "it_mask it = length (it_slots it) - 1"
    by (auto simp: slots_inv_def)
  then show "0 < length (it_slots it)"
    and "bucket hash (it_mask it) = unat hash mod length (it_slots it)"
    and "i AND it_mask it = i mod length (it_slots it)"
    by (simp_all add: bucket_def nat_and_mask_mod [simplified])
qed

lemma stored_nonzero: "Suc ` stored slots = set (filter (\<lambda>s. s \<noteq> 0) slots)"
  by (auto simp: stored_def image_iff) (metis Suc_pred gr0I)

lemma card_stored:
  assumes "distinct (filter (\<lambda>s. s \<noteq> 0) slots)"
  shows "card (stored slots) = length (filter (\<lambda>s. s \<noteq> 0) slots)"
  using assms by (metis card_image distinct_card inj_Suc stored_nonzero)

lemma empty_slot:
  assumes "distinct (filter (\<lambda>s. s \<noteq> 0) slots)" and "card (stored slots) < length slots"
  obtains j where "j < length slots" and "slots ! j = 0"
proof -
  have "length (filter (\<lambda>s. s \<noteq> 0) slots) \<noteq> length slots"
    using assms by (simp add: card_stored)
  then have "\<exists>s \<in> set slots. s = 0" using filter_True [of slots "\<lambda>s. s \<noteq> 0"] by metis
  then show ?thesis using that by (auto simp: in_set_conv_nth)
qed

lemma first_empty:
  assumes "distinct (filter (\<lambda>s. s \<noteq> 0) slots)" and "card (stored slots) < length slots"
  obtains m where "m < length slots" and "slots ! ((h + m) mod length slots) = 0"
    and "\<forall>e < m. slots ! ((h + e) mod length slots) \<noteq> 0"
proof -
  let ?n = "length slots" and ?P = "\<lambda>m. slots ! ((h + m) mod length slots) = 0"
  obtain j where j: "j < ?n" "slots ! j = 0" using assms by (rule empty_slot)
  let ?d = "(j + (?n - h mod ?n)) mod ?n"
  have "(h + ?d) mod ?n = (h mod ?n + (j + (?n - h mod ?n))) mod ?n" by (simp add: mod_simps)
  also have "\<dots> = (j + ?n) mod ?n"
    using j by (intro arg_cong [of _ _ "\<lambda>x. x mod ?n"]) (use mod_less_divisor [of ?n h] in linarith)
  also have "\<dots> = j" using j by simp
  finally have d: "?P ?d" using j by simp
  have "?d < ?n" using j by (intro mod_less_divisor) auto
  moreover have "?P (LEAST m. ?P m)" using d by (rule LeastI)
  moreover have "(LEAST m. ?P m) \<le> ?d" using d by (rule Least_le)
  moreover have "\<forall>e < (LEAST m. ?P m). \<not> ?P e" using not_less_Least by blast
  ultimately show ?thesis by (intro that) (rule le_less_trans, assumption+)
qed

lemma find_loop_scan:
  assumes inv: "slots_inv it nds nms"
    and stop: "it_slots it ! ((h + m) mod length (it_slots it)) = 0"
  shows "d \<le> m \<Longrightarrow> m - d < fuel \<Longrightarrow>
    \<forall>e. d \<le> e \<and> e < m \<longrightarrow> it_slots it ! ((h + e) mod length (it_slots it)) \<noteq> 0 \<Longrightarrow>
    find_loop fuel it nds nms p name ((h + d) mod length (it_slots it)) =
      Ok (map_option (\<lambda>e. it_slots it ! ((h + e) mod length (it_slots it)) - 1)
        (List.find (\<lambda>e. node_key nds nms (it_slots it ! ((h + e) mod length (it_slots it)) - 1)
           = (p, name)) [d..<m]))"
proof (induction fuel arbitrary: d)
  case (Suc fuel)
  let ?n = "length (it_slots it)" and ?i = "(h + d) mod length (it_slots it)"
  have n: "0 < ?n" using inv by (rule slots_invD)
  show ?case
  proof (cases "d = m")
    case True
    then show ?thesis using stop n by simp
  next
    case False
    with Suc.prems have d: "d < m" and nz: "it_slots it ! ?i \<noteq> 0" by auto
    let ?nid = "it_slots it ! ?i - 1"
    have "?nid \<in> stored (it_slots it)" using nz n by (auto simp: stored_iff intro!: exI [of _ ?i])
    then have ok: "?nid < length nds" "name_ok nms (nds ! ?nid)"
      using inv by (auto simp: slots_inv_def)
    have succ: "(?i + 1) AND it_mask it = (h + Suc d) mod ?n"
      using inv by (simp only: slots_invD) (simp add: mod_simps)
    have "Suc d \<le> m" and "m - Suc d < fuel"
      and "\<forall>e. Suc d \<le> e \<and> e < m \<longrightarrow> it_slots it ! ((h + e) mod ?n) \<noteq> 0"
      using Suc.prems d by auto
    note IH = Suc.IH [OF this]
    show ?thesis
      using n nz ok d IH by (auto simp: succ [simplified] upt_conv_Cons node_key_def)
  qed
qed simp

lemma place_loop_scan:
  assumes inv: "slots_inv it nds nms"
    and stop: "it_slots it ! ((h + m) mod length (it_slots it)) = 0"
  shows "d \<le> m \<Longrightarrow> m - d < fuel \<Longrightarrow>
    \<forall>e. d \<le> e \<and> e < m \<longrightarrow> it_slots it ! ((h + e) mod length (it_slots it)) \<noteq> 0 \<Longrightarrow>
    place_loop fuel it ((h + d) mod length (it_slots it)) = Ok ((h + m) mod length (it_slots it))"
proof (induction fuel arbitrary: d)
  case (Suc fuel)
  let ?n = "length (it_slots it)" and ?i = "(h + d) mod length (it_slots it)"
  have n: "0 < ?n" using inv by (rule slots_invD)
  have succ: "(?i + 1) AND it_mask it = (h + Suc d) mod ?n"
    using inv by (simp only: slots_invD) (simp add: mod_simps)
  show ?case
  proof (cases "d = m")
    case True
    then show ?thesis using stop n by simp
  next
    case False
    with Suc.prems have "it_slots it ! ?i \<noteq> 0" by auto
    then show ?thesis
      using n Suc.IH [of "Suc d"] Suc.prems False by (simp add: succ [simplified])
  qed
qed simp

section \<open>Finding and placing\<close>

lemma find_total:
  assumes inv: "slots_inv it nds nms" and room: "card (stored (it_slots it)) < length (it_slots it)"
  obtains r where "find it nds nms p name = Ok r"
    and "\<And>nid. r = Some nid \<Longrightarrow> nid \<in> stored (it_slots it) \<and> node_key nds nms nid = (p, name)"
    and "r = None \<Longrightarrow> \<forall>nid \<in> stored (it_slots it). node_key nds nms nid \<noteq> (p, name)"
proof -
  let ?s = "it_slots it" and ?n = "length (it_slots it)" and ?h = "unat (hash_key p name)"
  have dist: "distinct (filter (\<lambda>s. s \<noteq> 0) ?s)" using inv by (simp add: slots_inv_def)
  obtain m where m: "m < ?n" "?s ! ((?h + m) mod ?n) = 0" "\<forall>e < m. ?s ! ((?h + e) mod ?n) \<noteq> 0"
    using dist room by (rule first_empty)
  let ?hit = "\<lambda>e. node_key nds nms (?s ! ((?h + e) mod ?n) - 1) = (p, name)"
  let ?r = "map_option (\<lambda>e. ?s ! ((?h + e) mod ?n) - 1) (List.find ?hit [0..<m])"
  have start: "bucket (hash_key p name) (it_mask it) = (?h + 0) mod ?n"
    using inv by (simp add: slots_invD)
  show ?thesis
  proof (rule that)
    show "find it nds nms p name = Ok ?r"
      unfolding find_def start using m by (intro find_loop_scan [OF inv]) auto
  next
    fix nid assume "?r = Some nid"
    then obtain e where e: "List.find ?hit [0..<m] = Some e" and nid: "nid = ?s ! ((?h + e) mod ?n) - 1"
      by auto
    from e have "?hit e" and "e < m" by (auto simp: find_Some_iff)
    have "(?h + e) mod ?n < ?n" using m by (intro mod_less_divisor) auto
    moreover have "?s ! ((?h + e) mod ?n) \<noteq> 0" using m \<open>e < m\<close> by blast
    ultimately have "nid \<in> stored ?s"
      using nid by (auto simp: stored_iff intro!: exI [of _ "(?h + e) mod ?n"])
    with \<open>?hit e\<close> nid show "nid \<in> stored ?s \<and> node_key nds nms nid = (p, name)" by simp
  next
    assume "?r = None"
    then have none: "\<And>e. e < m \<Longrightarrow> \<not> ?hit e" by (auto simp: find_None_iff)
    show "\<forall>nid \<in> stored ?s. node_key nds nms nid \<noteq> (p, name)"
    proof (intro ballI notI)
      fix nid assume "nid \<in> stored ?s" and key: "node_key nds nms nid = (p, name)"
      then obtain j where j: "j < ?n" "?s ! j = Suc nid" by (auto simp: stored_iff)
      then have "reached ?s (home nds nms (it_mask it) nid) j"
        using inv by (auto simp: slots_inv_def dest: spec [of _ j])
      moreover have "home nds nms (it_mask it) nid = ?h mod ?n"
        using key inv by (simp add: home_def slots_invD)
      ultimately obtain d where d: "d < ?n" "j = (?h + d) mod ?n"
        "\<forall>e < d. ?s ! ((?h + e) mod ?n) \<noteq> 0"
        by (auto simp: reached_def mod_simps)
      have "d \<noteq> m" using d m j by auto
      moreover have "\<not> m < d" using d m by auto
      ultimately have "d < m" by simp
      then show False using none [of d] d(2) j(2) key by simp
    qed
  qed
qed

lemma update_nonzero: "xs ! k \<noteq> 0 \<Longrightarrow> v \<noteq> 0 \<Longrightarrow> (xs[i := v]) ! k \<noteq> (0 :: nat)"
  by (cases "i = k"; cases "i < length xs") (simp_all add: list_update_beyond)

lemma reached_update: "reached slots h j \<Longrightarrow> v \<noteq> 0 \<Longrightarrow> reached (slots[i := v]) h j"
  unfolding reached_def by (metis length_list_update update_nonzero)

lemma fill_empty_slot:
  assumes "i < length slots" and "slots ! i = 0" and "nid \<notin> stored slots"
    and "distinct (filter (\<lambda>s. s \<noteq> 0) slots)"
  shows "stored (slots[i := Suc nid]) = insert nid (stored slots)"
    and "distinct (filter (\<lambda>s. s \<noteq> 0) (slots[i := Suc nid]))"
proof -
  let ?a = "take i slots" and ?b = "drop (Suc i) slots"
  have s: "slots = ?a @ 0 # ?b" using assms(1,2) by (metis id_take_nth_drop)
  have u: "slots[i := Suc nid] = ?a @ Suc nid # ?b" using assms(1) by (rule upd_conv_take_nth_drop)
  have "Suc nid \<notin> set ?a \<union> set ?b"
    using assms(3) by (auto simp: stored_def dest: in_set_takeD in_set_dropD)
  moreover have "distinct (filter (\<lambda>s. s \<noteq> 0) (?a @ 0 # ?b))" using assms(4) s by simp
  ultimately show "distinct (filter (\<lambda>s. s \<noteq> 0) (slots[i := Suc nid]))" unfolding u by auto
  have "set slots = set (?a @ 0 # ?b)" using s by simp
  then show "stored (slots[i := Suc nid]) = insert nid (stored slots)"
    unfolding u stored_def by auto
qed

lemma place_total:
  assumes inv: "slots_inv it nds nms" and room: "card (stored (it_slots it)) < length (it_slots it)"
    and nid: "nid < length nds" "name_ok nms (nds ! nid)" "nid < u32_max" "nid \<notin> stored (it_slots it)"
  obtains t where "place it nds nms nid = Ok t" and "slots_inv t nds nms"
    and "stored (it_slots t) = insert nid (stored (it_slots it))"
    and "length (it_slots t) = length (it_slots it)" and "it_len t = it_len it"
proof -
  let ?s = "it_slots it" and ?n = "length (it_slots it)"
  let ?h = "unat (hash_key (tn_parent (nds ! nid)) (tmp_name nms (nds ! nid)))"
  have dist: "distinct (filter (\<lambda>s. s \<noteq> 0) ?s)" using inv by (simp add: slots_inv_def)
  obtain m where m: "m < ?n" "?s ! ((?h + m) mod ?n) = 0" "\<forall>e < m. ?s ! ((?h + e) mod ?n) \<noteq> 0"
    using dist room by (rule first_empty)
  let ?i = "(?h + m) mod ?n" and ?s' = "?s[(?h + m) mod ?n := Suc nid]"
  have i: "?i < ?n" using m by (intro mod_less_divisor) auto
  have start: "bucket (hash_key (tn_parent (nds ! nid)) (tmp_name nms (nds ! nid))) (it_mask it)
      = (?h + 0) mod ?n"
    using inv by (simp add: slots_invD)
  have loop: "place_loop ?n it ((?h + 0) mod ?n) = Ok ?i"
    using m by (intro place_loop_scan [OF inv]) auto
  note filled = fill_empty_slot [OF i m(2) nid(4) dist]
  show ?thesis
  proof (rule that)
    show "place it nds nms nid = Ok (it\<lparr>it_slots := ?s'\<rparr>)"
      using nid i loop start by (simp add: place_def wrapping_add_u32_def)
    have home: "home nds nms (it_mask it) nid = ?h mod ?n"
      using inv by (simp add: home_def node_key_def slots_invD)
    have new: "reached ?s' (?h mod ?n) ?i"
      unfolding reached_def using m
      by (intro exI [of _ m]) (simp add: mod_simps update_nonzero)
    have "reached ?s' (home nds nms (it_mask it) (?s' ! j - 1)) j" if "j < ?n" "?s' ! j \<noteq> 0" for j
    proof (cases "j = ?i")
      case True
      with new home i show ?thesis by simp
    next
      case False
      with that inv have "reached ?s (home nds nms (it_mask it) (?s' ! j - 1)) j"
        unfolding slots_inv_def by force
      then show ?thesis by (rule reached_update) simp
    qed
    then show "slots_inv (it\<lparr>it_slots := ?s'\<rparr>) nds nms"
      using inv nid filled by (auto simp: slots_inv_def)
  qed (simp_all add: filled)
qed

section \<open>Growing and inserting\<close>

lemma stored_replicate [simp]: "stored (replicate n 0) = {}"
  by (auto simp: stored_def)

lemma next_power_of_two_from_power:
  "\<exists>j. next_power_of_two_from (2 ^ k) n = 2 ^ j \<and> n \<le> 2 ^ j"
proof (induction "2 ^ k :: nat" n arbitrary: k rule: next_power_of_two_from.induct)
  case (1 n)
  show ?case
  proof (cases "n \<le> 2 ^ k")
    case True
    then show ?thesis by (subst next_power_of_two_from.simps) auto
  next
    case False
    with 1 [of "Suc k"] show ?thesis by (subst next_power_of_two_from.simps) simp
  qed
qed

lemma next_power_of_two_power: obtains j where "next_power_of_two n = 2 ^ j" and "n \<le> 2 ^ j"
  using next_power_of_two_from_power [of 0 n] by (auto simp: next_power_of_two_def)

lemma slots_inv_fresh:
  "length (it_slots it) = 2 ^ k \<Longrightarrow> it_mask it = 2 ^ k - 1 \<Longrightarrow> set (it_slots it) \<subseteq> {0} \<Longrightarrow> slots_inv it nds nms"
  unfolding slots_inv_def stored_def by (auto simp: subset_iff)

lemma table_inv_with_capacity: "table_inv (with_capacity cap) [root] nms"
proof -
  obtain j where "next_power_of_two (max cap 16 * 2) = 2 ^ j" by (rule next_power_of_two_power)
  then show ?thesis
    by (auto simp: table_inv_def with_capacity_def Let_def intro!: slots_inv_fresh [of _ j])
qed

text \<open>Growing places every slot in use again; \<open>done\<close> is what is placed so far.\<close>

lemma regrow_total:
  assumes old: "distinct (filter (\<lambda>s. s \<noteq> 0) old)"
    and ids: "\<forall>nid \<in> stored old. nid < length nds \<and> name_ok nms (nds ! nid) \<and> nid < u32_max"
    and inv: "slots_inv it nds nms" and disj: "stored old \<inter> stored (it_slots it) = {}"
    and room: "card (stored (it_slots it)) + length old < length (it_slots it)"
  shows "\<exists>t. for_each (\<lambda>slot t. if slot \<noteq> 0 then place t nds nms (slot - 1) else Ok t) old it = Ok t
    \<and> slots_inv t nds nms \<and> stored (it_slots t) = stored (it_slots it) \<union> stored old
    \<and> length (it_slots t) = length (it_slots it) \<and> it_len t = it_len it"
  using assms
proof (induction old arbitrary: it)
  case Nil
  then show ?case by (simp add: stored_def)
next
  case (Cons slot old)
  show ?case
  proof (cases "slot = 0")
    case True
    then have "stored (slot # old) = stored old" by (auto simp: stored_def)
    with True Cons.IH [of it] Cons.prems show ?thesis by simp
  next
    case False
    then obtain nid where slot: "slot = Suc nid" by (cases slot) auto
    then have st: "stored (slot # old) = insert nid (stored old)" by (auto simp: stored_def)
    have new: "nid \<notin> stored old" using Cons.prems(1) slot by (auto simp: stored_def)
    have "card (stored (it_slots it)) < length (it_slots it)" "nid < length nds"
      "name_ok nms (nds ! nid)" "nid < u32_max" "nid \<notin> stored (it_slots it)"
      using Cons.prems st by auto
    from place_total [OF Cons.prems(3) this]
    obtain t where t: "place it nds nms nid = Ok t" "slots_inv t nds nms"
      "stored (it_slots t) = insert nid (stored (it_slots it))"
      "length (it_slots t) = length (it_slots it)" "it_len t = it_len it" .
    have "card (stored (it_slots t)) \<le> Suc (card (stored (it_slots it)))"
      using t(3) by (simp add: card_insert_le_m1 card_insert_if)
    then have "\<exists>u. for_each (\<lambda>slot t. if slot \<noteq> 0 then place t nds nms (slot - 1) else Ok t) old t = Ok u
      \<and> slots_inv u nds nms \<and> stored (it_slots u) = stored (it_slots t) \<union> stored old
      \<and> length (it_slots u) = length (it_slots t) \<and> it_len u = it_len t"
      using Cons.prems slot st t new by (intro Cons.IH) auto
    with t slot st show ?thesis by auto
  qed
qed

lemma grow_total:
  assumes inv: "slots_inv it nds nms" and ids: "\<forall>nid \<in> stored (it_slots it). nid < u32_max"
  obtains t where "grow it nds nms = Ok t" and "slots_inv t nds nms"
    and "stored (it_slots t) = stored (it_slots it)"
    and "length (it_slots t) = 2 * length (it_slots it)" and "it_len t = it_len it"
proof -
  let ?size = "length (it_slots it) * 2"
  let ?it = "it\<lparr>it_slots := replicate ?size 0, it_mask := ?size - 1\<rparr>"
  obtain k where "?size = 2 ^ Suc k" using inv by (auto simp: slots_inv_def)
  then have fresh: "slots_inv ?it nds nms" by (intro slots_inv_fresh [of _ "Suc k"]) auto
  have "\<exists>t. for_each (\<lambda>slot t. if slot \<noteq> 0 then place t nds nms (slot - 1) else Ok t)
      (it_slots it) ?it = Ok t
    \<and> slots_inv t nds nms \<and> stored (it_slots t) = stored (it_slots ?it) \<union> stored (it_slots it)
    \<and> length (it_slots t) = length (it_slots ?it) \<and> it_len t = it_len ?it"
    using inv ids slots_invD(1) [OF inv] by (intro regrow_total fresh) (auto simp: slots_inv_def)
  then show ?thesis using that by (auto simp: grow_def Let_def)
qed

text \<open>
  The invariant depends on the parents and names of the nodes only, and survives longer lists
  of nodes and names.
\<close>

lemma slots_inv_extend:
  assumes inv: "slots_inv it nds nms"
    and same: "\<forall>nid \<in> stored (it_slots it). nid < length nds' \<and> tn_parent (nds' ! nid) = tn_parent (nds ! nid)
      \<and> tn_name_off (nds' ! nid) = tn_name_off (nds ! nid)
      \<and> tn_name_len (nds' ! nid) = tn_name_len (nds ! nid)"
  shows "slots_inv it nds' (nms @ ext)"
proof -
  have ok: "name_ok nms (nds ! nid)" if "nid \<in> stored (it_slots it)" for nid
    using inv that by (auto simp: slots_inv_def)
  have "tmp_name (nms @ ext) (nds' ! nid) = tmp_name (nms @ ext) (nds ! nid)"
    if "nid \<in> stored (it_slots it)" for nid
    using same that by (simp add: tmp_name_def)
  then have key: "node_key nds' (nms @ ext) nid = node_key nds nms nid" if "nid \<in> stored (it_slots it)" for nid
    using same that ok by (simp add: node_key_def)
  have "reached (it_slots it) (home nds' (nms @ ext) (it_mask it) (it_slots it ! j - 1)) j"
    if j: "j < length (it_slots it)" "it_slots it ! j \<noteq> 0" for j
  proof -
    have "it_slots it ! j - 1 \<in> stored (it_slots it)" using j by (auto simp: stored_iff)
    with key inv j show ?thesis by (auto simp: home_def slots_inv_def)
  qed
  moreover have "nid < length nds' \<and> name_ok (nms @ ext) (nds' ! nid)" if "nid \<in> stored (it_slots it)" for nid
    using same that ok [OF that] by (auto simp: name_ok_def)
  ultimately show ?thesis using inv unfolding slots_inv_def by blast
qed

lemma insert_node_total:
  assumes inv: "table_inv it nds nms" and n: "name_ok (nms @ ext) n" and small: "length nds < u32_max"
  obtains t where "insert_node it (nds @ [n]) (nms @ ext) (length nds) = Ok t"
    and "table_inv t (nds @ [n]) (nms @ ext)"
proof -
  let ?nds = "nds @ [n]" and ?nms = "nms @ ext" and ?s = "it_slots it"
  have st: "stored ?s = {1..<length nds}" and len: "it_len it = length nds - 1" and ne: "nds \<noteq> []"
    and half: "2 * it_len it \<le> length ?s" using inv by (auto simp: table_inv_def)
  have "slots_inv it nds nms" using inv by (simp add: table_inv_def)
  then have ext: "slots_inv it ?nds ?nms"
    by (rule slots_inv_extend) (auto simp: st nth_append)
  obtain t1 where t1: "(if length ?s < (it_len it + 1) * 2 then grow it ?nds ?nms else Ok it) = Ok t1"
    "slots_inv t1 ?nds ?nms" "stored (it_slots t1) = stored ?s" "it_len t1 = it_len it"
    "(it_len it + 1) * 2 \<le> length (it_slots t1)"
  proof (cases "length ?s < (it_len it + 1) * 2")
    case True
    have "\<forall>nid \<in> stored ?s. nid < u32_max" using st small by auto
    from grow_total [OF ext this] obtain t where "grow it ?nds ?nms = Ok t" "slots_inv t ?nds ?nms"
      "stored (it_slots t) = stored ?s" "length (it_slots t) = 2 * length ?s" "it_len t = it_len it" .
    moreover have "(it_len it + 1) * 2 \<le> 2 * length ?s" using slots_invD(1) [OF ext] half by arith
    ultimately show ?thesis using True by (intro that [of t]) simp_all
  next
    case False
    with ext show ?thesis by (intro that [of it]) auto
  qed
  have "card (stored (it_slots t1)) = it_len it" using t1(3) st len by simp
  then have "card (stored (it_slots t1)) < length (it_slots t1)" using t1(5) by simp
  moreover have "length nds < length ?nds" "name_ok ?nms (?nds ! length nds)"
    "length nds \<notin> stored (it_slots t1)" using n t1 st by auto
  ultimately obtain t2 where "place t1 ?nds ?nms (length nds) = Ok t2" "slots_inv t2 ?nds ?nms"
    "stored (it_slots t2) = insert (length nds) (stored (it_slots t1))"
    "length (it_slots t2) = length (it_slots t1)" "it_len t2 = it_len t1"
    using place_total [OF t1(2)] small by metis
  with t1 st len ne show ?thesis
    by (intro that [of "t2\<lparr>it_len := it_len t2 + 1\<rparr>"])
      (auto simp: insert_node_def table_inv_def slots_inv_def atLeastLessThanSuc neq_Nil_conv)
qed

section \<open>The interface\<close>

text \<open>No two nodes other than the root have the same parent and name.\<close>

definition keys_distinct :: "tmp_node list \<Rightarrow> bytes \<Rightarrow> bool" where
  "keys_distinct nds nms \<longleftrightarrow> inj_on (node_key nds nms) {1..<length nds}"

definition same_keys :: "tmp_node list \<Rightarrow> tmp_node list \<Rightarrow> bool" where
  "same_keys nds nds' \<longleftrightarrow> length nds' = length nds \<and> (\<forall>i < length nds.
     tn_parent (nds' ! i) = tn_parent (nds ! i) \<and> tn_name_off (nds' ! i) = tn_name_off (nds ! i)
     \<and> tn_name_len (nds' ! i) = tn_name_len (nds ! i))"

locale intern_table =
  fixes invar :: "'t \<Rightarrow> tmp_node list \<Rightarrow> bytes \<Rightarrow> bool"
    and lookup :: "'t \<Rightarrow> tmp_node list \<Rightarrow> bytes \<Rightarrow> nat \<Rightarrow> bytes \<Rightarrow> nat option result"
    and add_node :: "'t \<Rightarrow> tmp_node list \<Rightarrow> bytes \<Rightarrow> nat \<Rightarrow> 't result"
  assumes lookup_total: "invar t nds nms \<Longrightarrow> \<exists>r. lookup t nds nms p name = Ok r"
    and lookup_hit: "invar t nds nms \<Longrightarrow> lookup t nds nms p name = Ok (Some nid) \<Longrightarrow>
      0 < nid \<and> nid < length nds \<and> node_key nds nms nid = (p, name)"
    and lookup_miss: "invar t nds nms \<Longrightarrow> lookup t nds nms p name = Ok None \<Longrightarrow>
      0 < nid \<Longrightarrow> nid < length nds \<Longrightarrow> node_key nds nms nid \<noteq> (p, name)"
    and add_total: "invar t nds nms \<Longrightarrow> name_ok (nms @ ext) n \<Longrightarrow> length nds < u32_max \<Longrightarrow>
      \<exists>t'. add_node t (nds @ [n]) (nms @ ext) (length nds) = Ok t'
        \<and> invar t' (nds @ [n]) (nms @ ext)"
    and invar_frame: "invar t nds nms \<Longrightarrow> same_keys nds nds' \<Longrightarrow> invar t nds' nms"
    and invar_nonempty: "invar t nds nms \<Longrightarrow> nds \<noteq> []"
begin

lemma lookup_known:
  assumes "invar t nds nms" and "keys_distinct nds nms"
    and "0 < nid" and "nid < length nds" and "node_key nds nms nid = (p, name)"
  shows "lookup t nds nms p name = Ok (Some nid)"
proof -
  obtain r where r: "lookup t nds nms p name = Ok r" using lookup_total assms(1) by blast
  show ?thesis
  proof (cases r)
    case None
    then show ?thesis using lookup_miss assms r by blast
  next
    case (Some nid')
    with r lookup_hit [OF assms(1)] have "0 < nid'" "nid' < length nds" "node_key nds nms nid' = (p, name)"
      by auto
    then have "nid' = nid" using assms inj_onD [of "node_key nds nms" "{1..<length nds}" nid' nid]
      by (auto simp: keys_distinct_def)
    with r Some show ?thesis by simp
  qed
qed

lemma lookup_iff:
  assumes "invar t nds nms" and "keys_distinct nds nms"
  shows "lookup t nds nms p name = Ok (Some nid) \<longleftrightarrow>
    0 < nid \<and> nid < length nds \<and> node_key nds nms nid = (p, name)"
  using lookup_known lookup_hit assms by blast

lemma lookup_added:
  assumes "invar t (nds @ [n]) nms" and "keys_distinct (nds @ [n]) nms" and "nds \<noteq> []"
  shows "lookup t (nds @ [n]) nms (tn_parent n) (tmp_name nms n) = Ok (Some (length nds))"
  using assms by (intro lookup_known) (auto simp: node_key_def)

end

interpretation it: intern_table table_inv find insert_node
proof unfold_locales
  fix it nds nms p name nid
  assume inv: "table_inv it nds nms"
  then have st: "stored (it_slots it) = {1..<length nds}" and sl: "slots_inv it nds nms"
    and "2 * it_len it \<le> length (it_slots it)" "it_len it = length nds - 1" "nds \<noteq> []"
    by (auto simp: table_inv_def)
  then have "card (stored (it_slots it)) = it_len it" "2 * it_len it \<le> length (it_slots it)" by simp_all
  then have room: "card (stored (it_slots it)) < length (it_slots it)"
    using slots_invD(1) [OF sl] by linarith
  obtain r where r: "find it nds nms p name = Ok r"
    "\<And>nid. r = Some nid \<Longrightarrow> nid \<in> stored (it_slots it) \<and> node_key nds nms nid = (p, name)"
    "r = None \<Longrightarrow> \<forall>nid \<in> stored (it_slots it). node_key nds nms nid \<noteq> (p, name)"
    using find_total [OF sl room] by blast
  show "\<exists>r. find it nds nms p name = Ok r" using r by blast
  show "find it nds nms p name = Ok (Some nid) \<Longrightarrow>
      0 < nid \<and> nid < length nds \<and> node_key nds nms nid = (p, name)"
    using r st by auto
  show "find it nds nms p name = Ok None \<Longrightarrow> 0 < nid \<Longrightarrow> nid < length nds \<Longrightarrow>
      node_key nds nms nid \<noteq> (p, name)"
    using r st by auto
  show "nds \<noteq> []" using inv by (simp add: table_inv_def)
next
  fix it nds nms ext n
  assume "table_inv it nds nms" "name_ok (nms @ ext) n" "length nds < u32_max"
  then show "\<exists>t'. insert_node it (nds @ [n]) (nms @ ext) (length nds) = Ok t'
      \<and> table_inv t' (nds @ [n]) (nms @ ext)"
    using insert_node_total by metis
next
  fix it nds nms nds'
  assume inv: "table_inv it nds nms" and "same_keys nds nds'"
  then have "slots_inv it nds' (nms @ [])"
    by (intro slots_inv_extend [of it nds]) (auto simp: table_inv_def same_keys_def)
  with inv \<open>same_keys nds nds'\<close> show "table_inv it nds' nms"
    by (auto simp: table_inv_def same_keys_def)
qed

section \<open>What is inserted is found\<close>

text \<open>
  C25. The table gives back what was put in. Inserting a new node always works, growing the table when
  it has to; afterwards the parent and the name of the new node find exactly that node, and those of
  every earlier node still find theirs.
\<close>

theorem intern_roundtrip:
  assumes inv: "table_inv it nds nms" and name: "name_ok (nms @ ext) n" and room: "length nds < u32_max"
    and new: "keys_distinct (nds @ [n]) (nms @ ext)"
  shows "\<exists>it'. insert_node it (nds @ [n]) (nms @ ext) (length nds) = Ok it'
    \<and> find it' (nds @ [n]) (nms @ ext) (tn_parent n) (tmp_name (nms @ ext) n) = Ok (Some (length nds))
    \<and> (\<forall>nid \<in> {1..<length nds}. find it' (nds @ [n]) (nms @ ext) (tn_parent (nds ! nid)) (tmp_name (nms @ ext) (nds ! nid))
         = Ok (Some nid))"
proof -
  obtain it' where ins: "insert_node it (nds @ [n]) (nms @ ext) (length nds) = Ok it'"
    and inv': "table_inv it' (nds @ [n]) (nms @ ext)" using it.add_total [OF inv name room] by blast
  have "find it' (nds @ [n]) (nms @ ext) (tn_parent (nds ! nid)) (tmp_name (nms @ ext) (nds ! nid)) = Ok (Some nid)"
    if "nid \<in> {1..<length nds}" for nid
    using that by (intro it.lookup_known [OF inv' new]) (auto simp: node_key_def nth_append)
  with ins it.lookup_added [OF inv' new it.invar_nonempty [OF inv]] show ?thesis by blast
qed

definition sample_root :: tmp_node where
  "sample_root = \<lparr> tn_name_off = 0, tn_name_len = 0, tn_kind = Dir, tn_flags = 0, tn_parent = 0, tn_meta = 0 \<rparr>"

theorem intern_roundtrip_witness:
  "\<exists>it'. insert_node (with_capacity 0) [sample_root, sample_root\<lparr>tn_name_len := 1\<rparr>] [97] 1 = Ok it'
    \<and> find it' [sample_root, sample_root\<lparr>tn_name_len := 1\<rparr>] [97] 0 [97] = Ok (Some 1)"
proof -
  have "keys_distinct ([sample_root] @ [sample_root\<lparr>tn_name_len := 1\<rparr>]) ([] @ [97])"
    by (simp add: keys_distinct_def inj_on_def)
  from intern_roundtrip [OF table_inv_with_capacity _ _ this, of 0] show ?thesis
    by (auto simp: name_ok_def sample_root_def tmp_name_def)
qed

end
