(* ===== verification/Path_Rules.thy ===== *)
theory Path_Rules
  imports Index_Types
begin

text \<open>
  The path functions of \<^verbatim>\<open>src/index/build.rs\<close>: which entry paths are refused and why, how a
  path splits into components, its canonical form, and its split into parent and leaf. The
  lemmas characterise the accepted paths and show that the canonical form has the components of
  the path and splits into them.
\<close>

section \<open>Definitions\<close>

definition MAX_DEPTH :: nat where "MAX_DEPTH = 256"
definition MAX_COMPONENT :: nat where "MAX_COMPONENT = 255"
definition MAX_PREALLOC :: nat where "MAX_PREALLOC = 2 ^ 20"
definition MAX_WARNINGS :: nat where "MAX_WARNINGS = 16"

abbreviation SLASH :: byte where "SLASH \<equiv> 47"
abbreviation BACKSLASH :: byte where "BACKSLASH \<equiv> 92"
abbreviation COLON :: byte where "COLON \<equiv> 58"
abbreviation DOT :: byte where "DOT \<equiv> 46"

text \<open>\<open>slice::split\<close>\<close>

fun split_at_slash :: "bytes \<Rightarrow> bytes list" where
  "split_at_slash [] = [[]]"
| "split_at_slash (b # bs) =
     (if b = SLASH then [] # split_at_slash bs
      else (case split_at_slash bs of [] \<Rightarrow> [[b]] | c # cs \<Rightarrow> (b # c) # cs))"

definition components :: "bytes \<Rightarrow> bytes list" where
  "components path = filter (\<lambda>c. c \<noteq> [] \<and> c \<noteq> [DOT]) (split_at_slash path)"

definition is_ascii_alphabetic :: "byte \<Rightarrow> bool" where
  "is_ascii_alphabetic b \<longleftrightarrow> (65 \<le> b \<and> b \<le> 90) \<or> (97 \<le> b \<and> b \<le> 122)"

definition is_ascii_graphic :: "byte \<Rightarrow> bool" where
  "is_ascii_graphic b \<longleftrightarrow> 33 \<le> b \<and> b \<le> 126"

text \<open>The loop over the components: the first complaint, or the depth reached.\<close>

fun check_components :: "nat \<Rightarrow> bytes list \<Rightarrow> string + nat" where
  "check_components depth [] = Inr depth"
| "check_components depth (c # cs) =
     (if c = [DOT, DOT] then Inl ''path escapes the archive root''
      else if MAX_COMPONENT < length c then Inl ''path component is too long''
      else let depth = depth + 1
           in if MAX_DEPTH < depth then Inl ''path is too deep'' else check_components depth cs)"

definition reject_reason :: "bytes \<Rightarrow> string option" where
  "reject_reason path =
     (if path = [] then Some ''empty path''
      else if 0 \<in> set path then Some ''path contains a NUL byte''
      else if path ! 0 = SLASH \<or> path ! 0 = BACKSLASH then Some ''absolute path''
      else if 2 \<le> length path \<and> path ! 1 = COLON \<and> is_ascii_alphabetic (path ! 0)
        then Some ''path has a drive prefix''
      else case check_components 0 (components path) of
        Inl why \<Rightarrow> Some why
      | Inr depth \<Rightarrow> if depth = 0 then Some ''path has no components'' else None)"

text \<open>\<open>Iterator::rposition\<close>\<close>

definition rposition :: "('a \<Rightarrow> bool) \<Rightarrow> 'a list \<Rightarrow> nat option" where
  "rposition P xs =
     (let tail = takeWhile (\<lambda>x. \<not> P x) (rev xs)
      in if length tail = length xs then None else Some (length xs - 1 - length tail))"

definition split_parent :: "bytes \<Rightarrow> bytes \<times> bytes" where
  "split_parent path =
     (let body = (if path \<noteq> [] \<and> last path = SLASH then butlast path else path)
      in case rposition (\<lambda>b. b = SLASH) body of
           Some i \<Rightarrow> (take (i + 1) body, drop (i + 1) body)
         | None \<Rightarrow> ([], body))"

definition push_component :: "bytes \<Rightarrow> bytes \<Rightarrow> bytes" where
  "push_component normalized c = (if normalized \<noteq> [] then normalized @ [SLASH] else normalized) @ c"

definition normalize_path :: "bytes \<Rightarrow> bytes" where
  "normalize_path path = foldl push_component [] (components path)"

text \<open>The log form of a path.\<close>

definition hex_digit :: "byte \<Rightarrow> byte" where
  "hex_digit d = (if d < 10 then 48 + d else 87 + d)"

definition show_path :: "bytes \<Rightarrow> bytes" where
  "show_path path = concat (map (\<lambda>b.
     if is_ascii_graphic b \<or> b = 32 then [b]
     else [BACKSLASH, 120, hex_digit (drop_bit 4 b), hex_digit (b AND 15)]) path)"

definition is_symlink_mode :: "ext_consts \<Rightarrow> u16 \<Rightarrow> bool" where
  "is_symlink_mode xc m \<longleftrightarrow> (ucast m :: u32) AND xc_s_ifmt xc = xc_s_iflnk xc"

section \<open>Components\<close>

text \<open>What a component of an accepted path looks like.\<close>

definition good_component :: "bytes \<Rightarrow> bool" where
  "good_component c \<longleftrightarrow> c \<noteq> [] \<and> c \<noteq> [DOT] \<and> SLASH \<notin> set c"

lemma split_at_slash_nonempty [simp]: "split_at_slash p \<noteq> []"
  by (induction p rule: split_at_slash.induct) (auto split: list.splits)

lemma split_at_slash_no_slash: "SLASH \<notin> set c \<Longrightarrow> split_at_slash c = [c]"
  by (induction c rule: split_at_slash.induct) auto

lemma split_at_slash_parts: "c \<in> set (split_at_slash p) \<Longrightarrow> SLASH \<notin> set c"
  by (induction p arbitrary: c rule: split_at_slash.induct) (auto split: if_splits list.splits)

lemma split_at_slash_append:
  "split_at_slash (p @ SLASH # q) = split_at_slash p @ split_at_slash q"
  by (induction p rule: split_at_slash.induct) (auto split: list.splits)

lemma components_good: "c \<in> set (components p) \<Longrightarrow> good_component c"
  by (auto simp: components_def good_component_def dest: split_at_slash_parts)

lemma components_append [simp]: "components (p @ SLASH # q) = components p @ components q"
  by (simp add: components_def split_at_slash_append)

lemma components_Nil [simp]: "components [] = []"
  by (simp add: components_def)

lemma components_single: "good_component c \<Longrightarrow> components c = [c]"
  by (simp add: components_def good_component_def split_at_slash_no_slash)

lemma push_component_nonempty: "good_component c \<Longrightarrow> push_component acc c \<noteq> []"
  by (simp add: push_component_def good_component_def)

lemma components_push: "good_component c \<Longrightarrow> components (push_component acc c) = components acc @ [c]"
  by (simp add: push_component_def components_single)

lemma components_join:
  "(\<And>c. c \<in> set cs \<Longrightarrow> good_component c) \<Longrightarrow> components (foldl push_component acc cs) = components acc @ cs"
  by (induction cs arbitrary: acc) (auto simp: components_push)

lemma components_normalize [simp]: "components (normalize_path p) = components p"
  by (simp add: normalize_path_def components_join components_good)

lemma normalize_path_idem: "normalize_path (normalize_path p) = normalize_path p"
  by (simp add: normalize_path_def [of "normalize_path p"]) (simp add: normalize_path_def)

section \<open>Parent and leaf\<close>

lemma rposition_append:
  assumes "P x" and "\<forall>y \<in> set ys. \<not> P y"
  shows "rposition P (xs @ x # ys) = Some (length xs)"
proof -
  have "takeWhile (\<lambda>x. \<not> P x) (rev (xs @ x # ys)) = rev ys"
    using assms by (simp add: takeWhile_append2 takeWhile_tail)
  then show ?thesis by (simp add: rposition_def)
qed

lemma rposition_none: "\<forall>y \<in> set ys. \<not> P y \<Longrightarrow> rposition P ys = None"
  by (simp add: rposition_def takeWhile_eq_all_conv [THEN iffD2])

lemma split_parent_push:
  assumes "good_component c"
  shows "split_parent (push_component acc c) = ((if acc = [] then [] else acc @ [SLASH]), c)"
proof -
  have c: "c \<noteq> []" "SLASH \<notin> set c" using assms by (auto simp: good_component_def)
  then have "last c \<noteq> SLASH" using last_in_set by metis
  moreover have "\<forall>y \<in> set c. y \<noteq> SLASH" using c by auto
  ultimately show ?thesis
    using c rposition_append [of "\<lambda>b. b = SLASH" SLASH c acc] rposition_none [of c "\<lambda>b. b = SLASH"]
    by (auto simp: split_parent_def push_component_def Let_def)
qed

lemma split_parent_normalize:
  assumes "components p = cs @ [c]"
  shows "split_parent (normalize_path p) =
    ((if cs = [] then [] else foldl push_component [] cs @ [SLASH]), c)"
proof -
  have good: "good_component c" "\<And>d. d \<in> set cs \<Longrightarrow> good_component d"
    using components_good [of _ p] assms by auto
  have "foldl push_component [] cs = [] \<longleftrightarrow> cs = []"
    using good(2) by (cases cs rule: rev_cases) (auto simp: push_component_nonempty)
  then show ?thesis
    using assms good by (simp add: normalize_path_def split_parent_push)
qed

lemma split_parent_components:
  assumes "components p \<noteq> []" and "split_parent (normalize_path p) = (par, leaf)"
  shows "components p = components par @ [leaf]"
proof -
  obtain cs c where cs: "components p = cs @ [c]" using assms(1) by (cases "components p" rule: rev_cases) auto
  have "\<And>d. d \<in> set cs \<Longrightarrow> good_component d" using components_good [of _ p] cs by auto
  then have "components (foldl push_component [] cs) = cs" by (simp add: components_join)
  moreover have "components (q @ [SLASH]) = components q" for q
    using components_append [of q "[]"] by simp
  ultimately show ?thesis
    using assms(2) split_parent_normalize [OF cs] cs by (auto split: if_splits)
qed

section \<open>Refused paths\<close>

lemma check_components_Inr:
  "depth \<le> MAX_DEPTH \<Longrightarrow> check_components depth cs = Inr d \<longleftrightarrow>
     (\<forall>c \<in> set cs. c \<noteq> [DOT, DOT] \<and> length c \<le> MAX_COMPONENT)
     \<and> depth + length cs \<le> MAX_DEPTH \<and> d = depth + length cs"
  by (induction depth cs rule: check_components.induct) (auto simp: Let_def not_less)

lemma reject_reason_None:
  "reject_reason p = None \<longleftrightarrow>
     p \<noteq> [] \<and> 0 \<notin> set p \<and> p ! 0 \<noteq> SLASH \<and> p ! 0 \<noteq> BACKSLASH
     \<and> \<not> (2 \<le> length p \<and> p ! 1 = COLON \<and> is_ascii_alphabetic (p ! 0))
     \<and> (\<forall>c \<in> set (components p). c \<noteq> [DOT, DOT] \<and> length c \<le> MAX_COMPONENT)
     \<and> components p \<noteq> [] \<and> length (components p) \<le> MAX_DEPTH"
proof -
  have "(case check_components 0 cs of Inl why \<Rightarrow> Some why
       | Inr depth \<Rightarrow> if depth = 0 then Some ''path has no components'' else None) = None \<longleftrightarrow>
     (\<forall>c \<in> set cs. c \<noteq> [DOT, DOT] \<and> length c \<le> MAX_COMPONENT) \<and> cs \<noteq> [] \<and> length cs \<le> MAX_DEPTH" for cs
  proof (cases "check_components 0 cs")
    case (Inl why)
    then show ?thesis using check_components_Inr [of 0 cs "length cs"] by auto
  next
    case (Inr d)
    then show ?thesis using check_components_Inr [of 0 cs d] by auto
  qed
  then show ?thesis by (simp add: reject_reason_def)
qed

section \<open>The log form\<close>

lemma hex_digit_graphic: "d < 16 \<Longrightarrow> is_ascii_graphic (hex_digit d)"
  by (auto simp: hex_digit_def is_ascii_graphic_def word_le_nat_alt word_less_nat_alt unat_word_ariths)

lemma show_path_printable: "b \<in> set (show_path p) \<Longrightarrow> is_ascii_graphic b \<or> b = 32"
proof -
  have "drop_bit 4 (x :: byte) < 16" "x AND 15 < 16" for x :: byte
  proof -
    have "unat x < 256" using unsigned_less [of x] by simp
    then show "drop_bit 4 x < 16" by (simp add: word_less_nat_alt drop_bit_eq_div unat_div)
    have "x AND 15 \<le> 15" by (rule word_and_le1)
    then show "x AND 15 < 16" by (simp add: word_le_nat_alt word_less_nat_alt)
  qed
  then show "b \<in> set (show_path p) \<Longrightarrow> is_ascii_graphic b \<or> b = 32"
    by (auto simp: show_path_def hex_digit_graphic split: if_splits) (auto simp: is_ascii_graphic_def)
qed

end
