(* ===== verification/Civil_Time.thy ===== *)
theory Civil_Time
  imports Main
begin

text \<open>
  Zip timestamps, \<open>to_unix\<close> and \<open>days_from_civil\<close> of \<^verbatim>\<open>src/index/build.rs\<close>. Rust's \<open>i64\<close>
  arithmetic is on \<open>int\<close>; \<open>/\<close> truncates towards zero, as in Rust. The main lemma compares the
  closed formula with a calendar that adds up the lengths of years and months; another bounds
  the result, so the \<open>i64\<close> never overflows.
\<close>

section \<open>Definitions\<close>

text \<open>The accessors of \<open>rawzip::time::ZipDateTimeKind\<close>: \<open>u16\<close>, then \<open>u8\<close>, the last \<open>u32\<close>.\<close>

record zip_datetime =
  dt_year :: nat
  dt_month :: nat
  dt_day :: nat
  dt_hour :: nat
  dt_minute :: nat
  dt_second :: nat
  dt_nanosecond :: nat

definition tdiv :: "int \<Rightarrow> int \<Rightarrow> int" where
  "tdiv a b = sgn a * sgn b * (\<bar>a\<bar> div \<bar>b\<bar>)"

definition trem :: "int \<Rightarrow> int \<Rightarrow> int" where
  "trem a b = a - b * tdiv a b"

definition days_from_civil :: "int \<Rightarrow> nat \<Rightarrow> nat \<Rightarrow> int" where
  "days_from_civil year0 month0 day0 =
     (let month = int (max month0 1); day = int (max day0 1);
          year = (if month \<le> 2 then year0 - 1 else year0);
          era = tdiv (if 0 \<le> year then year else year - 399) 400;
          year_of_era = year - era * 400;
          month_shifted = trem (month + 9) 12;
          day_of_year = tdiv (153 * month_shifted + 2) 5 + day - 1;
          day_of_era = year_of_era * 365 + tdiv year_of_era 4 - tdiv year_of_era 100 + day_of_year
      in era * 146097 + day_of_era - 719468)"

definition to_unix :: "zip_datetime \<Rightarrow> int \<times> nat" where
  "to_unix dt =
     (let days = days_from_civil (int (dt_year dt)) (dt_month dt) (dt_day dt);
          secs = days * 86400 + int (dt_hour dt) * 3600 + int (dt_minute dt) * 60
                 + int (dt_second dt)
      in (secs, dt_nanosecond dt))"

section \<open>A calendar to compare with\<close>

definition leap_year :: "nat \<Rightarrow> bool" where
  "leap_year y \<longleftrightarrow> y mod 4 = 0 \<and> (y mod 100 \<noteq> 0 \<or> y mod 400 = 0)"

definition month_days :: "nat \<Rightarrow> nat \<Rightarrow> int" where
  "month_days y m =
     (if m = 2 then (if leap_year y then 29 else 28)
      else if m \<in> {4, 6, 9, 11} then 30 else 31)"

text \<open>Days before the first of January of year \<open>y\<close>, and before a month of it, year 0 first.\<close>

fun days_before_year :: "nat \<Rightarrow> int" where
  "days_before_year 0 = 0"
| "days_before_year (Suc y) = days_before_year y + (if leap_year y then 366 else 365)"

fun days_before_month :: "nat \<Rightarrow> nat \<Rightarrow> int" where
  "days_before_month y 0 = 0"
| "days_before_month y (Suc m) = days_before_month y m + (if m = 0 then 0 else month_days y m)"

definition day_number :: "nat \<Rightarrow> nat \<Rightarrow> nat \<Rightarrow> int" where
  "day_number y m d = days_before_year y + days_before_month y m + int d - 1"

section \<open>The formula agrees with the calendar\<close>

lemma tdiv_nonneg [simp]: "0 \<le> a \<Longrightarrow> 0 < b \<Longrightarrow> tdiv a b = a div b"
  by (cases "a = 0") (simp_all add: tdiv_def)

lemma trem_nonneg [simp]: "0 \<le> a \<Longrightarrow> 0 < b \<Longrightarrow> trem a b = a mod b"
  by (simp add: trem_def minus_mult_div_eq_mod)

lemma era_floor: "tdiv (if 0 \<le> y then y else y - 399) 400 = y div 400"
proof (cases "0 \<le> y")
  case False
  then have "sgn (y - 399) = -1" "\<bar>y - 399\<bar> = 399 - y" by simp_all
  then have "tdiv (y - 399) 400 = - ((399 - y) div 400)" by (simp add: tdiv_def)
  then show ?thesis using False by simp
qed simp

lemma days_of_era:
  fixes y :: int
  shows "(y div 400) * 146097 + ((y - (y div 400) * 400) * 365 + (y - (y div 400) * 400) div 4
      - (y - (y div 400) * 400) div 100) = 365 * y + y div 4 - y div 100 + y div 400"
proof -
  define e r where "e = y div 400" and "r = y - e * 400"
  then have y: "y = r + e * 400" by simp
  have "y div 4 = r div 4 + e * 100" unfolding y by simp
  moreover have "y div 100 = r div 100 + e * 4" unfolding y by simp
  ultimately show ?thesis
    unfolding e_def [symmetric] r_def [symmetric] using y by (simp add: algebra_simps)
qed

lemma days_from_civil_closed:
  assumes "1 \<le> m" and "1 \<le> d" and Y: "Y = (if m \<le> 2 then y - 1 else y)"
  shows "days_from_civil y m d = 365 * Y + Y div 4 - Y div 100 + Y div 400
    + (153 * ((int m + 9) mod 12) + 2) div 5 + int d - 1 - 719468"
proof -
  have nonneg: "0 \<le> Y - Y div 400 * 400" by (simp add: minus_div_mult_eq_mod)
  have "int (max m 1) = int m" "int (max d 1) = int d" using assms by simp_all
  moreover have "(if int m \<le> 2 then y - 1 else y) = Y" using Y by simp
  ultimately have "days_from_civil y m d = Y div 400 * 146097 + ((Y - Y div 400 * 400) * 365
      + (Y - Y div 400 * 400) div 4 - (Y - Y div 400 * 400) div 100
      + ((153 * ((int m + 9) mod 12) + 2) div 5 + int d - 1)) - 719468"
    using nonneg by (simp only: days_from_civil_def Let_def era_floor) simp
  then show ?thesis using days_of_era [of Y] by linarith
qed

lemma div_step:
  assumes "0 < n"
  shows "(int y + int n) div int n = (int y + int n - 1) div int n + (if y mod n = 0 then 1 else 0)"
proof -
  define q r where "q = int (y div n)" and "r = int (y mod n)"
  have y: "int y = int n * q + r" "0 \<le> r" "r < int n"
    using assms by (simp_all add: q_def r_def flip: of_nat_mult of_nat_add)
  have l: "(int y + int n) div int n = q + 1"
    using y by (intro int_div_pos_eq [of _ _ _ r]) (simp_all add: algebra_simps)
  show ?thesis
  proof (cases "y mod n = 0")
    case True
    then have "r = 0" by (simp add: r_def)
    then have "(int y + int n - 1) div int n = q"
      using y by (intro int_div_pos_eq [of _ _ _ "int n - 1"]) simp_all
    with l True show ?thesis by simp
  next
    case False
    then have "1 \<le> r" by (simp add: r_def)
    then have "(int y + int n - 1) div int n = q + 1"
      using y by (intro int_div_pos_eq [of _ _ _ "r - 1"]) (simp_all add: algebra_simps)
    with l False show ?thesis by simp
  qed
qed

text \<open>One leap day more or not; the quotients are kept abstract.\<close>

lemma leap_step:
  "(int y + 4) div 4 - (int y + 100) div 100 + (int y + 400) div 400
   = (int y + 3) div 4 - (int y + 99) div 100 + (int y + 399) div 400 + (if leap_year y then 1 else 0)"
proof -
  define a4 a100 a400 where "a4 = (int y + 4) div 4" and "a100 = (int y + 100) div 100"
    and "a400 = (int y + 400) div 400"
  define b4 b100 b400 where "b4 = (int y + 3) div 4" and "b100 = (int y + 99) div 100"
    and "b400 = (int y + 399) div 400"
  have a4: "a4 = b4 + (if y mod 4 = 0 then 1 else 0)"
    unfolding a4_def b4_def using div_step [of 4 y] by simp
  have a100: "a100 = b100 + (if y mod 100 = 0 then 1 else 0)"
    unfolding a100_def b100_def using div_step [of 100 y] by simp
  have a400: "a400 = b400 + (if y mod 400 = 0 then 1 else 0)"
    unfolding a400_def b400_def using div_step [of 400 y] by simp
  note ab = a4 a100 a400
  have "y mod 400 = 0 \<Longrightarrow> y mod 100 = 0" "y mod 100 = 0 \<Longrightarrow> y mod 4 = 0"
    using mod_mod_cancel [of 100 400 y] mod_mod_cancel [of 4 100 y] by simp_all
  then have "a4 - a100 + a400 = b4 - b100 + b400 + (if leap_year y then 1 else 0)"
    unfolding ab leap_year_def by (cases "y mod 4 = 0"; cases "y mod 100 = 0"; cases "y mod 400 = 0") simp_all
  then show ?thesis by (simp only: a4_def a100_def a400_def b4_def b100_def b400_def)
qed

lemma days_before_year_closed:
  "days_before_year y = 365 * int y + ((int y + 3) div 4 - (int y + 99) div 100 + (int y + 399) div 400)"
proof (induction y)
  case (Suc y)
  have "int (Suc y) + 3 = int y + 4" "int (Suc y) + 99 = int y + 100" "int (Suc y) + 399 = int y + 400"
    by simp_all
  moreover have "(365 :: int) * int (Suc y) = 365 * int y + 365" by simp
  ultimately show ?case using Suc.IH unfolding leap_step by (simp only: days_before_year.simps leap_step) simp
qed simp

text \<open>The day of the year, from March on and for January and February.\<close>

lemma month_cases:
  "1 \<le> m \<Longrightarrow> m \<le> 12 \<Longrightarrow> m = 1 \<or> m = 2 \<or> m = 3 \<or> m = 4 \<or> m = 5 \<or> m = 6 \<or> m = 7 \<or> m = 8 \<or> m = 9
     \<or> m = 10 \<or> m = 11 \<or> m = (12 :: nat)"
  by presburger

lemma days_before_month_closed:
  assumes "1 \<le> m" and "m \<le> 12"
  shows "days_before_month y m = (153 * ((int m + 9) mod 12) + 2) div 5
    + (if m \<le> 2 then - 306 else if leap_year y then 60 else 59)"
  using month_cases [OF assms]
  by (elim disjE) (simp_all add: eval_nat_numeral month_days_def)

lemma year_before_march:
  "(int y + 3) div 4 - (int y + 99) div 100 + (int y + 399) div 400 + (if leap_year y then 60 else 59)
   = int y div 4 - int y div 100 + int y div 400 + 60"
proof -
  define A where "A = int y div 4 - int y div 100 + int y div 400"
  define B where "B = (int y + 3) div 4 - (int y + 99) div 100 + (int y + 399) div 400"
  have "(int y + 4) div 4 = int y div 4 + 1" "(int y + 100) div 100 = int y div 100 + 1"
    "(int y + 400) div 400 = int y div 400 + 1" by simp_all
  then have "A + 1 = B + (if leap_year y then 1 else 0)"
    using leap_step [of y] unfolding A_def B_def by (simp only: algebra_simps)
  then have "B + (if leap_year y then 60 else 59) = A + 60" by (cases "leap_year y") simp_all
  then show ?thesis unfolding A_def B_def .
qed

lemma year_before_january:
  "(int y + 3) div 4 - (int y + 99) div 100 + (int y + 399) div 400
   = (int y - 1) div 4 - (int y - 1) div 100 + (int y - 1) div 400 + 1"
proof -
  have "int y + 3 = int y - 1 + 4" "int y + 99 = int y - 1 + 100" "int y + 399 = int y - 1 + 400"
    by simp_all
  then show ?thesis by (simp only: div_add_self2)
qed

lemma days_from_civil_calendar:
  assumes "1 \<le> m" and "m \<le> 12" and "1 \<le> d"
  shows "days_from_civil (int y) m d = day_number y m d - day_number 1970 1 1"
proof -
  have epoch: "day_number 1970 1 1 = 719528"
    by (simp add: day_number_def days_before_year_closed)
  show ?thesis
  proof (cases "m \<le> 2")
    case True
    then show ?thesis
      using days_from_civil_closed [OF assms(1,3) refl, of "int y"] year_before_january [of y]
      by (simp add: epoch day_number_def days_before_year_closed days_before_month_closed [OF assms(1,2)])
  next
    case False
    define s where "s = (153 * ((int m + 9) mod 12) + 2) div 5"
    define A where "A = int y div 4 - int y div 100 + int y div 400"
    define B where "B = (int y + 3) div 4 - (int y + 99) div 100 + (int y + 399) div 400"
    have AB: "B + (if leap_year y then 60 else 59) = A + 60"
      using year_before_march [of y] unfolding A_def B_def .
    have "days_from_civil (int y) m d = 365 * int y + A + s + int d - 1 - 719468"
      using days_from_civil_closed [OF assms(1,3) refl, of "int y"] False
      by (simp only: s_def A_def if_False)
    moreover have "day_number y m d = 365 * int y + B + (s + (if leap_year y then 60 else 59)) + int d - 1"
      unfolding day_number_def days_before_year_closed days_before_month_closed [OF assms(1,2)] s_def B_def
      using False by simp
    ultimately show ?thesis using AB epoch by simp
  qed
qed

section \<open>Bounds\<close>

lemma days_from_civil_bounds:
  assumes "y < 65536" and "m < 256" and "d < 256"
  shows "- 719834 \<le> days_from_civil (int y) m d" and "days_from_civil (int y) m d < 23221042"
proof -
  define m' d' where "m' = max m 1" and "d' = max d 1"
  define Y where "Y = (if m' \<le> 2 then int y - 1 else int y)"
  define s where "s = (int m' + 9) mod 12"
  have same: "days_from_civil (int y) m d = days_from_civil (int y) m' d'"
    by (simp add: days_from_civil_def m'_def d'_def)
  have eq: "days_from_civil (int y) m' d' = 365 * Y + Y div 4 - Y div 100 + Y div 400
      + (153 * s + 2) div 5 + int d' - 1 - 719468"
    unfolding s_def by (rule days_from_civil_closed) (auto simp: Y_def m'_def d'_def)
  have Y: "- 1 \<le> Y" "Y < 65536" using assms by (auto simp: Y_def)
  have "0 \<le> s" "s \<le> 11" by (simp_all add: s_def)
  moreover have "1 \<le> int d'" "int d' \<le> 255" using assms by (auto simp: d'_def)
  moreover have "- 1 \<le> Y div 400" "Y div 400 \<le> 163" "- 1 \<le> Y div 4" "Y div 4 \<le> 16383"
    "- 1 \<le> Y div 100" "Y div 100 \<le> 655" using Y by linarith+
  moreover have "0 \<le> (153 * s + 2) div 5" "(153 * s + 2) div 5 \<le> 337" using \<open>0 \<le> s\<close> \<open>s \<le> 11\<close> by linarith+
  moreover have "Y div 100 \<le> Y div 4 + 1" using Y by linarith
  ultimately show "- 719834 \<le> days_from_civil (int y) m d" "days_from_civil (int y) m d < 23221042"
    unfolding same eq using Y by linarith+
qed

section \<open>Times\<close>

text \<open>
  C39. The arithmetic of \<open>days_from_civil\<close> is the Gregorian calendar: for every date, the time in seconds
  is the number of days from the first of January 1970, counted year by year and month by month with
  the leap years, and the seconds of the day; it never leaves 64 bits, even for the dates a corrupt
  archive can hold.
\<close>

theorem to_unix_calendar:
  assumes "dt_year dt < 65536" "dt_month dt < 256" "dt_day dt < 256" "dt_hour dt < 256" "dt_minute dt < 256" "dt_second dt < 256"
  shows "- (2 ^ 63) \<le> fst (to_unix dt) \<and> fst (to_unix dt) < 2 ^ 63
    \<and> (1 \<le> dt_month dt \<and> dt_month dt \<le> 12 \<and> 1 \<le> dt_day dt \<longrightarrow>
       fst (to_unix dt) = (day_number (dt_year dt) (dt_month dt) (dt_day dt) - day_number 1970 1 1) * 86400
         + int (dt_hour dt) * 3600 + int (dt_minute dt) * 60 + int (dt_second dt))"
proof -
  let ?days = "days_from_civil (int (dt_year dt)) (dt_month dt) (dt_day dt)"
  have t: "fst (to_unix dt) = ?days * 86400 + int (dt_hour dt) * 3600 + int (dt_minute dt) * 60 + int (dt_second dt)"
    by (simp add: to_unix_def Let_def)
  have "- 719834 \<le> ?days" "?days < 23221042" using days_from_civil_bounds [OF assms(1-3)] by simp_all
  then have "- (2 ^ 63) \<le> fst (to_unix dt) \<and> fst (to_unix dt) < 2 ^ 63" using assms(4-6) unfolding t by simp
  then show ?thesis using days_from_civil_calendar [of "dt_month dt" "dt_day dt" "dt_year dt"] t by simp
qed

theorem to_unix_calendar_witness:
  "fst (to_unix \<lparr> dt_year = 2000, dt_month = 3, dt_day = 1, dt_hour = 1, dt_minute = 2, dt_second = 3, dt_nanosecond = 0 \<rparr>)
     = (day_number 2000 3 1 - day_number 1970 1 1) * 86400 + 3723"
  using to_unix_calendar [of "\<lparr> dt_year = 2000, dt_month = 3, dt_day = 1, dt_hour = 1, dt_minute = 2, dt_second = 3, dt_nanosecond = 0 \<rparr>"]
  by simp

end
