(* ===== verification/Builder.thy ===== *)
theory Builder
  imports Interner Path_Rules Civil_Time
begin

text \<open>
  The first pass of \<^verbatim>\<open>src/index/build.rs\<close>: the builder, which walks the central directory once
  and interns every component. The names follow the code; \<open>intern_name\<close> is \<open>Builder::intern\<close>
  and \<open>add_entry\<close> is \<open>Builder::add\<close>. A warner is its counter; the log lines themselves are not
  part of the state. The counters of \<open>BuildStats\<close> count entries and do not reach their width.
\<close>

section \<open>State\<close>

record build_stats =
  st_entries :: nat
  st_rejected_paths :: nat
  st_rejected_sizes :: nat
  st_duplicates :: nat
  st_encrypted :: nat
  st_unsupported :: nat
  st_synthetic_dirs :: nat
  st_symlinks :: nat

definition stats_default :: build_stats where
  "stats_default = \<lparr> st_entries = 0, st_rejected_paths = 0, st_rejected_sizes = 0,
     st_duplicates = 0, st_encrypted = 0, st_unsupported = 0, st_synthetic_dirs = 0,
     st_symlinks = 0 \<rparr>"

record 'w builder =
  b_nodes :: "tmp_node list"
  b_names :: bytes
  b_metas :: "'w entry_meta list"
  b_intern :: interner
  b_memo_path :: bytes
  b_memo_id :: nat
  b_symlink_count :: nat
  b_stats :: build_stats
  b_dup_warner :: nat
  b_reject_warner :: nat

text \<open>\<open>Warner::allow\<close>: whether to log, and the new count.\<close>

definition allow :: "nat \<Rightarrow> bool \<times> nat" where
  "allow seen = (let seen = wrapping_add_u32 seen 1 in (seen \<le> MAX_WARNINGS, seen))"

definition builder_new :: "nat \<Rightarrow> 'w builder" where
  "builder_new hint = \<lparr>
     b_nodes = [\<lparr> tn_name_off = 0, tn_name_len = 0, tn_kind = Dir, tn_flags = FLAG_SYNTHETIC,
                  tn_parent = 0, tn_meta = NO_META \<rparr>],
     b_names = [], b_metas = [], b_intern = with_capacity hint,
     b_memo_path = [], b_memo_id = 0, b_symlink_count = 0, b_stats = stats_default,
     b_dup_warner = 0, b_reject_warner = 0 \<rparr>"

section \<open>Operations\<close>

definition intern_name :: "'w builder \<Rightarrow> nat \<Rightarrow> bytes \<Rightarrow> ('w builder \<times> nat \<times> bool) result" where
  "intern_name b p name =
     rbind (find (b_intern b) (b_nodes b) (b_names b) p name) (\<lambda>found.
       case found of
         Some nid \<Rightarrow> Ok (b, nid, False)
       | None \<Rightarrow>
         rbind (ok_or (IndexTooLarge ''name blob'') (try_u32 (length (b_names b)))) (\<lambda>off.
         let nms = b_names b @ name in
         rbind (ok_or (IndexTooLarge ''node count'') (try_u32 (length (b_nodes b)))) (\<lambda>nid.
         rbind (ok_or (IndexTooLarge ''path component length'') (try_u16 (length name))) (\<lambda>len.
         let nds = b_nodes b @ [\<lparr> tn_name_off = off, tn_name_len = len, tn_kind = Dir,
                                   tn_flags = FLAG_SYNTHETIC, tn_parent = p, tn_meta = NO_META \<rparr>] in
         rbind (insert_node (b_intern b) nds nms nid) (\<lambda>t.
         Ok (b\<lparr>b_nodes := nds, b_names := nms, b_intern := t\<rparr>, nid, True))))))"

definition count_duplicate :: "build_stats \<Rightarrow> build_stats" where
  "count_duplicate s = s\<lparr>st_duplicates := st_duplicates s + 1\<rparr>"

definition count_synthetic :: "build_stats \<Rightarrow> build_stats" where
  "count_synthetic s = s\<lparr>st_synthetic_dirs := st_synthetic_dirs s + 1\<rparr>"

definition take_over_as_dir :: "'w builder \<Rightarrow> nat \<Rightarrow> 'w builder result" where
  "take_over_as_dir b nid =
     (let warner = snd (allow (b_dup_warner b)) in
      rbind (at (b_nodes b) nid) (\<lambda>n.
        Ok (b\<lparr>b_dup_warner := warner,
              b_nodes := (b_nodes b)[nid := n\<lparr>tn_kind := Dir, tn_flags := tn_flags n OR FLAG_SYNTHETIC,
                                              tn_meta := NO_META\<rparr>],
              b_stats := count_synthetic (count_duplicate (b_stats b))\<rparr>)))"

text \<open>The body of the loop in \<open>resolve_parent\<close>; the state is the builder and \<open>cur\<close>.\<close>

definition resolve_step :: "bytes \<Rightarrow> 'w builder \<times> nat \<Rightarrow> ('w builder \<times> nat) result" where
  "resolve_step c = (\<lambda>(b, cur).
     rbind (intern_name b cur c) (\<lambda>(b, nid, fresh).
       if fresh then Ok (b\<lparr>b_stats := count_synthetic (b_stats b)\<rparr>, nid)
       else rbind (at (b_nodes b) nid) (\<lambda>n.
         if tn_kind n \<noteq> Dir then rbind (take_over_as_dir b nid) (\<lambda>b. Ok (b, nid))
         else Ok (b, nid))))"

definition resolve_parent :: "'w builder \<Rightarrow> bytes \<Rightarrow> ('w builder \<times> nat) result" where
  "resolve_parent b parent_path =
     (if parent_path = b_memo_path b then Ok (b, b_memo_id b)
      else rbind (for_each resolve_step (components parent_path) (b, 0)) (\<lambda>(b, cur).
        Ok (b\<lparr>b_memo_path := parent_path, b_memo_id := cur\<rparr>, cur)))"

definition reject :: "'w builder \<Rightarrow> 'w builder" where
  "reject b = b\<lparr>b_reject_warner := snd (allow (b_reject_warner b)),
     b_stats := (b_stats b)\<lparr>st_rejected_paths := st_rejected_paths (b_stats b) + 1\<rparr>\<rparr>"

definition reject_size :: "'w builder \<Rightarrow> 'w builder" where
  "reject_size b = b\<lparr>b_reject_warner := snd (allow (b_reject_warner b)),
     b_stats := (b_stats b)\<lparr>st_rejected_sizes := st_rejected_sizes (b_stats b) + 1\<rparr>\<rparr>"

definition duplicate :: "'w builder \<Rightarrow> 'w builder" where
  "duplicate b = b\<lparr>b_dup_warner := snd (allow (b_dup_warner b)),
     b_stats := count_duplicate (b_stats b)\<rparr>"

text \<open>The two size checks of \<open>add\<close>.\<close>

definition stored_sizes_differ :: "ext_consts \<Rightarrow> 'w entry_meta \<Rightarrow> bool" where
  "stored_sizes_differ xc m \<longleftrightarrow>
     \<not> encrypted m \<and> method_raw m = xc_store xc \<and> compressed_size m \<noteq> uncompressed_size m"

definition compressed_size_zero :: "'w entry_meta \<Rightarrow> bool" where
  "compressed_size_zero m \<longleftrightarrow> 0 < uncompressed_size m \<and> compressed_size m = 0"

definition entry_kind :: "ext_consts \<Rightarrow> bool \<Rightarrow> 'w entry_meta \<Rightarrow> node_kind" where
  "entry_kind xc is_dir m =
     (if is_dir then Dir else if is_symlink_mode xc (mode m) then Symlink else File)"

text \<open>The end of \<open>add\<close>: count the entry, push its metadata, claim the node.\<close>

definition count_entry :: "ext_consts \<Rightarrow> 'w entry_meta \<Rightarrow> build_stats \<Rightarrow> build_stats" where
  "count_entry xc m s =
     (let s = s\<lparr>st_entries := st_entries s + 1\<rparr>
      in if encrypted m then s\<lparr>st_encrypted := st_encrypted s + 1\<rparr>
         else if entry_method xc m = None then s\<lparr>st_unsupported := st_unsupported s + 1\<rparr>
         else s)"

definition claim :: "ext_consts \<Rightarrow> 'w builder \<Rightarrow> nat \<Rightarrow> node_kind \<Rightarrow> 'w entry_meta \<Rightarrow> 'w builder result" where
  "claim xc b nid k m =
     (let b = b\<lparr>b_stats := count_entry xc m (b_stats b)\<rparr> in
      rbind
        (if k = Symlink then
           rbind (ok_or (IndexTooLarge ''symlink count'') (checked_add_u32 (b_symlink_count b) 1))
             (\<lambda>n. Ok (b\<lparr>b_symlink_count := n,
                        b_stats := (b_stats b)\<lparr>st_symlinks := st_symlinks (b_stats b) + 1\<rparr>\<rparr>,
                      m\<lparr>symlink_slot := b_symlink_count b\<rparr>))
         else Ok (b, m))
        (\<lambda>(b, m).
      rbind (ok_or (IndexTooLarge ''metadata count'') (try_u32 (length (b_metas b)))) (\<lambda>meta_idx.
      let b = b\<lparr>b_metas := b_metas b @ [m]\<rparr> in
      rbind (at (b_nodes b) nid) (\<lambda>n.
      Ok (b\<lparr>b_nodes := (b_nodes b)[nid := n\<lparr>tn_kind := k,
              tn_flags := tn_flags n AND NOT FLAG_SYNTHETIC, tn_meta := meta_idx\<rparr>]\<rparr>)))))"

definition add_entry :: "ext_consts \<Rightarrow> 'w builder \<Rightarrow> bytes \<Rightarrow> bool \<Rightarrow> 'w entry_meta \<Rightarrow> 'w builder result" where
  "add_entry xc b path is_dir m =
     (if reject_reason path \<noteq> None then Ok (reject b)
      else if stored_sizes_differ xc m then Ok (reject_size b)
      else if compressed_size_zero m then Ok (reject_size b)
      else
        let (parent_path, leaf) = split_parent (normalize_path path) in
        rbind (resolve_parent b parent_path) (\<lambda>(b, p).
        rbind (intern_name b p leaf) (\<lambda>(b, nid, fresh).
        let k = entry_kind xc is_dir m in
        if fresh then claim xc b nid k m
        else rbind (at (b_nodes b) nid) (\<lambda>existing.
          if tn_kind existing = Dir \<and> k \<noteq> Dir then Ok (duplicate b)
          else if \<not> synthetic (tn_flags existing) then Ok (duplicate b)
          else if k \<noteq> Dir then Ok (b\<lparr>b_stats := count_duplicate (b_stats b)\<rparr>)
          else claim xc
            (b\<lparr>b_stats := (b_stats b)\<lparr>st_synthetic_dirs :=
               (if st_synthetic_dirs (b_stats b) = 0 then u64_max
                else st_synthetic_dirs (b_stats b) - 1)\<rparr>\<rparr>) nid k m))))"

section \<open>The loop of \<open>build\<close>\<close>

text \<open>One central directory record, by what \<open>rawzip\<close>'s accessors return.\<close>

record 'w zip_record =
  zr_path :: bytes
  zr_is_dir :: bool
  zr_mode :: u32
  zr_modified :: zip_datetime
  zr_wayfinder :: 'w
  zr_uncompressed_size_hint :: nat
  zr_compressed_size_hint :: nat
  zr_crc32 :: u32
  zr_method :: nat
  zr_encrypted :: bool

definition record_meta :: "'w zip_record \<Rightarrow> 'w entry_meta" where
  "record_meta r =
     (let (sec, nanos) = to_unix (zr_modified r) in
      \<lparr> wayfinder = zr_wayfinder r, uncompressed_size = zr_uncompressed_size_hint r,
        compressed_size = zr_compressed_size_hint r, mtime_sec = sec, mtime_nsec = nanos,
        crc32 = zr_crc32 r, method_raw = zr_method r, mode = ucast (zr_mode r AND 0xffff),
        encrypted = zr_encrypted r, data_start = u64_max, verify_state = VERIFY_UNKNOWN,
        symlink_slot = 0 \<rparr>)"

text \<open>The iterator yields records, or fails once.\<close>

fun add_records :: "ext_consts \<Rightarrow> (zip_error + 'w zip_record) list \<Rightarrow> 'w builder \<Rightarrow> 'w builder result" where
  "add_records xc [] b = Ok b"
| "add_records xc (Inl e # rs) b = Err (Zip e)"
| "add_records xc (Inr r # rs) b =
     rbind (add_entry xc b (zr_path r) (zr_is_dir r) (record_meta r)) (add_records xc rs)"

end
