(* ===== verification/Finish.thy ===== *)
theory Finish
  imports Builder
begin

text \<open>
  The second pass of \<^verbatim>\<open>src/index/build.rs\<close>: \<open>group_children\<close> (a counting sort of the nodes by
  parent, then a sort of each group by name), \<open>breadth_first_order\<close>, \<open>finish\<close> and \<open>build\<close>.
  A \<open>for\<close> loop is a fold with early exit over the values it ranges over; each loop body is a
  definition of its own.
\<close>

section \<open>Grouping children\<close>

text \<open>The first loop: count the children of each node, one place to the right.\<close>

definition count_child :: "nat \<times> tmp_node \<Rightarrow> nat list \<Rightarrow> nat list result" where
  "count_child = (\<lambda>(i, n) counts.
     if i \<noteq> 0 then
       rbind (at counts (tn_parent n + 1)) (\<lambda>c.
       rbind (ok_or (IndexTooLarge ''child count'') (checked_add_u32 c 1)) (\<lambda>c.
       set_at counts (tn_parent n + 1) c))
     else Ok counts)"

text \<open>The second loop: prefix sums.\<close>

definition add_previous :: "nat \<Rightarrow> nat list \<Rightarrow> nat list result" where
  "add_previous i counts =
     rbind (at counts (i + 1)) (\<lambda>a. rbind (at counts i) (\<lambda>b.
     rbind (ok_or (IndexTooLarge ''node count'') (checked_add_u32 a b)) (\<lambda>c.
     set_at counts (i + 1) c)))"

text \<open>The third loop: put each node at the cursor of its parent.\<close>

definition place_kid :: "nat \<times> tmp_node \<Rightarrow> nat list \<times> nat list \<Rightarrow> (nat list \<times> nat list) result" where
  "place_kid = (\<lambda>(i, n) (cursor, kids).
     rbind (at cursor (tn_parent n)) (\<lambda>slot.
     rbind (ok_or (IndexTooLarge ''node count'') (try_u32 i)) (\<lambda>v.
     rbind (set_at kids slot v) (\<lambda>kids.
     rbind (ok_or (IndexTooLarge ''child count'') (checked_add_u32 slot 1)) (\<lambda>slot.
     rbind (set_at cursor (tn_parent n) slot) (\<lambda>cursor. Ok (cursor, kids)))))))"

text \<open>
  \<open>sort_unstable_by\<close> on the names. The comparison is called, on every element, as soon as there
  are two; elements with equal names may end in any order, siblings never have equal names.
\<close>

definition sort_by_name :: "tmp_node list \<Rightarrow> bytes \<Rightarrow> nat list \<Rightarrow> nat list result" where
  "sort_by_name tmp nms ks =
     (if length ks < 2 then Ok ks
      else if list_all (\<lambda>k. k < length tmp \<and> tn_name_off (tmp ! k) + tn_name_len (tmp ! k) \<le> length nms) ks
      then Ok (sort_key (\<lambda>k. take (tn_name_len (tmp ! k)) (drop (tn_name_off (tmp ! k)) nms)) ks)
      else Panic)"

text \<open>The fourth loop.\<close>

definition sort_group :: "tmp_node list \<Rightarrow> bytes \<Rightarrow> nat list \<Rightarrow> nat \<Rightarrow> nat list \<Rightarrow> nat list result" where
  "sort_group tmp nms starts i kids =
     rbind (at starts i) (\<lambda>lo. rbind (at starts (i + 1)) (\<lambda>hi.
     rbind (sub_slice kids lo hi) (\<lambda>ks. rbind (sort_by_name tmp nms ks) (\<lambda>ks.
     Ok (take lo kids @ ks @ drop hi kids)))))"

definition group_children :: "tmp_node list \<Rightarrow> bytes \<Rightarrow> (nat list \<times> nat list) result" where
  "group_children tmp nms =
     (let n = length tmp in
      rbind (for_each count_child (enumerate 0 tmp) (replicate (n + 1) 0)) (\<lambda>counts.
      rbind (for_each add_previous [0..<n] counts) (\<lambda>starts.
      rbind (for_each place_kid (drop 1 (enumerate 0 tmp)) (starts, replicate (n - 1) 0)) (\<lambda>(cursor, kids).
      rbind (for_each (sort_group tmp nms starts) [0..<n] kids) (\<lambda>kids.
      Ok (starts, kids))))))"

section \<open>Breadth-first order\<close>

text \<open>The inner loop: number the child and queue it.\<close>

definition queue_kid :: "nat \<Rightarrow> nat list \<times> nat list \<Rightarrow> (nat list \<times> nat list) result" where
  "queue_kid k = (\<lambda>(order, final_of).
     rbind (ok_or (IndexTooLarge ''node count'') (try_u32 (length order + 1))) (\<lambda>v.
     rbind (set_at final_of k v) (\<lambda>final_of. Ok (order @ [k], final_of))))"

text \<open>
  The outer loop. It ends because an iteration goes on only while \<open>order.len() + 1\<close> fits 32 bits,
  and \<open>i\<close> stays below \<open>order.len()\<close>.
\<close>

function bfs_loop ::
  "nat list \<Rightarrow> nat list \<Rightarrow> nat \<Rightarrow> nat list \<Rightarrow> nat list \<Rightarrow> nat list \<Rightarrow> (nat list \<times> nat list \<times> nat list) result" where
  "bfs_loop starts kids i order fc final_of =
     (if i < length order then
        let t = order ! i in
        rbind (at starts t) (\<lambda>lo. rbind (at starts (t + 1)) (\<lambda>hi.
        rbind (ok_or (IndexTooLarge ''node count'') (try_u32 (length order + 1))) (\<lambda>v.
        rbind (set_at fc t v) (\<lambda>fc.
        rbind (sub_slice kids lo hi) (\<lambda>ks.
        rbind (for_each queue_kid ks (order, final_of)) (\<lambda>(order, final_of).
        bfs_loop starts kids (i + 1) order fc final_of))))))
      else Ok (order, fc, final_of))"
  by pat_completeness auto
termination
  by (relation "measure (\<lambda>(starts, kids, i, order, fc, final_of). u32_max - i)") auto

declare bfs_loop.simps [simp del]

definition breadth_first_order ::
  "tmp_node list \<Rightarrow> nat list \<Rightarrow> nat list \<Rightarrow> (nat list \<times> nat list \<times> nat list) result" where
  "breadth_first_order tmp starts kids =
     rbind (set_at (replicate (length tmp) 0) 0 1) (\<lambda>final_of.
     bfs_loop starts kids 0 [0] (replicate (length tmp) 0) final_of)"

section \<open>The finished index\<close>

definition dead_node :: node where
  "dead_node = \<lparr> name_off = 0, name_len = 0, kind = Dir, flags = FLAG_SYNTHETIC, parent = 1,
     first_child = 0, child_len = 0, subdir_count = 0, meta_idx = NO_META \<rparr>"

text \<open>The loop of \<open>finish\<close>: the final node of \<open>tid\<close> and the running total.\<close>

definition final_node ::
  "tmp_node list \<Rightarrow> 'w entry_meta list \<Rightarrow> nat list \<Rightarrow> nat list \<Rightarrow> nat list \<Rightarrow> nat list \<Rightarrow> nat
     \<Rightarrow> node list \<times> nat \<Rightarrow> (node list \<times> nat) result" where
  "final_node tmp mts starts kids fc final_of tid = (\<lambda>(acc, tot).
     rbind (at tmp tid) (\<lambda>t.
     rbind (at starts tid) (\<lambda>lo. rbind (at starts (tid + 1)) (\<lambda>hi.
     rbind (sub_slice kids lo hi) (\<lambda>ks.
     rbind (if list_all (\<lambda>k. k < length tmp) ks
            then Ok (length (filter (\<lambda>k. tn_kind (tmp ! k) = Dir) ks)) else Panic) (\<lambda>subdirs.
     rbind (ok_or (IndexTooLarge ''subdirectory count'') (try_u32 subdirs)) (\<lambda>subdirs.
     rbind (if tn_meta t \<noteq> NO_META
            then rbind (at mts (tn_meta t)) (\<lambda>m. Ok (saturating_add_u64 tot (uncompressed_size m)))
            else Ok tot) (\<lambda>tot.
     rbind (if tid = 0 then Ok 1 else at final_of (tn_parent t)) (\<lambda>par.
     rbind (at fc tid) (\<lambda>first.
     rbind (ok_or (IndexTooLarge ''child count'') (try_u32 (hi - lo))) (\<lambda>len.
     Ok (acc @ [\<lparr> name_off = tn_name_off t, name_len = tn_name_len t, kind = tn_kind t,
           flags = tn_flags t, parent = par, first_child = first, child_len = len,
           subdir_count = subdirs, meta_idx = tn_meta t \<rparr>], tot))))))))))))"

definition finish :: "'w builder \<Rightarrow> 'w index result" where
  "finish b =
     rbind (group_children (b_nodes b) (b_names b)) (\<lambda>(starts, kids).
     rbind (breadth_first_order (b_nodes b) starts kids) (\<lambda>(order, fc, final_of).
     rbind (for_each (final_node (b_nodes b) (b_metas b) starts kids fc final_of) order ([dead_node], 0))
       (\<lambda>(nds, tot).
     Ok \<lparr> nodes = nds, metas = b_metas b, names = b_names b,
          symlinks = replicate (b_symlink_count b) None, total_uncompressed = tot \<rparr>)))"

text \<open>
  \<open>build\<close>: \<open>entries_hint\<close> is the entry count the archive declares, and the records are what the
  iterator over the central directory yields. The difference between the two counts is only
  logged.
\<close>

definition build :: "ext_consts \<Rightarrow> nat \<Rightarrow> (zip_error + 'w zip_record) list \<Rightarrow> ('w index \<times> build_stats) result" where
  "build xc entries_hint records =
     rbind (add_records xc records (builder_new (min entries_hint MAX_PREALLOC))) (\<lambda>b.
     let stats = b_stats b in
     rbind (finish (b\<lparr>b_stats := stats_default\<rparr>)) (\<lambda>idx.
     Ok (idx, stats\<lparr>st_synthetic_dirs := length (filter (\<lambda>n. synthetic (flags n)) (drop 2 (nodes idx)))\<rparr>)))"

end
