(* ===== verification/Builder_Tree.thy ===== *)
theory Builder_Tree
  imports Builder
begin

text \<open>
  The tree of a builder as a map from paths to what is there, and how the two changes a builder
  makes (a new node, a changed node) act on it. A path is a list of components; the walk follows
  the keys of the nodes from the root.
\<close>

section \<open>Walks\<close>

definition tmp_child :: "tmp_node list \<Rightarrow> bytes \<Rightarrow> nat \<Rightarrow> bytes \<Rightarrow> nat option" where
  "tmp_child nds nms p c = List.find (\<lambda>i. node_key nds nms i = (p, c)) [1..<length nds]"

fun tmp_walk :: "tmp_node list \<Rightarrow> bytes \<Rightarrow> nat \<Rightarrow> bytes list \<Rightarrow> nat option" where
  "tmp_walk nds nms cur [] = Some cur"
| "tmp_walk nds nms cur (c # cs) =
     (case tmp_child nds nms cur c of None \<Rightarrow> None | Some i \<Rightarrow> tmp_walk nds nms i cs)"

definition tree_inv :: "tmp_node list \<Rightarrow> bytes \<Rightarrow> bool" where
  "tree_inv nds nms \<longleftrightarrow> nds \<noteq> [] \<and> keys_distinct nds nms
     \<and> (\<forall>i < length nds. 0 < i \<longrightarrow> tn_parent (nds ! i) < i \<and> name_ok nms (nds ! i))"

lemma tmp_child_None:
  "tmp_child nds nms p c = None \<longleftrightarrow> (\<forall>i. 0 < i \<and> i < length nds \<longrightarrow> node_key nds nms i \<noteq> (p, c))"
  by (auto simp: tmp_child_def find_None_iff)

lemma tmp_child_Some:
  "keys_distinct nds nms \<Longrightarrow>
     tmp_child nds nms p c = Some i \<longleftrightarrow> 0 < i \<and> i < length nds \<and> node_key nds nms i = (p, c)"
proof -
  assume kd: "keys_distinct nds nms"
  have uniq: "i = j" if "0 < i" "i < length nds" "0 < j" "j < length nds"
      "node_key nds nms i = node_key nds nms j" for i j
    using kd that unfolding keys_distinct_def inj_on_def by (metis One_nat_def Suc_leI atLeastLessThan_iff)
  have sound: "0 < i \<and> i < length nds \<and> node_key nds nms i = (p, c)" if "tmp_child nds nms p c = Some i" for i
    using that by (auto simp: tmp_child_def find_Some_iff)
  show ?thesis
  proof (cases "tmp_child nds nms p c")
    case None
    then have "\<not> (0 < i \<and> i < length nds \<and> node_key nds nms i = (p, c))" unfolding tmp_child_None by blast
    with None show ?thesis by simp
  next
    case (Some j)
    with sound [OF this] show ?thesis using uniq by auto
  qed
qed

lemma tmp_walk_append:
  "tmp_walk nds nms cur (q @ r) =
     (case tmp_walk nds nms cur q of None \<Rightarrow> None | Some i \<Rightarrow> tmp_walk nds nms i r)"
  by (induction q arbitrary: cur) (auto split: option.splits)

lemma tmp_walk_snoc:
  "tmp_walk nds nms cur (q @ [c]) =
     (case tmp_walk nds nms cur q of None \<Rightarrow> None | Some i \<Rightarrow> tmp_child nds nms i c)"
  by (auto simp: tmp_walk_append split: option.splits)

lemma tmp_walk_in_range:
  "tree_inv nds nms \<Longrightarrow> tmp_walk nds nms 0 q = Some i \<Longrightarrow> i < length nds"
  by (cases q rule: rev_cases) (auto simp: tmp_walk_snoc tmp_child_Some tree_inv_def split: option.splits)

lemma tmp_walk_last:
  assumes "tree_inv nds nms" and "tmp_walk nds nms 0 (q @ [c]) = Some i"
  shows "0 < i" and "i < length nds" and "tmp_walk nds nms 0 q = Some (tn_parent (nds ! i))"
    and "tmp_name nms (nds ! i) = c"
  using assms by (auto simp: tmp_walk_snoc tmp_child_Some tree_inv_def node_key_def split: option.splits)

lemma tmp_walk_inj:
  assumes "tree_inv nds nms"
  shows "tmp_walk nds nms 0 q = Some i \<Longrightarrow> tmp_walk nds nms 0 r = Some i \<Longrightarrow> q = r"
proof (induction q arbitrary: i r rule: rev_induct)
  case Nil
  then have "i = 0" by simp
  with Nil show ?case using tmp_walk_last(1) [OF assms, of _ _ i] by (cases r rule: rev_cases) auto
next
  case (snoc c q)
  note l = tmp_walk_last [OF assms snoc.prems(1)]
  from l(1) snoc.prems obtain r' c' where r: "r = r' @ [c']" by (cases r rule: rev_cases) auto
  note l' = tmp_walk_last [OF assms snoc.prems(2) [unfolded r]]
  from snoc.IH [OF l(3) l'(3)] l(4) l'(4) r show ?case by simp
qed

lemma tmp_walk_reaches:
  assumes "tree_inv nds nms"
  shows "i < length nds \<Longrightarrow> \<exists>q. tmp_walk nds nms 0 q = Some i"
proof (induction i rule: less_induct)
  case (less i)
  show ?case
  proof (cases "i = 0")
    case True
    then show ?thesis by (intro exI [of _ "[]"]) simp
  next
    case False
    with assms less.prems have "tn_parent (nds ! i) < i" by (auto simp: tree_inv_def)
    with less obtain q where q: "tmp_walk nds nms 0 q = Some (tn_parent (nds ! i))"
      by (meson less_trans)
    have "tmp_child nds nms (tn_parent (nds ! i)) (tmp_name nms (nds ! i)) = Some i"
      using assms False less.prems by (simp add: tmp_child_Some tree_inv_def node_key_def)
    with q have "tmp_walk nds nms 0 (q @ [tmp_name nms (nds ! i)]) = Some i"
      by (simp add: tmp_walk_snoc)
    then show ?thesis by blast
  qed
qed

text \<open>Walks depend on the keys only.\<close>

lemma node_key_same: "same_keys nds nds' \<Longrightarrow> i < length nds \<Longrightarrow> node_key nds' nms i = node_key nds nms i"
  by (simp add: same_keys_def node_key_def tmp_name_def)

lemma tmp_child_same: "same_keys nds nds' \<Longrightarrow> tmp_child nds' nms p c = tmp_child nds nms p c"
  unfolding tmp_child_def by (rule find_cong) (auto simp: node_key_same, simp add: same_keys_def)

lemma tmp_walk_same: "same_keys nds nds' \<Longrightarrow> tmp_walk nds' nms cur q = tmp_walk nds nms cur q"
  by (induction q arbitrary: cur) (auto simp: tmp_child_same split: option.splits)

lemma tree_inv_same:
  assumes "same_keys nds nds'" and "tree_inv nds nms"
  shows "tree_inv nds' nms"
proof -
  have len: "length nds' = length nds" using assms by (simp add: same_keys_def)
  have "inj_on (node_key nds' nms) {1..<length nds'} \<longleftrightarrow> inj_on (node_key nds nms) {1..<length nds}"
    unfolding len by (rule inj_on_cong) (simp add: node_key_same [OF assms(1)])
  with assms len show ?thesis
    by (auto simp: tree_inv_def keys_distinct_def same_keys_def name_ok_def)
qed

lemma same_keys_update:
  assumes "nid < length nds" and "tn_parent n = tn_parent (nds ! nid)"
    and "tn_name_off n = tn_name_off (nds ! nid)" and "tn_name_len n = tn_name_len (nds ! nid)"
  shows "same_keys nds (nds[nid := n])"
  using assms by (auto simp: same_keys_def nth_list_update)

section \<open>A new node\<close>

lemma find_append_conv:
  "List.find P (xs @ ys) = (case List.find P xs of None \<Rightarrow> List.find P ys | Some x \<Rightarrow> Some x)"
  by (induction xs) auto

lemma node_key_append:
  "i < length nds \<Longrightarrow> name_ok nms (nds ! i) \<Longrightarrow> node_key (nds @ [n]) (nms @ ext) i = node_key nds nms i"
  by (simp add: node_key_def nth_append)

lemma tree_inv_append:
  assumes "tree_inv nds nms" and "tn_parent n < length nds" and "name_ok (nms @ ext) n"
    and new: "tmp_child nds nms (tn_parent n) (tmp_name (nms @ ext) n) = None"
  shows "tree_inv (nds @ [n]) (nms @ ext)"
proof -
  have key: "node_key (nds @ [n]) (nms @ ext) i = node_key nds nms i" if "i \<in> {1..<length nds}" for i
    using assms(1) that by (intro node_key_append) (auto simp: tree_inv_def)
  have "inj_on (node_key (nds @ [n]) (nms @ ext)) {1..<length nds}"
    using assms(1) key by (simp add: tree_inv_def keys_distinct_def inj_on_def)
  moreover have "node_key (nds @ [n]) (nms @ ext) (length nds) \<notin> node_key (nds @ [n]) (nms @ ext) ` {1..<length nds}"
  proof
    assume "node_key (nds @ [n]) (nms @ ext) (length nds) \<in> node_key (nds @ [n]) (nms @ ext) ` {1..<length nds}"
    then obtain x where x: "x \<in> {1..<length nds}"
      and "(tn_parent n, tmp_name (nms @ ext) n) = node_key nds nms x"
      using key by (auto simp: node_key_def [of "nds @ [n]" _ "length nds"])
    with new show False unfolding tmp_child_None by (metis One_nat_def Suc_le_lessD atLeastLessThan_iff)
  qed
  moreover have "{1..<length (nds @ [n])} = insert (length nds) {1..<length nds}"
    using assms(1) by (cases nds) (auto simp: tree_inv_def)
  ultimately have "keys_distinct (nds @ [n]) (nms @ ext)"
    unfolding keys_distinct_def by (simp del: length_append add: inj_on_insert)
  then show ?thesis using assms by (auto simp: tree_inv_def nth_append name_ok_append less_Suc_eq)
qed

lemma tmp_child_append:
  assumes "tree_inv nds nms" and "tn_parent n < length nds" and "name_ok (nms @ ext) n"
    and new: "tmp_child nds nms (tn_parent n) (tmp_name (nms @ ext) n) = None"
  shows "tmp_child (nds @ [n]) (nms @ ext) p c =
    (if (p, c) = (tn_parent n, tmp_name (nms @ ext) n) then Some (length nds)
     else tmp_child nds nms p c)"
proof -
  have key: "node_key (nds @ [n]) (nms @ ext) i = node_key nds nms i" if "i \<in> {1..<length nds}" for i
    using assms(1) that by (intro node_key_append) (auto simp: tree_inv_def)
  have last: "node_key (nds @ [n]) (nms @ ext) (length nds) = (tn_parent n, tmp_name (nms @ ext) n)"
    by (simp add: node_key_def)
  have "List.find (\<lambda>i. node_key (nds @ [n]) (nms @ ext) i = (p, c)) [1..<length nds] = tmp_child nds nms p c"
    unfolding tmp_child_def by (rule find_cong) (auto simp: key)
  moreover have "[1..<length (nds @ [n])] = [1..<length nds] @ [length nds]"
    using assms(1) by (cases nds) (auto simp: tree_inv_def)
  ultimately show ?thesis
    using new last by (auto simp: tmp_child_def [of "nds @ [n]"] find_append_conv split: option.splits simp del: length_append)
qed

lemma tmp_child_above:
  "tree_inv nds nms \<Longrightarrow> length nds \<le> p + 1 \<Longrightarrow> tmp_child nds nms p c = None"
  by (fastforce simp: tmp_child_None tree_inv_def node_key_def)

lemma tmp_walk_append_node:
  assumes "tree_inv nds nms" and "tn_parent n < length nds" and "name_ok (nms @ ext) n"
    and nm: "nm = tmp_name (nms @ ext) n"
    and new: "tmp_child nds nms (tn_parent n) nm = None"
    and pre: "tmp_walk nds nms 0 pre = Some (tn_parent n)"
  shows "tmp_walk (nds @ [n]) (nms @ ext) 0 q =
    (if q = pre @ [nm] then Some (length nds) else tmp_walk nds nms 0 q)"
proof (induction q rule: rev_induct)
  case (snoc c q)
  note child = tmp_child_append [OF assms(1-3) new [unfolded nm], folded nm]
  show ?case
  proof (cases "q = pre @ [nm]")
    case True
    with pre new have "tmp_walk nds nms 0 q = None" by (simp add: tmp_walk_snoc)
    moreover have "tmp_walk (nds @ [n]) (nms @ ext) 0 q = Some (length nds)" using snoc.IH True by metis
    moreover have "q @ [c] \<noteq> pre @ [nm]" using True by simp
    ultimately show ?thesis using assms(2)
      by (simp add: tmp_walk_snoc [of _ _ _ q c] child tmp_child_above [OF assms(1)])
  next
    case False
    then have walk: "tmp_walk (nds @ [n]) (nms @ ext) 0 q = tmp_walk nds nms 0 q" using snoc.IH by simp
    show ?thesis
    proof (cases "tmp_walk nds nms 0 q")
      case None
      with walk pre show ?thesis by (auto simp: tmp_walk_snoc)
    next
      case (Some i)
      then have "i = tn_parent n \<longleftrightarrow> q = pre" using tmp_walk_inj [OF assms(1)] pre by auto
      with Some walk show ?thesis by (simp add: tmp_walk_snoc child)
    qed
  qed
qed simp

section \<open>What is at a path\<close>

text \<open>
  The kind, and the entry that declared the node, if one did. The slot of a symlink is an
  internal number and is left out.
\<close>

type_synonym 'w tree_spec = "bytes list \<rightharpoonup> node_kind \<times> 'w entry_meta option"

definition node_info :: "'w entry_meta list \<Rightarrow> tmp_node \<Rightarrow> node_kind \<times> 'w entry_meta option" where
  "node_info mts n =
     (tn_kind n, if synthetic (tn_flags n) then None else Some ((mts ! tn_meta n)\<lparr>symlink_slot := 0\<rparr>))"

definition tmp_view :: "tmp_node list \<Rightarrow> bytes \<Rightarrow> 'w entry_meta list \<Rightarrow> 'w tree_spec" where
  "tmp_view nds nms mts q = map_option (\<lambda>i. node_info mts (nds ! i)) (tmp_walk nds nms 0 q)"

lemma tmp_view_append_node:
  assumes "tree_inv nds nms" and "tn_parent n < length nds" and "name_ok (nms @ ext) n"
    and "nm = tmp_name (nms @ ext) n" and "tmp_child nds nms (tn_parent n) nm = None"
    and "tmp_walk nds nms 0 pre = Some (tn_parent n)"
  shows "tmp_view (nds @ [n]) (nms @ ext) mts = (tmp_view nds nms mts)(pre @ [nm] \<mapsto> node_info mts n)"
proof
  fix q
  have "i < length nds" if "tmp_walk nds nms 0 q = Some i" for i
    using tmp_walk_in_range [OF assms(1) that] .
  then show "tmp_view (nds @ [n]) (nms @ ext) mts q
      = ((tmp_view nds nms mts)(pre @ [nm] \<mapsto> node_info mts n)) q"
    unfolding tmp_view_def tmp_walk_append_node [OF assms]
    by (cases "tmp_walk nds nms 0 q") (auto simp: nth_append)
qed

lemma tmp_view_update_node:
  assumes "tree_inv nds nms" and "tmp_walk nds nms 0 p = Some nid"
    and "tn_parent n = tn_parent (nds ! nid)"
    and "tn_name_off n = tn_name_off (nds ! nid)" and "tn_name_len n = tn_name_len (nds ! nid)"
  shows "tmp_view (nds[nid := n]) nms mts = (tmp_view nds nms mts)(p \<mapsto> node_info mts n)"
proof
  fix q
  have nid: "nid < length nds" using tmp_walk_in_range assms by blast
  note walk = tmp_walk_same [OF same_keys_update [OF nid assms(3-5)], of nms]
  show "tmp_view (nds[nid := n]) nms mts q = ((tmp_view nds nms mts)(p \<mapsto> node_info mts n)) q"
  proof (cases "tmp_walk nds nms 0 q = Some nid")
    case True
    with assms(1,2) have "q = p" by (blast dest: tmp_walk_inj)
    with True nid show ?thesis by (simp add: tmp_view_def walk)
  next
    case False
    with assms(2) have "q \<noteq> p" by auto
    with False show ?thesis
      by (cases "tmp_walk nds nms 0 q") (auto simp: tmp_view_def walk)
  qed
qed

lemma tmp_view_append_meta:
  assumes "tree_inv nds nms"
    and "\<And>i. i < length nds \<Longrightarrow> \<not> synthetic (tn_flags (nds ! i)) \<Longrightarrow> tn_meta (nds ! i) < length mts"
  shows "tmp_view nds nms (mts @ [m]) = tmp_view nds nms mts"
proof
  fix q
  show "tmp_view nds nms (mts @ [m]) q = tmp_view nds nms mts q"
    using assms tmp_walk_in_range [OF assms(1), of q]
    by (cases "tmp_walk nds nms 0 q") (auto simp: tmp_view_def node_info_def nth_append)
qed

end
