(* ===== verification/Group_Correct.thy ===== *)
theory Group_Correct
  imports Finish Builder_Tree
begin

text \<open>
  \<open>group_children\<close> returns, for every node, the list of its children sorted by name: the counting
  sort puts the children of \<open>p\<close> in the slice from \<open>starts[p]\<close> to \<open>starts[p + 1]\<close>.
\<close>

definition kids_upto :: "tmp_node list \<Rightarrow> nat \<Rightarrow> nat \<Rightarrow> nat list" where
  "kids_upto nds m p = filter (\<lambda>k. tn_parent (nds ! k) = p) [1..<m]"

abbreviation kids_of :: "tmp_node list \<Rightarrow> nat \<Rightarrow> nat list" where
  "kids_of nds p \<equiv> kids_upto nds (length nds) p"

definition sorted_kids :: "tmp_node list \<Rightarrow> bytes \<Rightarrow> nat \<Rightarrow> nat list" where
  "sorted_kids nds nms p = sort_key (\<lambda>k. tmp_name nms (nds ! k)) (kids_of nds p)"

definition kid_start :: "tmp_node list \<Rightarrow> nat \<Rightarrow> nat" where
  "kid_start nds p = length (filter (\<lambda>k. tn_parent (nds ! k) < p) [1..<length nds])"

section \<open>Offsets\<close>

lemma kids_upto_Suc:
  "kids_upto nds (Suc m) p = kids_upto nds m p @ (if 0 < m \<and> tn_parent (nds ! m) = p then [m] else [])"
  by (auto simp: kids_upto_def)

lemma kids_upto_less: "k \<in> set (kids_upto nds m p) \<Longrightarrow> 0 < k \<and> k < m \<and> tn_parent (nds ! k) = p"
  by (auto simp: kids_upto_def)

lemma kid_start_Suc: "kid_start nds (Suc p) = kid_start nds p + length (kids_of nds p)"
proof -
  have "length (filter (\<lambda>k. f k < Suc p) xs) = length (filter (\<lambda>k. f k < p) xs) + length (filter (\<lambda>k. f k = p) xs)"
    for f :: "nat \<Rightarrow> nat" and xs
    by (induction xs) auto
  then show ?thesis by (simp add: kid_start_def kids_upto_def)
qed

lemma kid_start_0 [simp]: "kid_start nds 0 = 0"
  by (simp add: kid_start_def)

lemma kid_start_mono: "p \<le> q \<Longrightarrow> kid_start nds p \<le> kid_start nds q"
  by (induction q rule: dec_induct) (auto simp: kid_start_Suc)

lemma kid_start_le: "kid_start nds p \<le> length nds - 1"
  unfolding kid_start_def using length_filter_le [of _ "[1..<length nds]"] by simp

lemma kids_upto_length: "length (kids_upto nds m p) \<le> m - 1"
  unfolding kids_upto_def using length_filter_le [of _ "[1..<m]"] by simp

text \<open>The children of \<open>p\<close> seen so far, when a further one is at \<open>m\<close>.\<close>

lemma kids_upto_room:
  assumes "m < length nds" and "0 < m" and "tn_parent (nds ! m) = p"
  shows "length (kids_upto nds m p) < length (kids_of nds p)"
proof -
  have "[1..<length nds] = [1..<m] @ m # [Suc m..<length nds]"
    using assms upt_add_eq_append [of 1 m "length nds - m"] upt_conv_Cons [of m "length nds"] by simp
  then show ?thesis using assms(3) unfolding kids_upto_def by simp
qed

section \<open>Slices\<close>

definition slice :: "nat list \<Rightarrow> nat \<Rightarrow> nat \<Rightarrow> nat list" where
  "slice ks lo hi = take (hi - lo) (drop lo ks)"

lemma slice_nth: "j < hi - lo \<Longrightarrow> hi \<le> length ks \<Longrightarrow> slice ks lo hi ! j = ks ! (lo + j)"
  by (simp add: slice_def)

lemma slice_length: "hi \<le> length ks \<Longrightarrow> length (slice ks lo hi) = hi - lo"
  by (simp add: slice_def)

lemma slice_eqI:
  assumes "hi \<le> length ks" and "length xs = hi - lo" and "\<And>j. j < hi - lo \<Longrightarrow> ks ! (lo + j) = xs ! j"
  shows "slice ks lo hi = xs"
  using assms by (intro nth_equalityI) (auto simp: slice_length slice_nth)

lemma slice_replaced:
  assumes "lo \<le> hi" and "hi \<le> length ks" and "length xs = hi - lo"
  shows "slice (take lo ks @ xs @ drop hi ks) lo hi = xs"
  using assms by (simp add: slice_def)

lemma slice_other:
  assumes "lo \<le> hi" and "hi \<le> length ks" and "length xs = hi - lo" and "b \<le> lo \<or> hi \<le> a" and "b \<le> length ks"
  shows "slice (take lo ks @ xs @ drop hi ks) a b = slice ks a b"
proof (rule slice_eqI)
  have len: "length (take lo ks @ xs @ drop hi ks) = length ks" using assms(1-3) by simp
  with assms(5) show "b \<le> length (take lo ks @ xs @ drop hi ks)" by simp
  show "length (slice ks a b) = b - a" using assms(5) by (rule slice_length)
  fix j assume j: "j < b - a"
  have "(take lo ks @ xs @ drop hi ks) ! (a + j) = ks ! (a + j)"
  proof (cases "b \<le> lo")
    case True
    with j have "a + j < lo" by linarith
    with assms(1,2) show ?thesis by (simp add: nth_append)
  next
    case False
    with assms(4) have "hi \<le> a" by simp
    with assms(1) have "\<not> a + j < lo" "\<not> a + j - lo < hi - lo" "hi + (a + j - lo - (hi - lo)) = a + j" by linarith+
    with assms(1-3) show ?thesis by (simp add: nth_append)
  qed
  with j assms(5) show "(take lo ks @ xs @ drop hi ks) ! (a + j) = slice ks a b ! j" by (simp add: slice_nth)
qed

section \<open>The four loops\<close>

lemma count_loop:
  assumes inv: "tree_inv nds nms" and small: "length nds \<le> u32_max"
  obtains counts where "for_each count_child (enumerate 0 nds) (replicate (length nds + 1) 0) = Ok counts"
    and "length counts = length nds + 1" and "counts ! 0 = 0"
    and "\<And>p. p < length nds \<Longrightarrow> counts ! Suc p = length (kids_of nds p)"
proof -
  let ?I = "\<lambda>m counts. length counts = length nds + 1 \<and> counts ! 0 = 0
    \<and> (\<forall>p < length nds. counts ! Suc p = length (kids_upto nds m p))"
  have "\<exists>c. for_each count_child (enumerate 0 nds) (replicate (length nds + 1) 0) = Ok c \<and> ?I (length (enumerate 0 nds)) c"
  proof (rule for_each_rounds [of ?I])
    show "?I 0 (replicate (length nds + 1) 0)" by (simp add: kids_upto_def nth_Cons')
  next
    fix m c assume m: "m < length (enumerate 0 nds)" and I: "?I m c"
    then have nth: "enumerate 0 nds ! m = (m, nds ! m)" by (simp add: nth_enumerate_eq)
    show "\<exists>c'. count_child (enumerate 0 nds ! m) c = Ok c' \<and> ?I (Suc m) c'"
    proof (cases "m = 0")
      case True
      have "count_child (enumerate 0 nds ! m) c = Ok c" unfolding nth count_child_def using True by simp
      with I True show ?thesis by (simp add: kids_upto_Suc)
    next
      case False
      with inv m have par: "tn_parent (nds ! m) < m" by (simp add: tree_inv_def)
      with m I have c: "c ! Suc (tn_parent (nds ! m)) = length (kids_upto nds m (tn_parent (nds ! m)))" by simp
      moreover have "length (kids_upto nds m (tn_parent (nds ! m))) + 1 \<le> u32_max"
        using kids_upto_length [of nds m "tn_parent (nds ! m)"] m small False by simp
      ultimately have "count_child (enumerate 0 nds ! m) c
          = Ok (c[Suc (tn_parent (nds ! m)) := Suc (length (kids_upto nds m (tn_parent (nds ! m))))])"
        using False par m I by (simp add: nth count_child_def checked_add_u32_def)
      then show ?thesis using I False m par by (auto simp: nth_list_update kids_upto_Suc)
    qed
  qed
  then show thesis using that by auto
qed

lemma prefix_loop:
  assumes small: "length nds \<le> u32_max" and len: "length counts = length nds + 1" and zero: "counts ! 0 = 0"
    and counts: "\<And>p. p < length nds \<Longrightarrow> counts ! Suc p = length (kids_of nds p)"
  obtains starts where "for_each add_previous [0..<length nds] counts = Ok starts"
    and "length starts = length nds + 1" and "\<And>p. p \<le> length nds \<Longrightarrow> starts ! p = kid_start nds p"
proof -
  let ?I = "\<lambda>m c. length c = length nds + 1 \<and> (\<forall>p \<le> m. c ! p = kid_start nds p)
    \<and> (\<forall>p. m \<le> p \<and> p < length nds \<longrightarrow> c ! Suc p = length (kids_of nds p))"
  have "\<exists>c. for_each add_previous [0..<length nds] counts = Ok c \<and> ?I (length [0..<length nds]) c"
  proof (rule for_each_rounds [of ?I])
    show "?I 0 counts" using len zero counts by simp
  next
    fix m c assume m: "m < length [0..<length nds]" and I: "?I m c"
    have sum: "c ! Suc m + c ! m = kid_start nds (Suc m)" using I m by (simp add: kid_start_Suc)
    moreover have "kid_start nds (Suc m) \<le> u32_max" using kid_start_le [of nds "Suc m"] small by simp
    ultimately have "add_previous ([0..<length nds] ! m) c = Ok (c[Suc m := kid_start nds (Suc m)])"
      using m I by (simp add: add_previous_def checked_add_u32_def)
    then show "\<exists>c'. add_previous ([0..<length nds] ! m) c = Ok c' \<and> ?I (Suc m) c'"
      using I m by (auto simp: nth_list_update le_Suc_eq)
  qed
  then show thesis using that by auto
qed

lemma kid_start_apart:
  assumes "p \<noteq> q" and "i < length (kids_of nds p)" and "j < length (kids_of nds q)"
  shows "kid_start nds p + i \<noteq> kid_start nds q + j"
proof (cases "p < q")
  case True
  then have "kid_start nds (Suc p) \<le> kid_start nds q" by (intro kid_start_mono) simp
  with assms show ?thesis by (simp add: kid_start_Suc)
next
  case False
  with assms(1) have "kid_start nds (Suc q) \<le> kid_start nds p" by (intro kid_start_mono) simp
  with assms show ?thesis by (simp add: kid_start_Suc)
qed

lemma kid_slot_in_range:
  assumes "j < length (kids_of nds p)"
  shows "kid_start nds p + j < length nds - 1"
  using kid_start_le [of nds "Suc p"] assms by (simp add: kid_start_Suc)

lemma kids_upto_length_mono: "m \<le> length nds \<Longrightarrow> length (kids_upto nds m p) \<le> length (kids_of nds p)"
proof -
  assume "m \<le> length nds"
  then obtain zs where "kids_of nds p = kids_upto nds m p @ zs"
    unfolding kids_upto_def using upt_add_eq_append [of 1 m "length nds - m"]
    by (cases "m = 0") auto
  then show ?thesis by simp
qed

lemma place_loop_kids:
  assumes inv: "tree_inv nds nms" and small: "length nds \<le> u32_max" and len: "length starts = length nds + 1"
    and starts: "\<And>p. p \<le> length nds \<Longrightarrow> starts ! p = kid_start nds p"
  obtains cursor kids where
    "for_each place_kid (drop 1 (enumerate 0 nds)) (starts, replicate (length nds - 1) 0) = Ok (cursor, kids)"
    and "length kids = length nds - 1"
    and "\<And>p. p < length nds \<Longrightarrow> slice kids (kid_start nds p) (kid_start nds (Suc p)) = kids_of nds p"
proof -
  let ?xs = "drop 1 (enumerate 0 nds)" and ?ch = "\<lambda>m. kids_upto nds (Suc m)"
  let ?I = "\<lambda>m (cursor, kids). length cursor = length nds + 1 \<and> length kids = length nds - 1
    \<and> (\<forall>p < length nds. cursor ! p = kid_start nds p + length (?ch m p)
        \<and> (\<forall>j < length (?ch m p). kids ! (kid_start nds p + j) = ?ch m p ! j))"
  have "\<exists>s. for_each place_kid ?xs (starts, replicate (length nds - 1) 0) = Ok s \<and> ?I (length ?xs) s"
  proof (rule for_each_rounds [of ?I])
    show "?I 0 (starts, replicate (length nds - 1) 0)" using len starts by (simp add: kids_upto_def)
  next
    fix m s assume m: "m < length ?xs" and I: "?I m s"
    obtain cursor kids where s: "s = (cursor, kids)" by (cases s)
    define k where "k = Suc m"
    define q where "q = tn_parent (nds ! k)"
    have k: "k < length nds" "0 < k" using m by (auto simp: k_def)
    have nth: "?xs ! m = (k, nds ! k)" using m by (simp add: nth_enumerate_eq k_def)
    have q: "q < length nds" using inv k by (auto simp: tree_inv_def q_def intro: less_trans)
    have room: "length (kids_upto nds k q) < length (kids_of nds q)"
      using kids_upto_room [OF k] by (simp add: q_def)
    define slot where "slot = kid_start nds q + length (kids_upto nds k q)"
    have slot: "slot < length nds - 1" unfolding slot_def by (rule kid_slot_in_range [OF room])
    from I s have c: "cursor ! q = slot" "length cursor = length nds + 1" "length kids = length nds - 1"
      using q by (auto simp: slot_def k_def)
    have step: "place_kid (?xs ! m) s = Ok (cursor[q := Suc slot], kids[slot := k])"
      unfolding nth s place_kid_def prod.case q_def [symmetric]
      using c q slot k small by (simp add: try_u32_def checked_add_u32_def)
    have grow: "?ch (Suc m) p = (if p = q then ?ch m p @ [k] else ?ch m p)" for p
      using k(2) by (auto simp: k_def q_def kids_upto_Suc [of nds "Suc m"])
    have old: "kids ! (kid_start nds p + j) = ?ch m p ! j" and apart: "kid_start nds p + j \<noteq> slot"
      if "p < length nds" "j < length (?ch m p)" for p j
    proof -
      show "kids ! (kid_start nds p + j) = ?ch m p ! j" using I s that by auto
      have "j < length (kids_of nds p)" using kids_upto_length_mono [of "Suc m" nds p] that(2) k(1) by (simp add: k_def)
      then show "kid_start nds p + j \<noteq> slot"
        using kid_start_apart [OF _ _ room, of p j] that(2) by (cases "p = q") (auto simp: slot_def k_def)
    qed
    have keep: "kids[slot := k] ! (kid_start nds p + j) = ?ch m p ! j" if "p < length nds" "j < length (?ch m p)" for p j
      using old [OF that] apart [OF that] by simp
    have here: "kids[slot := k] ! (kid_start nds q + length (?ch m q)) = k"
      using slot c(3) by (simp add: slot_def k_def)
    have cells: "kids[slot := k] ! (kid_start nds p + j) = ?ch (Suc m) p ! j"
      if "p < length nds" "j < length (?ch (Suc m) p)" for p j
      using that keep [of p j] here unfolding grow
      by (cases "j < length (?ch m p)") (auto simp: nth_append less_Suc_eq split: if_splits)
    have "cursor[q := Suc slot] ! p = kid_start nds p + length (?ch (Suc m) p)" if "p < length nds" for p
      using that I s c(2) unfolding grow by (auto simp: nth_list_update slot_def k_def)
    with cells c have "?I (Suc m) (cursor[q := Suc slot], kids[slot := k])" by simp
    with step show "\<exists>s'. place_kid (?xs ! m) s = Ok s' \<and> ?I (Suc m) s'" by blast
  qed
  then obtain cursor kids where r: "for_each place_kid ?xs (starts, replicate (length nds - 1) 0) = Ok (cursor, kids)"
    and I: "?I (length ?xs) (cursor, kids)" by fastforce
  have n: "Suc (length ?xs) = length nds" using inv by (cases nds) (auto simp: tree_inv_def)
  show thesis
  proof (rule that [OF r])
    show "length kids = length nds - 1" using I by simp
    fix p assume "p < length nds"
    with I n show "slice kids (kid_start nds p) (kid_start nds (Suc p)) = kids_of nds p"
      using kid_start_le [of nds "Suc p"] by (intro slice_eqI) (auto simp: kid_start_Suc)
  qed
qed

lemma sort_by_name_ok:
  assumes "tree_inv nds nms" and "\<And>k. k \<in> set ks \<Longrightarrow> 0 < k \<and> k < length nds"
  shows "sort_by_name nds nms ks = Ok (sort_key (\<lambda>k. tmp_name nms (nds ! k)) ks)"
proof (cases "length ks < 2")
  case True
  then obtain x where "ks = [] \<or> ks = [x]" by (cases ks; cases "tl ks") auto
  then show ?thesis by (auto simp: sort_by_name_def)
next
  case False
  moreover have "list_all (\<lambda>k. k < length nds \<and> tn_name_off (nds ! k) + tn_name_len (nds ! k) \<le> length nms) ks"
    using assms by (auto simp: list_all_iff tree_inv_def name_ok_def)
  ultimately show ?thesis by (simp add: sort_by_name_def tmp_name_def)
qed

lemma group_children_ok:
  assumes inv: "tree_inv nds nms" and small: "length nds \<le> u32_max"
  obtains starts kids where "group_children nds nms = Ok (starts, kids)"
    and "length starts = length nds + 1" and "\<And>p. p \<le> length nds \<Longrightarrow> starts ! p = kid_start nds p"
    and "length kids = length nds - 1"
    and "\<And>p. p < length nds \<Longrightarrow> slice kids (kid_start nds p) (kid_start nds (Suc p)) = sorted_kids nds nms p"
proof -
  obtain counts where c: "for_each count_child (enumerate 0 nds) (replicate (length nds + 1) 0) = Ok counts"
    "length counts = length nds + 1" "counts ! 0 = 0"
    "\<And>p. p < length nds \<Longrightarrow> counts ! Suc p = length (kids_of nds p)" using count_loop [OF inv small] by blast
  obtain starts where s: "for_each add_previous [0..<length nds] counts = Ok starts"
    "length starts = length nds + 1" "\<And>p. p \<le> length nds \<Longrightarrow> starts ! p = kid_start nds p"
    using prefix_loop [OF small c(2-4)] by blast
  obtain cursor kids where
    k: "for_each place_kid (drop 1 (enumerate 0 nds)) (starts, replicate (length nds - 1) 0) = Ok (cursor, kids)"
    "length kids = length nds - 1"
    "\<And>p. p < length nds \<Longrightarrow> slice kids (kid_start nds p) (kid_start nds (Suc p)) = kids_of nds p"
    using place_loop_kids [OF inv small s(2,3)] by blast
  let ?sl = "\<lambda>ks p. slice ks (kid_start nds p) (kid_start nds (Suc p))"
  let ?I = "\<lambda>m ks. length ks = length nds - 1 \<and> (\<forall>p < length nds.
    ?sl ks p = (if p < m then sorted_kids nds nms p else kids_of nds p))"
  have "\<exists>ks. for_each (sort_group nds nms starts) [0..<length nds] kids = Ok ks \<and> ?I (length [0..<length nds]) ks"
  proof (rule for_each_rounds [of ?I])
    show "?I 0 kids" using k by simp
  next
    fix m ks assume m: "m < length [0..<length nds]" and I: "?I m ks"
    let ?lo = "kid_start nds m" and ?hi = "kid_start nds (Suc m)"
    let ?ks' = "take ?lo ks @ sorted_kids nds nms m @ drop ?hi ks"
    have le: "?lo \<le> ?hi" "?hi \<le> length ks" "length (sorted_kids nds nms m) = ?hi - ?lo"
      using I kid_start_le [of nds "Suc m"] by (auto simp: kid_start_Suc sorted_kids_def)
    have "sort_by_name nds nms (?sl ks m) = Ok (sorted_kids nds nms m)"
      using I m sort_by_name_ok [OF inv, of "kids_of nds m"] kids_upto_less by (auto simp: sorted_kids_def)
    then have step: "sort_group nds nms starts ([0..<length nds] ! m) ks = Ok ?ks'"
      using m s(2) s(3) [of m] s(3) [of "Suc m"] le by (simp add: sort_group_def slice_def)
    have "?sl ?ks' p = (if p < Suc m then sorted_kids nds nms p else kids_of nds p)" if p: "p < length nds" for p
    proof (cases "p = m")
      case True
      then show ?thesis using slice_replaced [OF le] by simp
    next
      case False
      then have "kid_start nds (Suc p) \<le> ?lo \<or> ?hi \<le> kid_start nds p"
        using kid_start_mono [of "Suc p" m nds] kid_start_mono [of "Suc m" p nds] by linarith
      moreover have "kid_start nds (Suc p) \<le> length ks" using I kid_start_le [of nds "Suc p"] by simp
      ultimately have "?sl ?ks' p = ?sl ks p" by (rule slice_other [OF le])
      with I p False show ?thesis by simp
    qed
    with step le I show "\<exists>ks'. sort_group nds nms starts ([0..<length nds] ! m) ks = Ok ks' \<and> ?I (Suc m) ks'" by auto
  qed
  then obtain ks where ks: "for_each (sort_group nds nms starts) [0..<length nds] kids = Ok ks" "?I (length nds) ks"
    by auto
  have "group_children nds nms = Ok (starts, ks)"
    using c(1) s(1) k(1) ks(1) by (simp add: group_children_def Let_def)
  with s(2,3) ks(2) show thesis by (intro that [of starts ks]) auto
qed

end
