(* ===== verification/Builder_Correct.thy ===== *)
theory Builder_Correct
  imports Builder_Tree
begin

text \<open>
  The builder refines an abstract tree, a map from paths to what is there: \<open>spec_add\<close> says what
  adding one entry does to it, with no table, no memo and no node numbers. The invariant
  \<open>builder_wf\<close> is kept by every operation, and \<open>view\<close> reads the abstract tree off a builder.
\<close>

section \<open>The abstract tree\<close>

definition spec_empty :: "'w tree_spec" where
  "spec_empty = [[] \<mapsto> (Dir, None)]"

text \<open>A directory on the way to an entry: created if missing, taken over if not a directory.\<close>

definition spec_mkdir :: "bytes list \<Rightarrow> 'w tree_spec \<Rightarrow> 'w tree_spec" where
  "spec_mkdir p t = (case t p of Some (Dir, d) \<Rightarrow> t | _ \<Rightarrow> t(p \<mapsto> (Dir, None)))"

fun spec_mkdirs :: "bytes list \<Rightarrow> bytes list \<Rightarrow> 'w tree_spec \<Rightarrow> 'w tree_spec" where
  "spec_mkdirs pre [] t = t"
| "spec_mkdirs pre (c # cs) t = spec_mkdirs (pre @ [c]) cs (spec_mkdir (pre @ [c]) t)"

text \<open>The leaf: the first entry at a path keeps it; a directory is declared at most once.\<close>

definition spec_claim :: "bytes list \<Rightarrow> node_kind \<Rightarrow> 'w entry_meta \<Rightarrow> 'w tree_spec \<Rightarrow> 'w tree_spec" where
  "spec_claim p k m t =
     (case t p of
        None \<Rightarrow> t(p \<mapsto> (k, Some (m\<lparr>symlink_slot := 0\<rparr>)))
      | Some (k', d) \<Rightarrow>
          if k' = Dir \<and> d = None \<and> k = Dir then t(p \<mapsto> (Dir, Some (m\<lparr>symlink_slot := 0\<rparr>))) else t)"

definition spec_add :: "ext_consts \<Rightarrow> bytes \<Rightarrow> bool \<Rightarrow> 'w entry_meta \<Rightarrow> 'w tree_spec \<Rightarrow> 'w tree_spec" where
  "spec_add xc path is_dir m t =
     (if reject_reason path \<noteq> None \<or> stored_sizes_differ xc m \<or> compressed_size_zero m then t
      else spec_claim (components path) (entry_kind xc is_dir m) m
             (spec_mkdirs [] (butlast (components path)) t))"

section \<open>The invariant\<close>

text \<open>A synthetic node is a directory without metadata; any other node points at its entry.\<close>

definition node_wf :: "'w entry_meta list \<Rightarrow> tmp_node \<Rightarrow> bool" where
  "node_wf mts n \<longleftrightarrow> (if synthetic (tn_flags n) then tn_kind n = Dir \<and> tn_meta n = NO_META
                       else tn_meta n < length mts)"

definition edge_wf :: "tmp_node list \<Rightarrow> bytes \<Rightarrow> nat \<Rightarrow> bool" where
  "edge_wf nds nms i \<longleftrightarrow> tn_kind (nds ! tn_parent (nds ! i)) = Dir
     \<and> good_component (tmp_name nms (nds ! i)) \<and> tn_name_len (nds ! i) \<le> MAX_COMPONENT"

text \<open>Every symlink node has a slot of its own.\<close>

definition node_slot :: "tmp_node list \<Rightarrow> 'w entry_meta list \<Rightarrow> nat \<Rightarrow> nat" where
  "node_slot nds mts i = symlink_slot (mts ! tn_meta (nds ! i))"

definition slots_wf :: "tmp_node list \<Rightarrow> 'w entry_meta list \<Rightarrow> nat \<Rightarrow> bool" where
  "slots_wf nds mts cnt \<longleftrightarrow>
     (\<forall>i < length nds. tn_kind (nds ! i) = Symlink \<longrightarrow> node_slot nds mts i < cnt)
     \<and> inj_on (node_slot nds mts) {i. i < length nds \<and> tn_kind (nds ! i) = Symlink}"

definition builder_wf :: "'w builder \<Rightarrow> bool" where
  "builder_wf b \<longleftrightarrow>
     table_inv (b_intern b) (b_nodes b) (b_names b) \<and> tree_inv (b_nodes b) (b_names b)
     \<and> (\<forall>i < length (b_nodes b). node_wf (b_metas b) (b_nodes b ! i))
     \<and> synthetic (tn_flags (b_nodes b ! 0)) \<and> tn_parent (b_nodes b ! 0) = 0
     \<and> (\<forall>i < length (b_nodes b). 0 < i \<longrightarrow> edge_wf (b_nodes b) (b_names b) i)
     \<and> slots_wf (b_nodes b) (b_metas b) (b_symlink_count b)
     \<and> tmp_walk (b_nodes b) (b_names b) 0 (components (b_memo_path b)) = Some (b_memo_id b)
     \<and> tn_kind (b_nodes b ! b_memo_id b) = Dir
     \<and> name_ok (b_names b) (b_nodes b ! 0)"

definition view :: "'w builder \<Rightarrow> 'w tree_spec" where
  "view b = tmp_view (b_nodes b) (b_names b) (b_metas b)"

abbreviation walk_to :: "'w builder \<Rightarrow> bytes list \<Rightarrow> nat option" where
  "walk_to b q \<equiv> tmp_walk (b_nodes b) (b_names b) 0 q"

lemma builder_wfD:
  assumes "builder_wf b"
  shows "table_inv (b_intern b) (b_nodes b) (b_names b)" and "tree_inv (b_nodes b) (b_names b)"
    and "i < length (b_nodes b) \<Longrightarrow> node_wf (b_metas b) (b_nodes b ! i)"
    and "synthetic (tn_flags (b_nodes b ! 0))" and "tn_parent (b_nodes b ! 0) = 0"
    and "i < length (b_nodes b) \<Longrightarrow> 0 < i \<Longrightarrow> edge_wf (b_nodes b) (b_names b) i"
    and "slots_wf (b_nodes b) (b_metas b) (b_symlink_count b)"
    and "walk_to b (components (b_memo_path b)) = Some (b_memo_id b)"
    and "tn_kind (b_nodes b ! b_memo_id b) = Dir" and "b_nodes b \<noteq> []"
    and "name_ok (b_names b) (b_nodes b ! 0)"
  using assms by (simp_all add: builder_wf_def tree_inv_def)

lemma builder_wf_new: "builder_wf (builder_new hint)"
  by (simp add: builder_wf_def builder_new_def table_inv_with_capacity tree_inv_def keys_distinct_def
      node_wf_def slots_wf_def inj_on_def name_ok_def)

lemma view_new: "view (builder_new hint) = spec_empty"
proof
  fix q
  show "view (builder_new hint) q = spec_empty q"
    by (cases q) (auto simp: view_def tmp_view_def builder_new_def spec_empty_def node_info_def tmp_child_def)
qed

lemma view_at: "walk_to b q = Some i \<Longrightarrow> view b q = Some (node_info (b_metas b) (b_nodes b ! i))"
  by (simp add: view_def tmp_view_def)

lemma view_none: "view b q = None \<longleftrightarrow> walk_to b q = None"
  by (simp add: view_def tmp_view_def)

section \<open>Interning\<close>

lemma intern_name_found:
  assumes "builder_wf b" and "walk_to b pre = Some p" and "walk_to b (pre @ [c]) = Some i"
  shows "intern_name b p c = Ok (b, i, False)"
proof -
  have "tmp_child (b_nodes b) (b_names b) p c = Some i" using assms by (simp add: tmp_walk_snoc)
  then have "find (b_intern b) (b_nodes b) (b_names b) p c = Ok (Some i)"
    using it.lookup_iff builder_wfD(1,2) [OF assms(1)] tmp_child_Some tree_inv_def by metis
  then show ?thesis by (simp add: intern_name_def)
qed

lemma intern_name_missing:
  assumes "builder_wf b" and "walk_to b pre = Some p" and "walk_to b (pre @ [c]) = None"
  shows "find (b_intern b) (b_nodes b) (b_names b) p c = Ok None"
proof -
  have "tmp_child (b_nodes b) (b_names b) p c = None" using assms by (simp add: tmp_walk_snoc)
  then have no: "find (b_intern b) (b_nodes b) (b_names b) p c \<noteq> Ok (Some i)" for i
    using it.lookup_iff builder_wfD(1,2) [OF assms(1)] tmp_child_Some tree_inv_def by (metis option.distinct(1))
  obtain r where "find (b_intern b) (b_nodes b) (b_names b) p c = Ok r"
    using it.lookup_total builder_wfD(1) [OF assms(1)] by blast
  with no show ?thesis by (cases r) auto
qed

definition fresh_node :: "bytes \<Rightarrow> nat \<Rightarrow> bytes \<Rightarrow> tmp_node" where
  "fresh_node nms p c = \<lparr> tn_name_off = length nms, tn_name_len = length c, tn_kind = Dir,
     tn_flags = FLAG_SYNTHETIC, tn_parent = p, tn_meta = NO_META \<rparr>"

lemma fresh_node_simps [simp]:
  "tn_kind (fresh_node nms p c) = Dir" "tn_parent (fresh_node nms p c) = p"
  "tn_flags (fresh_node nms p c) = FLAG_SYNTHETIC" "tn_meta (fresh_node nms p c) = NO_META"
  "tn_name_len (fresh_node nms p c) = length c"
  "tmp_name (nms @ c) (fresh_node nms p c) = c" "name_ok (nms @ c) (fresh_node nms p c)"
  by (simp_all add: fresh_node_def tmp_name_def name_ok_def)

lemma intern_name_fresh:
  assumes "builder_wf b" and "walk_to b pre = Some p" and "walk_to b (pre @ [c]) = None"
    and "intern_name b p c = Ok (b', nid, fresh)"
  shows "\<exists>t. b' = b\<lparr>b_nodes := b_nodes b @ [fresh_node (b_names b) p c], b_names := b_names b @ c, b_intern := t\<rparr>
      \<and> insert_node (b_intern b) (b_nodes b @ [fresh_node (b_names b) p c]) (b_names b @ c) (length (b_nodes b)) = Ok t"
    and "nid = length (b_nodes b)" and "fresh"
  using assms(4) intern_name_missing [OF assms(1-3)]
  by (auto simp: intern_name_def Let_def fresh_node_def)

text \<open>The parts of the invariant that a new node must keep.\<close>

lemma edge_wf_append:
  assumes "tree_inv nds nms" and "i < length nds" and "0 < i" and "edge_wf nds nms i"
  shows "edge_wf (nds @ [n]) (nms @ ext) i"
proof -
  have "tn_parent (nds ! i) < length nds" and "name_ok nms (nds ! i)"
    using assms by (auto simp: tree_inv_def intro: less_trans)
  with assms show ?thesis by (simp add: edge_wf_def nth_append)
qed

lemma slots_wf_append:
  assumes "slots_wf nds mts cnt" and "tn_kind n \<noteq> Symlink"
  shows "slots_wf (nds @ [n]) mts cnt"
proof -
  have "{i. i < length (nds @ [n]) \<and> tn_kind ((nds @ [n]) ! i) = Symlink}
      = {i. i < length nds \<and> tn_kind (nds ! i) = Symlink}"
    using assms(2) by (auto simp: nth_append less_Suc_eq)
  moreover have "node_slot (nds @ [n]) mts i = node_slot nds mts i" if "i < length nds" for i
    using that by (simp add: node_slot_def nth_append)
  ultimately show ?thesis
    using assms by (auto simp: slots_wf_def nth_append less_Suc_eq inj_on_def)
qed

lemma builder_wf_fresh:
  assumes wf: "builder_wf b" and pre: "walk_to b pre = Some p" and new: "walk_to b (pre @ [c]) = None"
    and par: "tn_kind (b_nodes b ! p) = Dir" and c: "good_component c" "length c \<le> MAX_COMPONENT"
    and b': "b' = b\<lparr>b_nodes := b_nodes b @ [fresh_node (b_names b) p c], b_names := b_names b @ c, b_intern := t\<rparr>"
    and t: "table_inv t (b_nodes b') (b_names b')"
  shows "builder_wf b'" and "walk_to b' (pre @ [c]) = Some (length (b_nodes b))"
    and "view b' = (view b)(pre @ [c] \<mapsto> (Dir, None))"
proof -
  let ?n = "fresh_node (b_names b) p c"
  note wfD = builder_wfD [OF wf]
  have p: "p < length (b_nodes b)" using tmp_walk_in_range wfD(2) pre .
  have new': "tmp_child (b_nodes b) (b_names b) (tn_parent ?n) (tmp_name (b_names b @ c) ?n) = None"
    using new pre by (simp add: tmp_walk_snoc)
  have walk: "walk_to b' q = (if q = pre @ [c] then Some (length (b_nodes b)) else walk_to b q)" for q
    using tmp_walk_append_node [OF wfD(2), of ?n c c pre q] p new' pre by (simp add: b')
  then show "walk_to b' (pre @ [c]) = Some (length (b_nodes b))" by simp
  have memo: "b_memo_id b < length (b_nodes b)" using tmp_walk_in_range wfD(2,8) .
  have edge: "edge_wf (b_nodes b') (b_names b') i" if "i < length (b_nodes b')" "0 < i" for i
  proof (cases "i < length (b_nodes b)")
    case True
    with that wfD(6) edge_wf_append [OF wfD(2)] show ?thesis by (simp add: b')
  next
    case False
    with that have "i = length (b_nodes b)" by (simp add: b')
    with p par c show ?thesis by (simp add: b' edge_wf_def nth_append)
  qed
  show "builder_wf b'"
    unfolding builder_wf_def
  proof (intro conjI allI impI)
    show "tree_inv (b_nodes b') (b_names b')"
      using tree_inv_append [OF wfD(2), of ?n c] p new' by (simp add: b')
    show "slots_wf (b_nodes b') (b_metas b') (b_symlink_count b')"
      using slots_wf_append [OF wfD(7)] by (simp add: b')
    show "node_wf (b_metas b') (b_nodes b' ! i)" if "i < length (b_nodes b')" for i
      using that wfD(3) by (auto simp: b' nth_append less_Suc_eq node_wf_def)
    show "walk_to b' (components (b_memo_path b')) = Some (b_memo_id b')"
      using walk wfD(8) new by (auto simp: b')
  qed (use wfD memo edge t in \<open>auto simp: b' nth_append name_ok_append\<close>)
  show "view b' = (view b)(pre @ [c] \<mapsto> (Dir, None))"
    using tmp_view_append_node [OF wfD(2), of ?n c c pre "b_metas b"] p new' pre
    by (simp add: view_def b' node_info_def)
qed

lemma intern_name_step:
  assumes wf: "builder_wf b" and pre: "walk_to b pre = Some p" and new: "walk_to b (pre @ [c]) = None"
    and par: "tn_kind (b_nodes b ! p) = Dir" and c: "good_component c" "length c \<le> MAX_COMPONENT"
    and r: "intern_name b p c = Ok (b', nid, fresh)" and small: "length (b_nodes b') \<le> u32_max"
  shows "builder_wf b'" and "walk_to b' (pre @ [c]) = Some nid"
    and "view b' = (view b)(pre @ [c] \<mapsto> (Dir, None))" and "fresh"
    and "b_nodes b' = b_nodes b @ [fresh_node (b_names b) p c]" and "nid = length (b_nodes b)"
    and "b_metas b' = b_metas b" and "b_stats b' = b_stats b" and "b_symlink_count b' = b_symlink_count b"
    and "b_memo_id b' = b_memo_id b"
proof -
  note f = intern_name_fresh [OF wf pre new r]
  then obtain t where b': "b' = b\<lparr>b_nodes := b_nodes b @ [fresh_node (b_names b) p c],
        b_names := b_names b @ c, b_intern := t\<rparr>"
    and t: "insert_node (b_intern b) (b_nodes b @ [fresh_node (b_names b) p c]) (b_names b @ c)
      (length (b_nodes b)) = Ok t" by blast
  obtain t' where "insert_node (b_intern b) (b_nodes b @ [fresh_node (b_names b) p c]) (b_names b @ c)
      (length (b_nodes b)) = Ok t'" and "table_inv t' (b_nodes b') (b_names b')"
    using insert_node_total [OF builder_wfD(1) [OF wf], of c "fresh_node (b_names b) p c"] small
    by (simp add: b') blast
  with t have "table_inv t (b_nodes b') (b_names b')" by simp
  note res = builder_wf_fresh [OF wf pre new par c b' this]
  with f(2) show "builder_wf b'" "walk_to b' (pre @ [c]) = Some nid"
    "view b' = (view b)(pre @ [c] \<mapsto> (Dir, None))" by auto
qed (use intern_name_fresh [OF wf pre new r] in auto)

section \<open>Changing a node\<close>

definition same_frame :: "'w builder \<Rightarrow> 'w builder \<Rightarrow> bool" where
  "same_frame b b' \<longleftrightarrow> b_names b' = b_names b \<and> b_intern b' = b_intern b
     \<and> b_memo_path b' = b_memo_path b \<and> b_memo_id b' = b_memo_id b"

definition same_place :: "tmp_node \<Rightarrow> tmp_node \<Rightarrow> bool" where
  "same_place n n' \<longleftrightarrow> tn_parent n' = tn_parent n \<and> tn_name_off n' = tn_name_off n
     \<and> tn_name_len n' = tn_name_len n"

definition childless :: "tmp_node list \<Rightarrow> nat \<Rightarrow> bool" where
  "childless nds nid \<longleftrightarrow> (\<forall>i < length nds. 0 < i \<longrightarrow> tn_parent (nds ! i) \<noteq> nid)"

lemma edge_wf_update:
  assumes "tree_inv nds nms" and "i < length nds" and "0 < i" and "edge_wf nds nms i"
    and "nid < length nds" and "same_place (nds ! nid) n" and "tn_kind n = Dir \<or> childless nds nid"
  shows "edge_wf (nds[nid := n]) nms i"
proof -
  have "tmp_name nms (nds[nid := n] ! i) = tmp_name nms (nds ! i)"
    and "tn_name_len (nds[nid := n] ! i) = tn_name_len (nds ! i)"
    and par: "tn_parent (nds[nid := n] ! i) = tn_parent (nds ! i)"
    using assms(2,5,6) by (auto simp: nth_list_update same_place_def tmp_name_def)
  moreover have "tn_kind (nds[nid := n] ! tn_parent (nds ! i)) = Dir"
    using assms by (auto simp: nth_list_update edge_wf_def childless_def)
  ultimately show ?thesis using assms(4) by (simp add: edge_wf_def)
qed

lemma builder_wf_update:
  assumes wf: "builder_wf b" and q: "walk_to b q = Some nid" "0 < nid"
    and b': "b_nodes b' = (b_nodes b)[nid := n]" "b_metas b' = b_metas b @ ext" "same_frame b b'"
    and n: "same_place (b_nodes b ! nid) n" "node_wf (b_metas b') n"
    and kind: "tn_kind n = Dir \<or> (childless (b_nodes b) nid \<and> b_memo_id b \<noteq> nid)"
    and slots: "slots_wf (b_nodes b') (b_metas b') (b_symlink_count b')"
  shows "builder_wf b'"
proof -
  note wfD = builder_wfD [OF wf]
  have nid: "nid < length (b_nodes b)" using tmp_walk_in_range wfD(2) q(1) .
  have keys: "same_keys (b_nodes b) (b_nodes b')"
    unfolding b' using nid n(1) by (intro same_keys_update) (auto simp: same_place_def)
  have frame: "b_names b' = b_names b" "b_intern b' = b_intern b" "b_memo_path b' = b_memo_path b"
    "b_memo_id b' = b_memo_id b" using b'(3) by (auto simp: same_frame_def)
  show ?thesis
    unfolding builder_wf_def frame
  proof (intro conjI allI impI)
    show "table_inv (b_intern b) (b_nodes b') (b_names b)"
      using it.invar_frame [OF wfD(1) keys] .
    show "tree_inv (b_nodes b') (b_names b)" using tree_inv_same [OF keys wfD(2)] .
    show "node_wf (b_metas b') (b_nodes b' ! i)" if "i < length (b_nodes b')" for i
      using that wfD(3) [of i] n(2) unfolding b'(1,2)
      by (cases "i = nid") (auto simp: node_wf_def nth_append split: if_splits)
    show "edge_wf (b_nodes b') (b_names b) i" if "i < length (b_nodes b')" "0 < i" for i
      using that wfD(2,6) nid n(1) kind unfolding b' by (auto intro: edge_wf_update)
    show "tmp_walk (b_nodes b') (b_names b) 0 (components (b_memo_path b)) = Some (b_memo_id b)"
      using wfD(8) tmp_walk_same [OF keys] by simp
    show "tn_kind (b_nodes b' ! b_memo_id b) = Dir"
      using wfD(9) kind nid unfolding b' by (auto simp: nth_list_update)
  qed (use wfD q(2) slots in \<open>auto simp: b'\<close>)
qed

lemma view_update:
  assumes wf: "builder_wf b" and q: "walk_to b q = Some nid"
    and b': "b_nodes b' = (b_nodes b)[nid := n]" "b_metas b' = b_metas b @ [m] \<or> b_metas b' = b_metas b"
      "same_frame b b'"
    and n: "same_place (b_nodes b ! nid) n"
  shows "view b' = (view b)(q \<mapsto> node_info (b_metas b') n)"
    and "walk_to b' q = Some nid"
proof -
  note wfD = builder_wfD [OF wf]
  have nid: "nid < length (b_nodes b)" using tmp_walk_in_range wfD(2) q .
  have nms: "b_names b' = b_names b" using b'(3) by (simp add: same_frame_def)
  have "tmp_view (b_nodes b) (b_names b) (b_metas b') = view b"
    using b'(2) tmp_view_append_meta [OF wfD(2), of "b_metas b" m] wfD(3)
    by (auto simp: view_def node_wf_def)
  then show "view b' = (view b)(q \<mapsto> node_info (b_metas b') n)"
    using tmp_view_update_node [OF wfD(2) q, of n "b_metas b'"] n
    by (simp add: view_def [of b'] b'(1) nms same_place_def)
  have "same_keys (b_nodes b) (b_nodes b')"
    unfolding b' using nid n by (intro same_keys_update) (auto simp: same_place_def)
  with q show "walk_to b' q = Some nid" by (simp add: tmp_walk_same nms)
qed

lemma slots_wf_update_other:
  assumes "slots_wf nds mts cnt" and "nid < length nds" and "tn_kind n \<noteq> Symlink"
    and wf: "\<And>i. i < length nds \<Longrightarrow> tn_kind (nds ! i) = Symlink \<Longrightarrow> tn_meta (nds ! i) < length mts"
  shows "slots_wf (nds[nid := n]) (mts @ ext) cnt"
proof -
  have slot: "node_slot (nds[nid := n]) (mts @ ext) i = node_slot nds mts i"
    if "i < length nds" "i \<noteq> nid" "tn_kind (nds ! i) = Symlink" for i
    using that wf by (simp add: node_slot_def nth_append)
  have set: "{i. i < length (nds[nid := n]) \<and> tn_kind (nds[nid := n] ! i) = Symlink}
      = {i. i < length nds \<and> tn_kind (nds ! i) = Symlink} - {nid}"
    using assms(2,3) by (auto simp: nth_list_update)
  show ?thesis
    unfolding slots_wf_def
  proof
    show "inj_on (node_slot (nds[nid := n]) (mts @ ext))
        {i. i < length (nds[nid := n]) \<and> tn_kind (nds[nid := n] ! i) = Symlink}"
      unfolding set using assms(1) slot by (auto simp: slots_wf_def inj_on_def)
    show "\<forall>i<length (nds[nid := n]). tn_kind (nds[nid := n] ! i) = Symlink \<longrightarrow>
        node_slot (nds[nid := n]) (mts @ ext) i < cnt"
      using assms slot by (auto simp: slots_wf_def nth_list_update)
  qed
qed

lemma slots_wf_update_symlink:
  assumes slots: "slots_wf nds mts cnt" and nid: "nid < length nds" and m: "symlink_slot m = cnt"
    and meta: "tn_meta n = length mts"
    and wf: "\<And>i. i < length nds \<Longrightarrow> tn_kind (nds ! i) = Symlink \<Longrightarrow> tn_meta (nds ! i) < length mts"
  shows "slots_wf (nds[nid := n]) (mts @ [m]) (Suc cnt)"
proof -
  let ?S = "{i. i < length nds \<and> tn_kind (nds ! i) = Symlink} - {nid}"
  let ?f = "node_slot (nds[nid := n]) (mts @ [m])"
  have slot: "?f i = node_slot nds mts i" if "i \<in> ?S" for i
    using that wf by (simp add: node_slot_def nth_append)
  have old: "?f i < cnt" if "i \<in> ?S" for i
    using that slots slot [OF that] by (auto simp: slots_wf_def)
  have fresh: "?f nid = cnt" using nid m meta by (simp add: node_slot_def)
  have sub: "{i. i < length (nds[nid := n]) \<and> tn_kind (nds[nid := n] ! i) = Symlink} \<subseteq> insert nid ?S"
    by (auto simp: nth_list_update)
  have "inj_on (node_slot nds mts) ?S" using slots by (auto simp: slots_wf_def intro: inj_on_subset)
  then have "inj_on ?f ?S" using slot by (simp add: inj_on_def)
  moreover have "?f nid \<notin> ?f ` ?S" using old fresh by fastforce
  ultimately have "inj_on ?f (insert nid ?S)" unfolding inj_on_insert Diff_idemp by blast
  then have "inj_on ?f {i. i < length (nds[nid := n]) \<and> tn_kind (nds[nid := n] ! i) = Symlink}"
    using sub by (rule inj_on_subset)
  moreover have "?f i < Suc cnt" if "i < length (nds[nid := n])" "tn_kind (nds[nid := n] ! i) = Symlink" for i
    using that sub old [of i] fresh by (cases "i = nid") (auto simp: less_Suc_eq)
  ultimately show ?thesis unfolding slots_wf_def by blast
qed

lemma builder_wf_meta:
  "builder_wf b \<Longrightarrow> i < length (b_nodes b) \<Longrightarrow> tn_kind (b_nodes b ! i) \<noteq> Dir \<Longrightarrow> tn_meta (b_nodes b ! i) < length (b_metas b)"
  using builder_wfD(3) [of b i] by (auto simp: node_wf_def split: if_splits)

lemma take_over_as_dir_ok:
  assumes wf: "builder_wf b" and q: "walk_to b q = Some nid" "0 < nid"
    and r: "take_over_as_dir b nid = Ok b'"
  shows "builder_wf b'" and "view b' = (view b)(q \<mapsto> (Dir, None))" and "walk_to b' q = Some nid"
    and "tn_kind (b_nodes b' ! nid) = Dir" and "length (b_nodes b') = length (b_nodes b)"
proof -
  let ?n = "(b_nodes b ! nid)\<lparr>tn_kind := Dir, tn_flags := tn_flags (b_nodes b ! nid) OR FLAG_SYNTHETIC, tn_meta := NO_META\<rparr>"
  have nid: "nid < length (b_nodes b)" using tmp_walk_in_range builder_wfD(2) [OF wf] q(1) .
  have b': "b_nodes b' = (b_nodes b)[nid := ?n]" "b_metas b' = b_metas b" "same_frame b b'"
    "b_symlink_count b' = b_symlink_count b"
    using r by (auto simp: take_over_as_dir_def Let_def same_frame_def)
  have place: "same_place (b_nodes b ! nid) ?n" by (simp add: same_place_def)
  have "slots_wf (b_nodes b') (b_metas b') (b_symlink_count b')"
    using slots_wf_update_other [OF builder_wfD(7) [OF wf] nid, of ?n "[]"] builder_wf_meta [OF wf] b' by simp
  then show "builder_wf b'"
    using builder_wf_update [OF wf q b'(1) _ b'(3) place, of "[]"] b' by (simp add: node_wf_def)
  show "view b' = (view b)(q \<mapsto> (Dir, None))" "walk_to b' q = Some nid"
    using view_update [OF wf q(1) b'(1) _ b'(3) place] b'(2) by (auto simp: node_info_def)
  show "tn_kind (b_nodes b' ! nid) = Dir" "length (b_nodes b') = length (b_nodes b)" using nid b'(1) by auto
qed

section \<open>Counters do not matter to the tree\<close>

lemma builder_wf_counters [simp]:
  "builder_wf (b\<lparr>b_stats := s\<rparr>) = builder_wf b"
  "builder_wf (b\<lparr>b_dup_warner := w\<rparr>) = builder_wf b"
  "builder_wf (b\<lparr>b_reject_warner := w\<rparr>) = builder_wf b"
  by (simp_all add: builder_wf_def)

lemma view_counters [simp]:
  "view (b\<lparr>b_stats := s\<rparr>) = view b"
  "view (b\<lparr>b_dup_warner := w\<rparr>) = view b"
  "view (b\<lparr>b_reject_warner := w\<rparr>) = view b"
  by (simp_all add: view_def)

section \<open>Claiming a node for an entry\<close>

lemma claim_cases:
  assumes "claim xc b nid k m = Ok b'"
  obtains m' cnt where "b_nodes b' = (b_nodes b)[nid := (b_nodes b ! nid)\<lparr>tn_kind := k,
        tn_flags := tn_flags (b_nodes b ! nid) AND NOT FLAG_SYNTHETIC, tn_meta := length (b_metas b)\<rparr>]"
    and "b_metas b' = b_metas b @ [m']" and "same_frame b b'" and "b_symlink_count b' = cnt"
    and "m'\<lparr>symlink_slot := 0\<rparr> = m\<lparr>symlink_slot := 0\<rparr>"
    and "if k = Symlink then symlink_slot m' = b_symlink_count b \<and> cnt = Suc (b_symlink_count b)
         else m' = m \<and> cnt = b_symlink_count b"
  using assms by (auto simp: claim_def Let_def same_frame_def split: if_splits)

lemma claim_ok:
  assumes wf: "builder_wf b" and q: "walk_to b q = Some nid" "0 < nid"
    and kind: "k = Dir \<or> (childless (b_nodes b) nid \<and> b_memo_id b \<noteq> nid)"
    and r: "claim xc b nid k m = Ok b'"
  shows "builder_wf b'" and "view b' = (view b)(q \<mapsto> (k, Some (m\<lparr>symlink_slot := 0\<rparr>)))"
    and "length (b_nodes b') = length (b_nodes b)"
proof -
  let ?n = "(b_nodes b ! nid)\<lparr>tn_kind := k,
        tn_flags := tn_flags (b_nodes b ! nid) AND NOT FLAG_SYNTHETIC, tn_meta := length (b_metas b)\<rparr>"
  from r obtain m' cnt where b': "b_nodes b' = (b_nodes b)[nid := ?n]" "b_metas b' = b_metas b @ [m']"
    "same_frame b b'" "b_symlink_count b' = cnt"
    and m': "m'\<lparr>symlink_slot := 0\<rparr> = m\<lparr>symlink_slot := 0\<rparr>"
    and cnt: "if k = Symlink then symlink_slot m' = b_symlink_count b \<and> cnt = Suc (b_symlink_count b)
         else m' = m \<and> cnt = b_symlink_count b"
    by (rule claim_cases)
  have nid: "nid < length (b_nodes b)" using tmp_walk_in_range builder_wfD(2) [OF wf] q(1) .
  have place: "same_place (b_nodes b ! nid) ?n" by (simp add: same_place_def)
  have links: "tn_meta (b_nodes b ! i) < length (b_metas b)"
    if "i < length (b_nodes b)" "tn_kind (b_nodes b ! i) = Symlink" for i
    using builder_wf_meta [OF wf that(1)] that(2) by simp
  have "slots_wf (b_nodes b') (b_metas b') (b_symlink_count b')"
    using slots_wf_update_symlink [OF builder_wfD(7) [OF wf] nid, of m' ?n]
      slots_wf_update_other [OF builder_wfD(7) [OF wf] nid, of ?n "[m']"] links cnt b'
    by (cases "k = Symlink") auto
  then show "builder_wf b'"
    using builder_wf_update [OF wf q b'(1-3) place] kind b' by (simp add: node_wf_def)
  show "view b' = (view b)(q \<mapsto> (k, Some (m\<lparr>symlink_slot := 0\<rparr>)))"
    using view_update [OF wf q(1) b'(1) _ b'(3) place, of m'] b'(2) m' by (simp add: node_info_def)
  show "length (b_nodes b') = length (b_nodes b)" using b'(1) by simp
qed

section \<open>Resolving the parent\<close>

lemma resolve_step_cases:
  assumes "resolve_step c (b, cur) = Ok (b', nid)"
  obtains b1 fresh where "intern_name b cur c = Ok (b1, nid, fresh)"
    and "if fresh then b' = b1\<lparr>b_stats := count_synthetic (b_stats b1)\<rparr>
         else if tn_kind (b_nodes b1 ! nid) = Dir then b' = b1 else take_over_as_dir b1 nid = Ok b'"
proof -
  from assms obtain x where x: "intern_name b cur c = Ok x"
    unfolding resolve_step_def prod.case rbind_eq_Ok by blast
  obtain b1 nid1 fresh where [simp]: "x = (b1, nid1, fresh)" by (cases x) auto
  from assms x show thesis
    by (intro that [of b1 fresh]) (auto simp: resolve_step_def simp del: not_None_eq split: if_splits)
qed

lemma intern_name_length:
  assumes "intern_name b p c = Ok (b', nid, fresh)" shows "length (b_nodes b) \<le> length (b_nodes b')"
proof -
  obtain r where "find (b_intern b) (b_nodes b) (b_names b) p c = Ok r"
    using assms unfolding intern_name_def rbind_eq_Ok by blast
  with assms show ?thesis by (cases r) (auto simp: intern_name_def Let_def)
qed

lemma take_over_length: "take_over_as_dir b nid = Ok b' \<Longrightarrow> length (b_nodes b') = length (b_nodes b)"
  by (auto simp: take_over_as_dir_def Let_def)

lemma resolve_step_length:
  assumes "resolve_step c (b, cur) = Ok (b', cur')" shows "length (b_nodes b) \<le> length (b_nodes b')"
  using assms
proof (rule resolve_step_cases)
  fix b1 fresh
  assume i: "intern_name b cur c = Ok (b1, cur', fresh)"
    and r: "if fresh then b' = b1\<lparr>b_stats := count_synthetic (b_stats b1)\<rparr>
         else if tn_kind (b_nodes b1 ! cur') = Dir then b' = b1 else take_over_as_dir b1 cur' = Ok b'"
  from r have "length (b_nodes b') = length (b_nodes b1)" by (auto dest: take_over_length split: if_splits)
  with intern_name_length [OF i] show ?thesis by simp
qed

lemma resolve_steps_length:
  "for_each resolve_step cs (b, cur) = Ok (b', cur') \<Longrightarrow> length (b_nodes b) \<le> length (b_nodes b')"
proof (induction cs arbitrary: b cur)
  case (Cons c cs)
  then obtain b1 cur1 where "resolve_step c (b, cur) = Ok (b1, cur1)"
    and "for_each resolve_step cs (b1, cur1) = Ok (b', cur')" by auto
  with Cons.IH resolve_step_length show ?case by (meson le_trans)
qed simp

lemma resolve_step_ok:
  assumes wf: "builder_wf b" and pre: "walk_to b pre = Some cur" and par: "tn_kind (b_nodes b ! cur) = Dir"
    and c: "good_component c" "length c \<le> MAX_COMPONENT"
    and r: "resolve_step c (b, cur) = Ok (b', nid)" and small: "length (b_nodes b') \<le> u32_max"
  shows "builder_wf b'" and "walk_to b' (pre @ [c]) = Some nid" and "tn_kind (b_nodes b' ! nid) = Dir"
    and "view b' = spec_mkdir (pre @ [c]) (view b)"
proof -
  have "builder_wf b' \<and> walk_to b' (pre @ [c]) = Some nid \<and> tn_kind (b_nodes b' ! nid) = Dir
    \<and> view b' = spec_mkdir (pre @ [c]) (view b)"
  proof (cases "walk_to b (pre @ [c])")
    case None
    from r obtain b1 fresh where i: "intern_name b cur c = Ok (b1, nid, fresh)"
      and rest: "if fresh then b' = b1\<lparr>b_stats := count_synthetic (b_stats b1)\<rparr>
         else if tn_kind (b_nodes b1 ! nid) = Dir then b' = b1 else take_over_as_dir b1 nid = Ok b'"
      by (rule resolve_step_cases)
    have fr: fresh using intern_name_fresh(3) [OF wf pre None i] .
    with rest have b': "b' = b1\<lparr>b_stats := count_synthetic (b_stats b1)\<rparr>" by simp
    with small have "length (b_nodes b1) \<le> u32_max" by simp
    note s = intern_name_step [OF wf pre None par c i this]
    from None have "view b (pre @ [c]) = None" by (simp add: view_none)
    with s b' show ?thesis by (auto simp: spec_mkdir_def)
  next
    case (Some i)
    then have "0 < i" and i: "i < length (b_nodes b)" using tmp_walk_last builder_wfD(2) [OF wf] by blast+
    have v: "view b (pre @ [c]) = Some (node_info (b_metas b) (b_nodes b ! i))" using view_at [OF Some] .
    show ?thesis
    proof (cases "tn_kind (b_nodes b ! i) = Dir")
      case True
      with r i have "b' = b" "nid = i" by (auto simp: resolve_step_def intern_name_found [OF wf pre Some])
      with wf Some True v show ?thesis by (simp add: spec_mkdir_def node_info_def)
    next
      case False
      with r i have t: "take_over_as_dir b i = Ok b'" and "nid = i"
        by (auto simp: resolve_step_def intern_name_found [OF wf pre Some])
      with take_over_as_dir_ok [OF wf Some \<open>0 < i\<close> t] False v show ?thesis
        by (auto simp: spec_mkdir_def node_info_def split: node_kind.splits)
    qed
  qed
  then show "builder_wf b'" and "walk_to b' (pre @ [c]) = Some nid" and "tn_kind (b_nodes b' ! nid) = Dir"
    and "view b' = spec_mkdir (pre @ [c]) (view b)" by auto
qed

lemma resolve_steps_ok:
  assumes "builder_wf b" and "walk_to b pre = Some cur" and "tn_kind (b_nodes b ! cur) = Dir"
    and "\<And>c. c \<in> set cs \<Longrightarrow> good_component c \<and> length c \<le> MAX_COMPONENT"
    and "for_each resolve_step cs (b, cur) = Ok (b', nid)" and "length (b_nodes b') \<le> u32_max"
  shows "builder_wf b' \<and> walk_to b' (pre @ cs) = Some nid \<and> tn_kind (b_nodes b' ! nid) = Dir
    \<and> view b' = spec_mkdirs pre cs (view b)"
  using assms
proof (induction cs arbitrary: b pre cur)
  case (Cons c cs)
  then obtain b1 cur1 where s: "resolve_step c (b, cur) = Ok (b1, cur1)"
    and rest: "for_each resolve_step cs (b1, cur1) = Ok (b', nid)" by auto
  have "length (b_nodes b1) \<le> u32_max" using resolve_steps_length [OF rest] Cons.prems(6) by simp
  note one = resolve_step_ok [OF Cons.prems(1-3) _ _ s this] 
  with Cons.prems(4) have "builder_wf b1" "walk_to b1 (pre @ [c]) = Some cur1"
    "tn_kind (b_nodes b1 ! cur1) = Dir" "view b1 = spec_mkdir (pre @ [c]) (view b)" by auto
  with Cons.IH [OF this(1-3) _ rest Cons.prems(6)] Cons.prems(4) show ?case by auto
qed simp

lemma spec_mkdir_id: "t p = Some (Dir, d) \<Longrightarrow> spec_mkdir p t = t"
  by (simp add: spec_mkdir_def)

text \<open>On a path that is there with a directory at its end, every step is a directory.\<close>

lemma spec_mkdirs_id:
  assumes "\<And>p r. cs = p @ r \<Longrightarrow> p \<noteq> [] \<Longrightarrow> \<exists>d. t (pre @ p) = Some (Dir, d)"
  shows "spec_mkdirs pre cs t = t"
  using assms
proof (induction cs arbitrary: pre)
  case (Cons c cs)
  have "\<exists>d. t (pre @ [c]) = Some (Dir, d)" using Cons.prems [of "[c]" cs] by simp
  then have "spec_mkdir (pre @ [c]) t = t" by (auto simp: spec_mkdir_id)
  moreover have "spec_mkdirs (pre @ [c]) cs t = t"
  proof (rule Cons.IH)
    fix p r assume "cs = p @ r" "p \<noteq> []"
    then show "\<exists>d. t ((pre @ [c]) @ p) = Some (Dir, d)" using Cons.prems [of "c # p" r] by simp
  qed
  ultimately show ?case by simp
qed simp

lemma walk_dirs:
  assumes wf: "builder_wf b"
  shows "walk_to b (p @ r) = Some i \<Longrightarrow> tn_kind (b_nodes b ! i) = Dir \<Longrightarrow> \<exists>d. view b p = Some (Dir, d)"
proof (induction r arbitrary: i rule: rev_induct)
  case Nil
  then show ?case by (simp add: view_def tmp_view_def node_info_def)
next
  case (snoc c r)
  note l = tmp_walk_last [OF builder_wfD(2) [OF wf], of "p @ r" c i]
  from snoc.prems l have "walk_to b (p @ r) = Some (tn_parent (b_nodes b ! i))" by simp
  moreover have "tn_kind (b_nodes b ! tn_parent (b_nodes b ! i)) = Dir"
    using builder_wfD(6) [OF wf, of i] snoc.prems(1) l by (simp add: edge_wf_def)
  ultimately show ?case using snoc.IH by blast
qed

lemma resolve_parent_length:
  "resolve_parent b path = Ok (b', nid) \<Longrightarrow> length (b_nodes b) \<le> length (b_nodes b')"
  by (auto simp: resolve_parent_def dest: resolve_steps_length split: if_splits)

lemma resolve_parent_ok:
  assumes wf: "builder_wf b"
    and cs: "\<And>c. c \<in> set (components path) \<Longrightarrow> length c \<le> MAX_COMPONENT"
    and r: "resolve_parent b path = Ok (b', nid)" and small: "length (b_nodes b') \<le> u32_max"
  shows "builder_wf b' \<and> walk_to b' (components path) = Some nid \<and> tn_kind (b_nodes b' ! nid) = Dir
    \<and> view b' = spec_mkdirs [] (components path) (view b) \<and> b_memo_id b' = nid"
proof (cases "path = b_memo_path b")
  case True
  with r have b': "b' = b" "nid = b_memo_id b" by (auto simp: resolve_parent_def)
  have "spec_mkdirs [] (components path) (view b) = view b"
  proof (rule spec_mkdirs_id)
    fix p r assume "components path = p @ r"
    then show "\<exists>d. view b ([] @ p) = Some (Dir, d)"
      using walk_dirs [OF wf, of p r "b_memo_id b"] builder_wfD(8,9) [OF wf] True by simp
  qed
  with b' wf builder_wfD(8,9) [OF wf] True show ?thesis by simp
next
  case False
  with r obtain b1 where s: "for_each resolve_step (components path) (b, 0) = Ok (b1, nid)"
    and b': "b' = b1\<lparr>b_memo_path := path, b_memo_id := nid\<rparr>" by (auto simp: resolve_parent_def)
  have root: "tn_kind (b_nodes b ! 0) = Dir"
    using builder_wfD(3) [OF wf, of 0] builder_wfD(4,10) [OF wf] by (auto simp: node_wf_def)
  have "builder_wf b1 \<and> walk_to b1 ([] @ components path) = Some nid \<and> tn_kind (b_nodes b1 ! nid) = Dir
    \<and> view b1 = spec_mkdirs [] (components path) (view b)"
    using root cs components_good small b' by (intro resolve_steps_ok [OF wf _ _ _ s]) auto
  then show ?thesis by (simp add: b' builder_wf_def view_def)
qed

section \<open>Adding an entry\<close>

lemma claim_length: "claim xc b nid k m = Ok b' \<Longrightarrow> length (b_nodes b') = length (b_nodes b)"
  by (erule claim_cases) simp

text \<open>The leaf of an accepted path, after its parent is resolved.\<close>

definition add_leaf :: "ext_consts \<Rightarrow> 'w builder \<Rightarrow> nat \<Rightarrow> bytes \<Rightarrow> node_kind \<Rightarrow> 'w entry_meta \<Rightarrow> 'w builder result" where
  "add_leaf xc b p leaf k m =
     rbind (intern_name b p leaf) (\<lambda>(b, nid, fresh).
        if fresh then claim xc b nid k m
        else rbind (at (b_nodes b) nid) (\<lambda>existing.
          if tn_kind existing = Dir \<and> k \<noteq> Dir then Ok (duplicate b)
          else if \<not> synthetic (tn_flags existing) then Ok (duplicate b)
          else if k \<noteq> Dir then Ok (b\<lparr>b_stats := count_duplicate (b_stats b)\<rparr>)
          else claim xc
            (b\<lparr>b_stats := (b_stats b)\<lparr>st_synthetic_dirs :=
               (if st_synthetic_dirs (b_stats b) = 0 then u64_max
                else st_synthetic_dirs (b_stats b) - 1)\<rparr>\<rparr>) nid k m))"

lemma add_entry_accepted:
  assumes "reject_reason path = None" and "\<not> stored_sizes_differ xc m" and "\<not> compressed_size_zero m"
    and "split_parent (normalize_path path) = (par, leaf)"
  shows "add_entry xc b path is_dir m =
    rbind (resolve_parent b par) (\<lambda>(b, p). add_leaf xc b p leaf (entry_kind xc is_dir m) m)"
  using assms by (simp add: add_entry_def add_leaf_def Let_def)

lemma add_leaf_fresh:
  assumes wf: "builder_wf b" and pre: "walk_to b pre = Some p" and none: "walk_to b (pre @ [leaf]) = None"
    and r: "add_leaf xc b p leaf k m = Ok b'"
  obtains b1 nid where "intern_name b p leaf = Ok (b1, nid, True)" and "claim xc b1 nid k m = Ok b'"
proof -
  from r obtain x where x: "intern_name b p leaf = Ok x"
    unfolding add_leaf_def rbind_eq_Ok by blast
  obtain b1 nid fresh where x': "x = (b1, nid, fresh)" by (cases x) auto
  with intern_name_fresh(3) [OF wf pre none] x have fresh by blast
  with r x x' show thesis by (intro that [of b1 nid]) (auto simp: add_leaf_def)
qed

lemma add_leaf_existing:
  assumes wf: "builder_wf b" and pre: "walk_to b pre = Some p" and i: "walk_to b (pre @ [leaf]) = Some i"
  shows "add_leaf xc b p leaf k m =
    (if tn_kind (b_nodes b ! i) = Dir \<and> k \<noteq> Dir then Ok (duplicate b)
     else if \<not> synthetic (tn_flags (b_nodes b ! i)) then Ok (duplicate b)
     else claim xc (b\<lparr>b_stats := (b_stats b)\<lparr>st_synthetic_dirs :=
               (if st_synthetic_dirs (b_stats b) = 0 then u64_max
                else st_synthetic_dirs (b_stats b) - 1)\<rparr>\<rparr>) i k m)"
proof -
  have "i < length (b_nodes b)" using tmp_walk_in_range builder_wfD(2) [OF wf] i .
  moreover have "synthetic (tn_flags (b_nodes b ! i)) \<Longrightarrow> tn_kind (b_nodes b ! i) = Dir"
    using builder_wfD(3) [OF wf \<open>i < _\<close>] by (simp add: node_wf_def)
  ultimately show ?thesis by (auto simp: add_leaf_def intern_name_found [OF wf pre i])
qed

lemma add_leaf_length:
  assumes "add_leaf xc b p leaf k m = Ok b'" shows "length (b_nodes b) \<le> length (b_nodes b')"
proof -
  from assms obtain x where x: "intern_name b p leaf = Ok x"
    unfolding add_leaf_def rbind_eq_Ok by blast
  obtain b1 nid fresh where x': "x = (b1, nid, fresh)" by (cases x) auto
  with x intern_name_length have "length (b_nodes b) \<le> length (b_nodes b1)" by blast
  moreover have "length (b_nodes b') = length (b_nodes b1)"
    using assms x x' by (auto simp: add_leaf_def duplicate_def dest!: claim_length split: if_splits)
  ultimately show ?thesis by simp
qed

lemma add_leaf_ok:
  assumes wf: "builder_wf b" and pre: "walk_to b pre = Some p" and par: "tn_kind (b_nodes b ! p) = Dir"
    and memo: "b_memo_id b = p" and c: "good_component leaf" "length leaf \<le> MAX_COMPONENT"
    and r: "add_leaf xc b p leaf k m = Ok b'" and small: "length (b_nodes b') \<le> u32_max"
  shows "builder_wf b' \<and> view b' = spec_claim (pre @ [leaf]) k m (view b)"
proof (cases "walk_to b (pre @ [leaf])")
  case None
  from wf pre None r obtain b1 nid where i: "intern_name b p leaf = Ok (b1, nid, True)"
    and cl: "claim xc b1 nid k m = Ok b'" by (rule add_leaf_fresh)
  have "length (b_nodes b1) \<le> u32_max" using small claim_length [OF cl] by simp
  note s = intern_name_step [OF wf pre None par c i this]
  have p: "p < length (b_nodes b)" using tmp_walk_in_range builder_wfD(2) [OF wf] pre .
  have "tn_parent (b_nodes b ! i) \<noteq> length (b_nodes b)" if "i < length (b_nodes b)" "0 < i" for i
    using that builder_wfD(2) [OF wf] by (auto simp: tree_inv_def)
  then have "childless (b_nodes b1) nid" using p by (auto simp: childless_def s(5,6) nth_append less_Suc_eq)
  moreover have "b_memo_id b1 \<noteq> nid" and "0 < nid" using s(6,10) memo p by auto
  ultimately have "builder_wf b'" "view b' = (view b1)(pre @ [leaf] \<mapsto> (k, Some (m\<lparr>symlink_slot := 0\<rparr>)))"
    using claim_ok [OF s(1,2) _ _ cl] by auto
  moreover have "view b (pre @ [leaf]) = None" using None by (simp add: view_none)
  ultimately show ?thesis by (simp add: spec_claim_def s(3))
next
  case (Some i)
  then have i: "0 < i" "i < length (b_nodes b)" using tmp_walk_last builder_wfD(2) [OF wf] by blast+
  note v = view_at [OF Some]
  note eq = add_leaf_existing [OF wf pre Some, of xc k m]
  show ?thesis
  proof (cases "k = Dir \<and> synthetic (tn_flags (b_nodes b ! i))")
    case True
    then have "tn_kind (b_nodes b ! i) = Dir" using builder_wfD(3) [OF wf i(2)] by (simp add: node_wf_def)
    with True v have v': "view b (pre @ [leaf]) = Some (Dir, None)" by (simp add: node_info_def)
    define b1 where "b1 = b\<lparr>b_stats := (b_stats b)\<lparr>st_synthetic_dirs :=
               (if st_synthetic_dirs (b_stats b) = 0 then u64_max
                else st_synthetic_dirs (b_stats b) - 1)\<rparr>\<rparr>"
    have "builder_wf b1" "walk_to b1 (pre @ [leaf]) = Some i" "view b1 = view b" using wf Some by (simp_all add: b1_def)
    moreover have "claim xc b1 i k m = Ok b'" using r eq True by (simp add: b1_def)
    ultimately have "builder_wf b'" "view b' = (view b)(pre @ [leaf] \<mapsto> (k, Some (m\<lparr>symlink_slot := 0\<rparr>)))"
      using claim_ok [of b1 "pre @ [leaf]" i k xc m b'] i True by auto
    with True v' show ?thesis by (simp add: spec_claim_def)
  next
    case False
    then have "b' = duplicate b"
      using r eq builder_wfD(3) [OF wf i(2)] by (auto simp: node_wf_def split: if_splits)
    with wf have "builder_wf b'" "view b' = view b" by (simp_all add: duplicate_def)
    with v False show ?thesis by (auto simp: spec_claim_def node_info_def)
  qed
qed

lemma add_entry_cases:
  assumes "add_entry xc b path is_dir m = Ok b'"
  obtains (rejected) "reject_reason path \<noteq> None" and "b' = reject b"
  | (bad_size) "reject_reason path = None" and "stored_sizes_differ xc m \<or> compressed_size_zero m" and "b' = reject_size b"
  | (accepted) b1 p par leaf where "reject_reason path = None" and "\<not> stored_sizes_differ xc m" and "\<not> compressed_size_zero m"
      and "components path = components par @ [leaf]"
      and "resolve_parent b par = Ok (b1, p)" and "add_leaf xc b1 p leaf (entry_kind xc is_dir m) m = Ok b'"
proof (cases "reject_reason path \<noteq> None \<or> stored_sizes_differ xc m \<or> compressed_size_zero m")
  case True
  with assms show ?thesis by (auto simp: add_entry_def intro: rejected bad_size split: if_splits)
next
  case False
  obtain par leaf where sp: "split_parent (normalize_path path) = (par, leaf)" by fastforce
  from False have "components path \<noteq> []" using reject_reason_None by blast
  with sp have "components path = components par @ [leaf]" by (intro split_parent_components)
  with False assms sp show ?thesis by (auto simp: add_entry_accepted intro: accepted)
qed

lemma add_entry_length:
  assumes "add_entry xc b path is_dir m = Ok b'" shows "length (b_nodes b) \<le> length (b_nodes b')"
  using assms
proof (cases rule: add_entry_cases)
  case (accepted b1 p par leaf)
  then show ?thesis using resolve_parent_length add_leaf_length le_trans by blast
qed (auto simp: reject_def reject_size_def)

lemma add_entry_refines:
  assumes wf: "builder_wf b" and r: "add_entry xc b path is_dir m = Ok b'" and small: "length (b_nodes b') \<le> u32_max"
  shows "builder_wf b' \<and> view b' = spec_add xc path is_dir m (view b)"
  using r
proof (cases rule: add_entry_cases)
  case rejected
  then show ?thesis using wf by (simp add: reject_def spec_add_def)
next
  case bad_size
  then show ?thesis using wf by (auto simp: reject_size_def spec_add_def)
next
  case (accepted b1 p par leaf)
  have cs: "length c \<le> MAX_COMPONENT" "good_component c" if "c \<in> set (components path)" for c
    using that accepted(1) components_good by (auto simp: reject_reason_None)
  have "length (b_nodes b1) \<le> u32_max" using small add_leaf_length [OF accepted(6)] by simp
  then have p: "builder_wf b1" "walk_to b1 (components par) = Some p" "tn_kind (b_nodes b1 ! p) = Dir"
    "view b1 = spec_mkdirs [] (components par) (view b)" "b_memo_id b1 = p"
    using resolve_parent_ok [OF wf _ accepted(5)] cs accepted(4) by auto
  have "builder_wf b' \<and> view b' = spec_claim (components par @ [leaf]) (entry_kind xc is_dir m) m (view b1)"
    using cs accepted(4) by (intro add_leaf_ok [OF p(1-3,5) _ _ accepted(6) small]) auto
  with p(4) accepted(1-4) show ?thesis by (simp add: spec_add_def)
qed

section \<open>Adding every entry\<close>

definition spec_record :: "ext_consts \<Rightarrow> 'w zip_record \<Rightarrow> 'w tree_spec \<Rightarrow> 'w tree_spec" where
  "spec_record xc r = spec_add xc (zr_path r) (zr_is_dir r) (record_meta r)"

lemma add_records_Inr: "add_records xc es b = Ok b' \<Longrightarrow> \<exists>rs. es = map Inr rs"
proof (induction es arbitrary: b)
  case (Cons e es)
  then obtain r where "e = Inr r" by (cases e) auto
  with Cons obtain rs where "es = map Inr rs" by auto
  with \<open>e = Inr r\<close> show ?case by (intro exI [of _ "r # rs"]) simp
qed simp

lemma add_records_length: "add_records xc (map Inr rs) b = Ok b' \<Longrightarrow> length (b_nodes b) \<le> length (b_nodes b')"
proof (induction rs arbitrary: b)
  case (Cons r rs)
  then show ?case using add_entry_length le_trans by fastforce
qed simp

lemma add_records_induct:
  assumes "add_records xc (map Inr rs) b = Ok b'" and "length (b_nodes b') \<le> u32_max" and "builder_wf b" and "P [] b"
    and "\<And>ds r b b'. add_entry xc b (zr_path r) (zr_is_dir r) (record_meta r) = Ok b' \<Longrightarrow>
      length (b_nodes b') \<le> u32_max \<Longrightarrow> builder_wf b \<Longrightarrow> P ds b \<Longrightarrow> P (ds @ [r]) b'"
  shows "builder_wf b' \<and> P rs b'"
proof -
  have "builder_wf b' \<and> P (ds @ rs) b'"
    if "add_records xc (map Inr rs) b = Ok b'" "builder_wf b" "P ds b" for rs ds b
    using that
  proof (induction rs arbitrary: b ds)
    case (Cons r rs)
    then obtain b1 where a: "add_entry xc b (zr_path r) (zr_is_dir r) (record_meta r) = Ok b1"
      and rest: "add_records xc (map Inr rs) b1 = Ok b'" by auto
    have small: "length (b_nodes b1) \<le> u32_max" using add_records_length [OF rest] assms(2) by simp
    have "builder_wf b1" using add_entry_refines [OF Cons.prems(2) a small] by simp
    moreover have "P (ds @ [r]) b1" using assms(5) [OF a small Cons.prems(2,3)] .
    ultimately show ?case using Cons.IH [OF rest, of "ds @ [r]"] by simp
  qed simp
  from this [OF assms(1,3,4)] show ?thesis by simp
qed

lemma add_records_refines:
  assumes "add_records xc (map Inr rs) b = Ok b'" and "length (b_nodes b') \<le> u32_max" and "builder_wf b"
  shows "builder_wf b'" and "view b' = fold (spec_record xc) rs (view b)"
proof -
  have "builder_wf b' \<and> view b' = fold (spec_record xc) rs (view b)"
    using assms by (rule add_records_induct) (auto simp: spec_record_def dest: add_entry_refines)
  then show "builder_wf b'" and "view b' = fold (spec_record xc) rs (view b)" by auto
qed

end
