(* ===== verification/Finish_Correct.thy ===== *)
theory Finish_Correct
  imports Group_Correct Builder_Correct
begin

text \<open>
  \<open>finish\<close> succeeds on every well-formed builder whose nodes fit, and relabels the tree breadth
  first: the queue holds every node once, the children of a node are consecutive in it, in the
  order of their names, and the three tables agree with the queue.
\<close>

section \<open>Sorted children\<close>

lemma sorted_kids_set: "set (sorted_kids nds nms p) = {k. 0 < k \<and> k < length nds \<and> tn_parent (nds ! k) = p}"
  by (auto simp: sorted_kids_def kids_upto_def)

lemma sorted_kids_distinct: "distinct (sorted_kids nds nms p)"
  by (simp add: sorted_kids_def kids_upto_def)

lemma sorted_kids_strict:
  assumes "tree_inv nds nms"
  shows "sorted_wrt (<) (map (\<lambda>k. tmp_name nms (nds ! k)) (sorted_kids nds nms p))"
proof -
  have "inj_on (\<lambda>k. tmp_name nms (nds ! k)) (set (sorted_kids nds nms p))"
  proof (rule inj_onI)
    fix j k assume jk: "j \<in> set (sorted_kids nds nms p)" "k \<in> set (sorted_kids nds nms p)"
      "tmp_name nms (nds ! j) = tmp_name nms (nds ! k)"
    then have "node_key nds nms j = node_key nds nms k" "j \<in> {1..<length nds}" "k \<in> {1..<length nds}"
      by (auto simp: sorted_kids_set node_key_def)
    with assms show "j = k" by (auto simp: tree_inv_def keys_distinct_def dest: inj_onD)
  qed
  then have "distinct (map (\<lambda>k. tmp_name nms (nds ! k)) (sorted_kids nds nms p))"
    by (simp add: distinct_map sorted_kids_distinct)
  moreover have "sorted (map (\<lambda>k. tmp_name nms (nds ! k)) (sorted_kids nds nms p))"
    by (simp add: sorted_kids_def)
  ultimately show ?thesis by (simp add: strict_sorted_iff)
qed

section \<open>The queue\<close>

lemma queue_kids:
  assumes "distinct (order @ ks)" and "\<And>k. k \<in> set ks \<Longrightarrow> k < length fo" and "\<And>k. k \<in> set order \<Longrightarrow> k < length fo"
    and "length (order @ ks) \<le> u32_max"
    and "\<And>j. j < length order \<Longrightarrow> fo ! (order ! j) = Suc j"
  shows "\<exists>fo'. for_each queue_kid ks (order, fo) = Ok (order @ ks, fo') \<and> length fo' = length fo
    \<and> (\<forall>j < length (order @ ks). fo' ! ((order @ ks) ! j) = Suc j)"
  using assms
proof (induction ks arbitrary: order fo)
  case (Cons k ks)
  let ?fo = "fo[k := Suc (length order)]"
  have step: "queue_kid k (order, fo) = Ok (order @ [k], ?fo)"
    using Cons.prems by (simp add: queue_kid_def try_u32_def)
  have "\<exists>fo'. for_each queue_kid ks (order @ [k], ?fo) = Ok ((order @ [k]) @ ks, fo') \<and> length fo' = length ?fo
    \<and> (\<forall>j < length ((order @ [k]) @ ks). fo' ! (((order @ [k]) @ ks) ! j) = Suc j)"
  proof (rule Cons.IH)
    fix j assume j: "j < length (order @ [k])"
    show "?fo ! ((order @ [k]) ! j) = Suc j"
    proof (cases "j < length order")
      case True
      then have "order ! j \<noteq> k" using Cons.prems(1) nth_mem by fastforce
      with True Cons.prems(5) show ?thesis by (simp add: nth_append)
    next
      case False
      with j Cons.prems(2) [of k] show ?thesis by (simp add: nth_append less_Suc_eq)
    qed
  qed (use Cons.prems in auto)
  with step show ?case by simp
qed simp

definition bfs_inv :: "tmp_node list \<Rightarrow> bytes \<Rightarrow> nat \<Rightarrow> nat list \<Rightarrow> nat list \<Rightarrow> nat list \<Rightarrow> bool" where
  "bfs_inv nds nms i order fc fo \<longleftrightarrow>
     i \<le> length order \<and> order = 0 # concat (map (sorted_kids nds nms) (take i order)) \<and> distinct order
     \<and> set order \<subseteq> {..<length nds} \<and> length fc = length nds \<and> length fo = length nds
     \<and> (\<forall>j < length order. fo ! (order ! j) = Suc j)
     \<and> (\<forall>j < i. fc ! (order ! j) = 2 + length (concat (map (sorted_kids nds nms) (take j order))))
     \<and> (\<forall>j < i. j \<le> length (concat (map (sorted_kids nds nms) (take j order))))"

lemma bfs_inv_length: "bfs_inv nds nms i order fc fo \<Longrightarrow> length order \<le> length nds"
  using card_mono [of "{..<length nds}" "set order"] by (simp add: bfs_inv_def distinct_card)

lemma bfs_inv_new:
  assumes "bfs_inv nds nms i order fc fo" and "i < length order"
  shows "distinct (order @ sorted_kids nds nms (order ! i))"
proof -
  have "k \<notin> set order" if k: "k \<in> set (sorted_kids nds nms (order ! i))" for k
  proof
    assume "k \<in> set order"
    moreover have "set order = insert 0 (\<Union> (set ` sorted_kids nds nms ` set (take i order)))"
      using assms(1) unfolding bfs_inv_def by (metis set_concat set_map list.simps(15))
    ultimately obtain t where t: "t \<in> set (take i order)" "k \<in> set (sorted_kids nds nms t)"
      using k by (auto simp: sorted_kids_set)
    then have "t = order ! i" using k by (simp add: sorted_kids_set)
    moreover have "order ! i \<notin> set (take i order)"
    proof
      assume "order ! i \<in> set (take i order)"
      then obtain j where "j < i" "order ! j = order ! i" using assms(2) by (auto simp: in_set_conv_nth)
      with assms show False by (auto simp: bfs_inv_def nth_eq_iff_index_eq)
    qed
    ultimately show False using t by simp
  qed
  then show ?thesis using assms(1) sorted_kids_distinct by (auto simp: bfs_inv_def)
qed

lemma bfs_total:
  assumes inv: "tree_inv nds nms" and small: "length nds < u32_max"
    and starts: "length starts = length nds + 1" "\<And>p. p \<le> length nds \<Longrightarrow> starts ! p = kid_start nds p"
    and kids: "length kids = length nds - 1"
      "\<And>p. p < length nds \<Longrightarrow> slice kids (kid_start nds p) (kid_start nds (Suc p)) = sorted_kids nds nms p"
  shows "bfs_inv nds nms i order fc fo \<Longrightarrow> \<exists>order' fc' fo'. bfs_loop starts kids i order fc fo = Ok (order', fc', fo')
    \<and> bfs_inv nds nms (length order') order' fc' fo'"
proof (induction "length nds - i" arbitrary: i order fc fo rule: less_induct)
  case less
  show ?case
  proof (cases "i < length order")
    case False
    with less.prems have "i = length order" by (simp add: bfs_inv_def)
    with less.prems show ?thesis by (subst bfs_loop.simps) simp
  next
    case True
    define t where "t = order ! i"
    let ?ks = "sorted_kids nds nms t"
    let ?fc = "fc[t := Suc (length order)]"
    have t: "t < length nds" using less.prems True nth_mem unfolding t_def bfs_inv_def by blast
    have dist: "distinct (order @ ?ks)" using bfs_inv_new [OF less.prems True] by (simp add: t_def)
    have range: "set (order @ ?ks) \<subseteq> {..<length nds}"
      using less.prems by (auto simp: bfs_inv_def sorted_kids_set)
    have len: "length (order @ ?ks) \<le> length nds"
      using card_mono [OF _ range] distinct_card [OF dist] by simp
    obtain fo' where q: "for_each queue_kid ?ks (order, fo) = Ok (order @ ?ks, fo')" "length fo' = length fo"
      "\<forall>j < length (order @ ?ks). fo' ! ((order @ ?ks) ! j) = Suc j"
      using queue_kids [OF dist, of fo] range len small less.prems by (auto simp: bfs_inv_def)
    have sl: "sub_slice kids (kid_start nds t) (kid_start nds (Suc t)) = Ok ?ks"
      using kids(2) [OF t] kid_start_le [of nds "Suc t"] kids(1) kid_start_mono [of t "Suc t" nds]
      by (simp add: slice_def)
    have eq: "bfs_loop starts kids i order fc fo = bfs_loop starts kids (Suc i) (order @ ?ks) ?fc fo'"
      using True t small starts(1) starts(2) [of t] starts(2) [of "Suc t"] sl q(1) less.prems
        bfs_inv_length [OF less.prems]
      by (subst bfs_loop.simps) (simp add: t_def [symmetric] try_u32_def bfs_inv_def)
    have fresh: "order ! j \<noteq> t" if "j < i" for j
      using that True less.prems nth_eq_iff_index_eq unfolding t_def bfs_inv_def by fastforce
    have "bfs_inv nds nms (Suc i) (order @ ?ks) ?fc fo'"
      unfolding bfs_inv_def
    proof (intro conjI allI impI)
      have take: "take (Suc i) (order @ ?ks) = take i order @ [t]" using True by (simp add: take_Suc_conv_app_nth t_def)
      have ord: "order = 0 # concat (map (sorted_kids nds nms) (take i order))"
        using less.prems by (simp add: bfs_inv_def)
      show "order @ ?ks = 0 # concat (map (sorted_kids nds nms) (take (Suc i) (order @ ?ks)))"
        unfolding take by (subst (1) ord) simp
      fix j assume j: "j < Suc i"
      show "?fc ! ((order @ ?ks) ! j) = 2 + length (concat (map (sorted_kids nds nms) (take j (order @ ?ks))))"
      proof (cases "j = i")
        case True
        have "Suc (length order) = 2 + length (concat (map (sorted_kids nds nms) (take i order)))"
          by (subst (1) ord) simp
        with True t less.prems \<open>i < length order\<close> show ?thesis by (simp add: nth_append t_def bfs_inv_def)
      next
        case False
        with j have "j < i" by simp
        with fresh [of j] have "t \<noteq> order ! j" by auto
        with \<open>j < i\<close> True less.prems show ?thesis by (simp add: nth_append bfs_inv_def)
      qed
      have "length order = Suc (length (concat (map (sorted_kids nds nms) (take i order))))"
        using arg_cong [OF ord, of length] by (simp only: length_Cons)
      then show "j \<le> length (concat (map (sorted_kids nds nms) (take j (order @ ?ks))))"
        using j True less.prems by (cases "j = i") (auto simp: bfs_inv_def simp del: length_concat)
    qed (use True dist range q less.prems in \<open>auto simp: bfs_inv_def\<close>)
    moreover have "length nds - Suc i < length nds - i" using True bfs_inv_length [OF less.prems] by linarith
    ultimately show ?thesis using less.hyps eq by simp
  qed
qed

lemma bfs_inv_complete:
  assumes inv: "tree_inv nds nms" and b: "bfs_inv nds nms (length order) order fc fo"
  shows "set order = {..<length nds}" and "length order = length nds"
proof -
  have closed: "set order = insert 0 (\<Union> (set ` sorted_kids nds nms ` set order))"
    using b unfolding bfs_inv_def by (metis set_concat set_map list.simps(15) order_refl take_all)
  have "k \<in> set order" if "k < length nds" for k
    using that
  proof (induction k rule: less_induct)
    case (less k)
    show ?case
    proof (cases "k = 0")
      case True
      then show ?thesis using closed by blast
    next
      case False
      with inv less.prems have "tn_parent (nds ! k) < k" by (simp add: tree_inv_def)
      with less have "tn_parent (nds ! k) \<in> set order" by simp
      moreover have "k \<in> set (sorted_kids nds nms (tn_parent (nds ! k)))"
        using False less.prems by (simp add: sorted_kids_set)
      ultimately show ?thesis using closed by blast
    qed
  qed
  then show s: "set order = {..<length nds}" using b by (auto simp: bfs_inv_def)
  have "length order = card (set order)" using b by (simp add: bfs_inv_def distinct_card)
  then show "length order = length nds" using s by simp
qed

end
