(* ===== verification/Index_Tree.thy ===== *)
theory Index_Tree
  imports Index_Types
begin

text \<open>
  The read side of \<^verbatim>\<open>src/index.rs\<close>: the accessors of \<open>Index\<close> and the lookup of a name in a
  directory, with the binary search of the standard library it calls. A suffix \<open>_of\<close> marks an
  accessor whose plain name is a record field. \<open>index_wf\<close> is what the accessors rely on.
\<close>

section \<open>Accessors\<close>

definition node_of :: "'w index \<Rightarrow> nat \<Rightarrow> node option" where
  "node_of idx ino =
     (if ino = 0 then None
      else case try_usize ino of
        None \<Rightarrow> None
      | Some i \<Rightarrow> if i < length (nodes idx) then Some (nodes idx ! i) else None)"

definition meta_of :: "'w index \<Rightarrow> node \<Rightarrow> 'w entry_meta option" where
  "meta_of idx nd =
     (if meta_idx nd = NO_META then None
      else if meta_idx nd < length (metas idx) then Some (metas idx ! meta_idx nd) else None)"

definition name_of :: "'w index \<Rightarrow> node \<Rightarrow> bytes result" where
  "name_of idx nd = sub_slice (names idx) (name_off nd) (name_off nd + name_len nd)"

definition children :: "'w index \<Rightarrow> node \<Rightarrow> node list result" where
  "children idx nd =
     (if kind nd \<noteq> Dir then Ok []
      else sub_slice (nodes idx) (first_child nd) (first_child nd + child_len nd))"

definition first_child_ino :: "'w index \<Rightarrow> node \<Rightarrow> nat" where
  "first_child_ino idx nd = first_child nd"

definition len :: "'w index \<Rightarrow> nat" where
  "len idx = length (nodes idx)"

definition is_empty :: "'w index \<Rightarrow> bool" where
  "is_empty idx \<longleftrightarrow> length (nodes idx) \<le> 2"

definition symlink :: "'w index \<Rightarrow> nat \<Rightarrow> bytes option" where
  "symlink idx slot = (if slot < length (symlinks idx) then symlinks idx ! slot else None)"

text \<open>The first writer of a \<open>OnceLock\<close> wins; both calls return what the cell holds.\<close>

definition set_symlink :: "'w index \<Rightarrow> nat \<Rightarrow> bytes \<Rightarrow> 'w index \<times> bytes option" where
  "set_symlink idx slot target =
     (if slot < length (symlinks idx) then
        let cell = (case symlinks idx ! slot of None \<Rightarrow> Some target | Some t \<Rightarrow> Some t)
        in (idx\<lparr>symlinks := (symlinks idx)[slot := cell]\<rparr>, cell)
      else (idx, None))"

section \<open>Binary search\<close>

datatype ordering = Less | Equal | Greater

definition compare :: "bytes \<Rightarrow> bytes \<Rightarrow> ordering" where
  "compare a b = (if a < b then Less else if a = b then Equal else Greater)"

text \<open>\<open>slice::binary_search_by\<close>: the window starts at \<open>base\<close> and has \<open>sz\<close> elements.\<close>

function search_loop :: "('a \<Rightarrow> ordering result) \<Rightarrow> 'a list \<Rightarrow> nat \<Rightarrow> nat \<Rightarrow> nat result" where
  "search_loop f xs base sz =
     (if 1 < sz then
        let half = sz div 2; mid = base + half in
        rbind (at xs mid) (\<lambda>x. rbind (f x) (\<lambda>c.
          search_loop f xs (if c = Greater then base else mid) (sz - half)))
      else Ok base)"
  by pat_completeness auto
termination
  by (relation "measure (\<lambda>(f, xs, base, sz). sz)") auto

declare search_loop.simps [simp del]

definition binary_search_by :: "('a \<Rightarrow> ordering result) \<Rightarrow> 'a list \<Rightarrow> (nat option) result" where
  "binary_search_by f xs =
     (if xs = [] then Ok None
      else rbind (search_loop f xs 0 (length xs)) (\<lambda>base.
        rbind (at xs base) (\<lambda>x. rbind (f x) (\<lambda>c. Ok (if c = Equal then Some base else None)))))"

definition lookup :: "'w index \<Rightarrow> nat \<Rightarrow> bytes \<Rightarrow> (nat option) result" where
  "lookup idx par nm =
     (case node_of idx par of
        None \<Rightarrow> Ok None
      | Some dir \<Rightarrow>
          if kind dir \<noteq> Dir then Ok None
          else
            rbind (sub_slice (nodes idx) (first_child dir) (first_child dir + child_len dir)) (\<lambda>kids.
            rbind (binary_search_by (\<lambda>c. rbind (name_of idx c) (\<lambda>n. Ok (compare n nm))) kids) (\<lambda>found.
            Ok (map_option (\<lambda>i. first_child dir + i) found))))"

section \<open>Binary search finds what is there\<close>

text \<open>The answer is in the window, if it is anywhere.\<close>

lemma search_loop_window:
  assumes f: "\<And>i. i < length xs \<Longrightarrow> f (xs ! i) = Ok (compare (ks ! i) key)"
    and ks: "length ks = length xs" "sorted_wrt (<) ks"
  shows "0 < sz \<Longrightarrow> base + sz \<le> length xs \<Longrightarrow>
    \<exists>b. search_loop f xs base sz = Ok b \<and> base \<le> b \<and> b < base + sz
      \<and> (\<forall>i. base \<le> i \<and> i < base + sz \<and> ks ! i = key \<longrightarrow> i = b)"
proof (induction sz arbitrary: base rule: less_induct)
  case (less sz)
  show ?case
  proof (cases "1 < sz")
    case False
    with less.prems have "sz = 1" by simp
    then show ?thesis by (subst search_loop.simps) auto
  next
    case True
    define half where "half = sz div 2"
    define mid where "mid = base + half"
    define nb where "nb = (if compare (ks ! mid) key = Greater then base else mid)"
    have half: "0 < half" "half < sz" "half \<le> sz - half" using True by (auto simp: half_def)
    with less.prems have mid: "mid < length xs" by (simp add: mid_def)
    have eq: "search_loop f xs base sz = search_loop f xs nb (sz - half)"
      using True mid f unfolding nb_def mid_def half_def by (subst search_loop.simps) (simp add: Let_def)
    have nb: "base \<le> nb" "nb + (sz - half) \<le> base + sz" using half(1,2) by (auto simp: nb_def mid_def)
    have mono: "ks ! i < ks ! j" if "i < j" "j < length xs" for i j
      using that ks by (auto intro: sorted_wrt_nth_less)
    obtain b where b: "search_loop f xs nb (sz - half) = Ok b" "nb \<le> b" "b < nb + (sz - half)"
      "\<forall>i. nb \<le> i \<and> i < nb + (sz - half) \<and> ks ! i = key \<longrightarrow> i = b"
      using less.IH [of "sz - half" nb] half(1,2) nb less.prems by auto
    have inside: "nb \<le> i \<and> i < nb + (sz - half)" if i: "base \<le> i" "i < base + sz" "ks ! i = key" for i
    proof (cases "compare (ks ! mid) key = Greater")
      case True
      then have "key < ks ! mid" by (auto simp: compare_def split: if_splits)
      moreover have "i < length xs" using i(2) less.prems(2) by simp
      ultimately have "\<not> mid < i" "i \<noteq> mid" using i(3) mono [of mid i] by auto
      with half i(1) True show ?thesis by (simp add: nb_def mid_def)
    next
      case False
      then have "ks ! mid \<le> key" by (auto simp: compare_def split: if_splits)
      with i(3) mono [of i mid] mid have "\<not> i < mid" by auto
      with half(1,2) i(2) False show ?thesis by (simp add: nb_def mid_def)
    qed
    have "\<forall>i. base \<le> i \<and> i < base + sz \<and> ks ! i = key \<longrightarrow> i = b" using inside b(4) by blast
    moreover have "base \<le> b" "b < base + sz" using b(2,3) nb by linarith+
    moreover have "search_loop f xs base sz = Ok b" using eq b(1) by (rule trans)
    ultimately show ?thesis by (intro exI [of _ b] conjI)
  qed
qed

lemma binary_search_by_ok:
  assumes f: "\<And>i. i < length xs \<Longrightarrow> f (xs ! i) = Ok (compare (ks ! i) key)"
    and ks: "length ks = length xs" "sorted_wrt (<) ks"
  shows "\<exists>r. binary_search_by f xs = Ok r
    \<and> (\<forall>i. r = Some i \<longleftrightarrow> i < length xs \<and> ks ! i = key)"
proof (cases "xs = []")
  case False
  then have "0 < length xs" "0 + length xs \<le> length xs" by auto
  from search_loop_window [OF f ks this] obtain b where b: "search_loop f xs 0 (length xs) = Ok b"
    "b < 0 + length xs" "\<forall>i. 0 \<le> i \<and> i < 0 + length xs \<and> ks ! i = key \<longrightarrow> i = b" by blast
  have "binary_search_by f xs = Ok (if ks ! b = key then Some b else None)"
    using False b(1,2) f [of b] by (simp add: binary_search_by_def compare_def)
  moreover have "(if ks ! b = key then Some b else None) = Some i \<longleftrightarrow> i < length xs \<and> ks ! i = key" for i
    using b(2) b(3) [rule_format, of i] by auto
  ultimately show ?thesis by blast
qed (simp add: binary_search_by_def)

section \<open>Well-formed trees\<close>

definition ino_name :: "'w index \<Rightarrow> nat \<Rightarrow> bytes" where
  "ino_name idx i = take (name_len (nodes idx ! i)) (drop (name_off (nodes idx ! i)) (names idx))"

abbreviation child_inos :: "node \<Rightarrow> nat list" where
  "child_inos nd \<equiv> [first_child nd..<first_child nd + child_len nd]"

text \<open>A node and the slice of its children: in range, theirs, sorted, and counted.\<close>

definition kids_wf :: "'w index \<Rightarrow> nat \<Rightarrow> bool" where
  "kids_wf idx i \<longleftrightarrow> (let nd = nodes idx ! i in
     first_child nd + child_len nd \<le> length (nodes idx)
     \<and> (kind nd \<noteq> Dir \<longrightarrow> child_len nd = 0)
     \<and> list_all (\<lambda>j. i < j \<and> parent (nodes idx ! j) = i) (child_inos nd)
     \<and> sorted_wrt (<) (map (ino_name idx) (child_inos nd))
     \<and> subdir_count nd = length (filter (\<lambda>j. kind (nodes idx ! j) = Dir) (child_inos nd)))"

text \<open>A node and its place: the root is its own parent, any other is in its parent's slice.\<close>

definition place_wf :: "'w index \<Rightarrow> nat \<Rightarrow> bool" where
  "place_wf idx i \<longleftrightarrow> (let nd = nodes idx ! i in
     name_off nd + name_len nd \<le> length (names idx)
     \<and> (if i = ROOT_INO then parent nd = ROOT_INO \<and> kind nd = Dir
        else 0 < parent nd \<and> parent nd < i \<and> i \<in> set (child_inos (nodes idx ! parent nd))))"

text \<open>A node and its entry: a synthetic node is a directory without one.\<close>

definition entry_wf :: "'w index \<Rightarrow> nat \<Rightarrow> bool" where
  "entry_wf idx i \<longleftrightarrow> (let nd = nodes idx ! i in
     (if synthetic (flags nd) then kind nd = Dir \<and> meta_idx nd = NO_META
      else meta_idx nd < length (metas idx) \<and> meta_idx nd \<noteq> NO_META)
     \<and> (kind nd = Symlink \<longrightarrow> symlink_slot (metas idx ! meta_idx nd) < length (symlinks idx)))"

definition index_wf :: "'w index \<Rightarrow> bool" where
  "index_wf idx \<longleftrightarrow> 2 \<le> length (nodes idx) \<and> length (nodes idx) \<le> u32_max
     \<and> list_all (\<lambda>i. kids_wf idx i \<and> place_wf idx i \<and> entry_wf idx i) [1..<length (nodes idx)]"

lemma index_wfD:
  assumes "index_wf idx" and "0 < i" and "i < length (nodes idx)"
  shows "kids_wf idx i" and "place_wf idx i" and "entry_wf idx i"
  using assms by (auto simp: index_wf_def list_all_iff)

lemma node_of_Some:
  assumes "index_wf idx"
  shows "node_of idx i = Some nd \<longleftrightarrow> 0 < i \<and> i < length (nodes idx) \<and> nd = nodes idx ! i"
  using assms by (auto simp: node_of_def index_wf_def try_usize_def)

lemma name_of_ok:
  assumes "index_wf idx" and "0 < i" and "i < length (nodes idx)"
  shows "name_of idx (nodes idx ! i) = Ok (ino_name idx i)"
  using index_wfD(2) [OF assms] by (simp add: name_of_def place_wf_def Let_def ino_name_def)

text \<open>An edge of the tree.\<close>

definition index_edge :: "'w index \<Rightarrow> nat \<Rightarrow> bytes \<Rightarrow> nat \<Rightarrow> bool" where
  "index_edge idx p nm i \<longleftrightarrow> ROOT_INO < i \<and> i < length (nodes idx)
     \<and> parent (nodes idx ! i) = p \<and> ino_name idx i = nm"

lemma kids_wf_kid:
  "kids_wf idx p \<Longrightarrow> i \<in> set (child_inos (nodes idx ! p)) \<Longrightarrow> p < i \<and> i < length (nodes idx) \<and> parent (nodes idx ! i) = p"
  by (auto simp: kids_wf_def Let_def list_all_iff)

lemma index_edge_kid:
  assumes wf: "index_wf idx"
  shows "index_edge idx p nm i \<longleftrightarrow> 0 < p \<and> p < length (nodes idx) \<and> kind (nodes idx ! p) = Dir
    \<and> i \<in> set (child_inos (nodes idx ! p)) \<and> ino_name idx i = nm"
proof
  assume e: "index_edge idx p nm i"
  then have i: "0 < i" "i < length (nodes idx)" "i \<noteq> ROOT_INO" by (auto simp: index_edge_def ROOT_INO_def)
  with e index_wfD(2) [OF wf i(1,2)] have p: "0 < p" "p < i" "i \<in> set (child_inos (nodes idx ! p))"
    by (auto simp: place_wf_def index_edge_def Let_def)
  with i have "kids_wf idx p" by (intro index_wfD(1) [OF wf]) auto
  with p(3) have "kind (nodes idx ! p) = Dir" by (auto simp: kids_wf_def Let_def)
  with p i e show "0 < p \<and> p < length (nodes idx) \<and> kind (nodes idx ! p) = Dir
    \<and> i \<in> set (child_inos (nodes idx ! p)) \<and> ino_name idx i = nm" by (auto simp: index_edge_def)
next
  assume r: "0 < p \<and> p < length (nodes idx) \<and> kind (nodes idx ! p) = Dir
    \<and> i \<in> set (child_inos (nodes idx ! p)) \<and> ino_name idx i = nm"
  then have "p < i \<and> i < length (nodes idx) \<and> parent (nodes idx ! i) = p"
    by (intro kids_wf_kid index_wfD(1) [OF wf]) auto
  with r show "index_edge idx p nm i" by (simp add: index_edge_def ROOT_INO_def)
qed

lemma lookup_ok:
  assumes wf: "index_wf idx"
  shows "\<exists>r. lookup idx p nm = Ok r \<and> (\<forall>i. r = Some i \<longleftrightarrow> index_edge idx p nm i)"
proof (cases "0 < p \<and> p < length (nodes idx) \<and> kind (nodes idx ! p) = Dir")
  case False
  have "lookup idx p nm = Ok None"
  proof (cases "node_of idx p")
    case (Some nd)
    with False have "kind nd \<noteq> Dir" using node_of_Some [OF wf, of p nd] by auto
    with Some show ?thesis by (simp add: lookup_def)
  qed (simp add: lookup_def)
  moreover have "\<not> index_edge idx p nm i" for i using False index_edge_kid [OF wf] by blast
  ultimately show ?thesis by simp
next
  case True
  let ?nd = "nodes idx ! p"
  let ?kids = "take (child_len ?nd) (drop (first_child ?nd) (nodes idx))"
  have kw: "kids_wf idx p" using index_wfD(1) [OF wf] True by simp
  then have fit: "first_child ?nd + child_len ?nd \<le> length (nodes idx)" by (simp add: kids_wf_def Let_def)
  let ?f = "\<lambda>c. rbind (name_of idx c) (\<lambda>n. Ok (compare n nm)) :: ordering result"
  have f: "?f (?kids ! i) = Ok (compare (map (ino_name idx) (child_inos ?nd) ! i) nm)" if "i < length ?kids" for i
  proof -
    have "p < first_child ?nd + i" "first_child ?nd + i < length (nodes idx)"
      using that kw fit by (auto simp: kids_wf_def Let_def list_all_iff)
    then have "name_of idx (nodes idx ! (first_child ?nd + i)) = Ok (ino_name idx (first_child ?nd + i))"
      by (intro name_of_ok [OF wf]) auto
    then show ?thesis using that fit by simp
  qed
  have "\<exists>r. binary_search_by ?f ?kids = Ok r
      \<and> (\<forall>i. r = Some i \<longleftrightarrow> i < length ?kids \<and> map (ino_name idx) (child_inos ?nd) ! i = nm)"
    using fit kw by (intro binary_search_by_ok [OF f]) (auto simp: kids_wf_def Let_def)
  then obtain r where r1: "binary_search_by ?f ?kids = Ok r"
    and r2: "\<forall>i. r = Some i \<longleftrightarrow> i < length ?kids \<and> map (ino_name idx) (child_inos ?nd) ! i = nm" by blast
  have r: "r = Some i \<longleftrightarrow> i < child_len ?nd \<and> ino_name idx (first_child ?nd + i) = nm" for i
    using r2 [rule_format, of i] fit by (cases "i < child_len ?nd") simp_all
  have "lookup idx p nm = Ok (map_option (\<lambda>i. first_child ?nd + i) r)"
    using True fit r1 node_of_Some [OF wf, of p ?nd] by (simp add: lookup_def)
  moreover have "map_option (\<lambda>i. first_child ?nd + i) r = Some i \<longleftrightarrow> index_edge idx p nm i" for i
  proof -
    have "map_option (\<lambda>i. first_child ?nd + i) r = Some i \<longleftrightarrow> first_child ?nd \<le> i \<and> r = Some (i - first_child ?nd)"
      by (cases r) auto
    also have "\<dots> \<longleftrightarrow> i \<in> set (child_inos ?nd) \<and> ino_name idx i = nm"
      unfolding r by (cases "first_child ?nd \<le> i") auto
    finally show ?thesis unfolding index_edge_kid [OF wf] using True by simp
  qed
  ultimately show ?thesis by blast
qed

section \<open>The tree as an interface\<close>

text \<open>
  What the file system relies on: a lookup is total and finds exactly the edges, an edge leads to
  a larger number, and a node has one edge into it. Then a path leads to at most one node, and a
  node is reached by at most one path.
\<close>

fun walk_with :: "(nat \<Rightarrow> bytes \<Rightarrow> (nat option) result) \<Rightarrow> nat \<Rightarrow> bytes list \<Rightarrow> (nat option) result" where
  "walk_with look cur [] = Ok (Some cur)"
| "walk_with look cur (c # cs) =
     rbind (look cur c) (\<lambda>r. case r of None \<Rightarrow> Ok None | Some i \<Rightarrow> walk_with look i cs)"

locale tree_lookup =
  fixes invar :: "'t \<Rightarrow> bool"
    and look :: "'t \<Rightarrow> nat \<Rightarrow> bytes \<Rightarrow> (nat option) result"
    and edge :: "'t \<Rightarrow> nat \<Rightarrow> bytes \<Rightarrow> nat \<Rightarrow> bool"
  assumes look_total: "invar t \<Longrightarrow> \<exists>r. look t p nm = Ok r"
    and look_edge: "invar t \<Longrightarrow> look t p nm = Ok (Some i) \<longleftrightarrow> edge t p nm i"
    and edge_up: "invar t \<Longrightarrow> edge t p nm i \<Longrightarrow> p < i"
    and edge_in: "invar t \<Longrightarrow> edge t p nm i \<Longrightarrow> edge t q nm' i \<Longrightarrow> p = q \<and> nm = nm'"
begin

lemma walk_total: "invar t \<Longrightarrow> \<exists>r. walk_with (look t) cur q = Ok r"
proof (induction q arbitrary: cur)
  case (Cons c q)
  obtain r where "look t cur c = Ok r" using look_total Cons.prems by blast
  with Cons show ?case by (cases r) auto
qed simp

lemma walk_snoc:
  assumes "invar t"
  shows "walk_with (look t) cur (q @ [c]) = Ok (Some i) \<longleftrightarrow>
    (\<exists>j. walk_with (look t) cur q = Ok (Some j) \<and> edge t j c i)"
proof (induction q arbitrary: cur)
  case Nil
  obtain r where "look t cur c = Ok r" using look_total assms by blast
  then show ?case using look_edge [OF assms, of cur c i] by (cases r) auto
next
  case (Cons d q)
  obtain r where "look t cur d = Ok r" using look_total assms by blast
  then show ?case using Cons.IH by (cases r) auto
qed

lemma walk_up: "invar t \<Longrightarrow> walk_with (look t) cur q = Ok (Some i) \<Longrightarrow> cur + length q \<le> i"
proof (induction q arbitrary: i rule: rev_induct)
  case (snoc c q)
  then obtain j where "walk_with (look t) cur q = Ok (Some j)" "edge t j c i" by (auto simp: walk_snoc)
  with snoc edge_up show ?case by fastforce
qed simp

lemma walk_unique:
  assumes "invar t"
  shows "walk_with (look t) cur q = Ok (Some i) \<Longrightarrow> walk_with (look t) cur r = Ok (Some i) \<Longrightarrow> q = r"
proof (induction q arbitrary: i r rule: rev_induct)
  case Nil
  then show ?case using walk_up [OF assms Nil(2)] by (cases r) auto
next
  case (snoc c q)
  have "r \<noteq> []" using walk_up [OF assms snoc.prems(1)] snoc.prems(2) by auto
  then obtain r' d where r: "r = r' @ [d]" by (cases r rule: rev_cases) auto
  from snoc.prems r obtain j k where "walk_with (look t) cur q = Ok (Some j)" "edge t j c i"
    "walk_with (look t) cur r' = Ok (Some k)" "edge t k d i" by (auto simp: walk_snoc [OF assms])
  with edge_in [OF assms] snoc.IH r show ?case by blast
qed

end

interpretation tree: tree_lookup index_wf lookup index_edge
proof unfold_locales
  fix idx :: "'w index" and p nm i
  assume wf: "index_wf idx"
  from lookup_ok [OF wf, of p nm] obtain r where r: "lookup idx p nm = Ok r"
    "\<forall>i. r = Some i \<longleftrightarrow> index_edge idx p nm i" by blast
  then show "\<exists>r. lookup idx p nm = Ok r" by blast
  show "lookup idx p nm = Ok (Some i) \<longleftrightarrow> index_edge idx p nm i" using r(1) r(2) [rule_format, of i] by simp
  show "p < i" if "index_edge idx p nm i"
    using that index_wfD(1) [OF wf, of p] unfolding index_edge_kid [OF wf]
    by (blast dest: kids_wf_kid)
qed (auto simp: index_edge_def)

abbreviation index_walk :: "'w index \<Rightarrow> bytes list \<Rightarrow> (nat option) result" where
  "index_walk idx q \<equiv> walk_with (lookup idx) ROOT_INO q"

lemma index_walk_range: "index_wf idx \<Longrightarrow> index_walk idx q = Ok (Some i) \<Longrightarrow> 0 < i \<and> i < length (nodes idx)"
  by (cases q rule: rev_cases) (auto simp: tree.walk_snoc index_edge_def index_wf_def ROOT_INO_def)

end
