(* ===== verification/Builder_Counts.thy ===== *)
theory Builder_Counts
  imports Builder_Correct
begin

text \<open>
  What the counters of \<open>BuildStats\<close> mean: how many nodes are synthetic, how many entries hold a
  node, and that no record of the central directory goes missing from the counts.
\<close>

lemma length_filter_update:
  "i < length xs \<Longrightarrow> length (filter P (xs[i := x])) + of_bool (P (xs ! i)) = length (filter P xs) + of_bool (P x)"
proof (induction xs arbitrary: i)
  case (Cons y ys)
  show ?case
  proof (cases i)
    case (Suc j)
    with Cons.prems Cons.IH [of j] show ?thesis by auto
  qed simp
qed simp

definition n_synthetic :: "'w builder \<Rightarrow> nat" where
  "n_synthetic b = length (filter (\<lambda>n. synthetic (tn_flags n)) (b_nodes b))"

definition n_claimed :: "'w builder \<Rightarrow> nat" where
  "n_claimed b = length (filter (\<lambda>n. \<not> synthetic (tn_flags n)) (b_nodes b))"

definition counts_wf :: "'w builder \<Rightarrow> bool" where
  "counts_wf b \<longleftrightarrow> n_synthetic b = Suc (st_synthetic_dirs (b_stats b))
     \<and> length (b_metas b) = st_entries (b_stats b) \<and> b_symlink_count b = st_symlinks (b_stats b)"

text \<open>Every record holds a node, lost one, or was turned away.\<close>

definition accounted :: "'w builder \<Rightarrow> nat" where
  "accounted b = n_claimed b + st_duplicates (b_stats b) + st_rejected_paths (b_stats b)
     + st_rejected_sizes (b_stats b)"

lemma counts_new: "counts_wf (builder_new hint)" "accounted (builder_new hint) = 0"
  by (simp_all add: counts_wf_def accounted_def n_synthetic_def n_claimed_def builder_new_def stats_default_def)

lemma take_over_counts:
  assumes wf: "builder_wf b" and nid: "nid < length (b_nodes b)" "tn_kind (b_nodes b ! nid) \<noteq> Dir"
    and r: "take_over_as_dir b nid = Ok b'" and cw: "counts_wf b"
  shows "counts_wf b' \<and> accounted b' = accounted b"
proof -
  have "\<not> synthetic (tn_flags (b_nodes b ! nid))"
    using builder_wfD(3) [OF wf nid(1)] nid(2) by (auto simp: node_wf_def)
  then show ?thesis
    using r cw nid(1) length_filter_update [OF nid(1), of "\<lambda>n. synthetic (tn_flags n)"]
      length_filter_update [OF nid(1), of "\<lambda>n. \<not> synthetic (tn_flags n)"]
    by (auto simp: take_over_as_dir_def Let_def counts_wf_def accounted_def n_synthetic_def n_claimed_def
        count_synthetic_def count_duplicate_def)
qed

lemma intern_name_counts:
  assumes "builder_wf b" and "walk_to b pre = Some p" and "walk_to b (pre @ [c]) = None"
    and "intern_name b p c = Ok (b', nid, fresh)"
  shows "n_synthetic b' = Suc (n_synthetic b)" and "n_claimed b' = n_claimed b"
    and "b_stats b' = b_stats b" and "b_metas b' = b_metas b" and "b_symlink_count b' = b_symlink_count b"
  using intern_name_fresh(1) [OF assms] by (auto simp: n_synthetic_def n_claimed_def)

lemma resolve_step_counts:
  assumes wf: "builder_wf b" and pre: "walk_to b pre = Some cur"
    and r: "resolve_step c (b, cur) = Ok (b', nid)" and cw: "counts_wf b"
  shows "counts_wf b' \<and> accounted b' = accounted b"
proof -
  from r obtain b1 fresh where i: "intern_name b cur c = Ok (b1, nid, fresh)"
    and rest: "if fresh then b' = b1\<lparr>b_stats := count_synthetic (b_stats b1)\<rparr>
         else if tn_kind (b_nodes b1 ! nid) = Dir then b' = b1 else take_over_as_dir b1 nid = Ok b'"
    by (rule resolve_step_cases)
  show ?thesis
  proof (cases "walk_to b (pre @ [c])")
    case None
    note f = intern_name_counts [OF wf pre None i]
    have "b' = b1\<lparr>b_stats := count_synthetic (b_stats b1)\<rparr>"
      using rest intern_name_fresh(3) [OF wf pre None i] by simp
    with f cw show ?thesis
      by (simp add: counts_wf_def accounted_def n_synthetic_def n_claimed_def count_synthetic_def)
  next
    case (Some j)
    then have "j < length (b_nodes b)" using tmp_walk_in_range builder_wfD(2) [OF wf] by blast
    moreover have "b1 = b" "nid = j" "\<not> fresh" using i intern_name_found [OF wf pre Some] by auto
    ultimately show ?thesis using rest cw take_over_counts [OF wf _ _ _ cw, of j b'] by (auto split: if_splits)
  qed
qed

lemma resolve_steps_counts:
  assumes "builder_wf b" and "walk_to b pre = Some cur" and "tn_kind (b_nodes b ! cur) = Dir"
    and "\<And>c. c \<in> set cs \<Longrightarrow> good_component c \<and> length c \<le> MAX_COMPONENT"
    and "for_each resolve_step cs (b, cur) = Ok (b', nid)" and "length (b_nodes b') \<le> u32_max"
    and "counts_wf b"
  shows "counts_wf b' \<and> accounted b' = accounted b"
  using assms
proof (induction cs arbitrary: b pre cur)
  case (Cons c cs)
  then obtain b1 cur1 where s: "resolve_step c (b, cur) = Ok (b1, cur1)"
    and rest: "for_each resolve_step cs (b1, cur1) = Ok (b', nid)" by auto
  have "length (b_nodes b1) \<le> u32_max" using resolve_steps_length [OF rest] Cons.prems(6) by simp
  with resolve_step_ok [OF Cons.prems(1-3) _ _ s this] Cons.prems(4)
  have "builder_wf b1" "walk_to b1 (pre @ [c]) = Some cur1" "tn_kind (b_nodes b1 ! cur1) = Dir" by auto
  moreover have "counts_wf b1 \<and> accounted b1 = accounted b"
    using resolve_step_counts [OF Cons.prems(1,2) s Cons.prems(7)] .
  ultimately show ?case using Cons.IH [OF _ _ _ _ rest Cons.prems(6)] Cons.prems(4) by fastforce
qed simp

lemma resolve_parent_counts:
  assumes wf: "builder_wf b"
    and cs: "\<And>c. c \<in> set (components path) \<Longrightarrow> length c \<le> MAX_COMPONENT"
    and r: "resolve_parent b path = Ok (b', nid)" and small: "length (b_nodes b') \<le> u32_max"
    and cw: "counts_wf b"
  shows "counts_wf b' \<and> accounted b' = accounted b"
proof (cases "path = b_memo_path b")
  case True
  with r cw show ?thesis by (auto simp: resolve_parent_def)
next
  case False
  with r obtain b1 where s: "for_each resolve_step (components path) (b, 0) = Ok (b1, nid)"
    and b': "b' = b1\<lparr>b_memo_path := path, b_memo_id := nid\<rparr>" by (auto simp: resolve_parent_def)
  have root: "tn_kind (b_nodes b ! 0) = Dir"
    using builder_wfD(3) [OF wf, of 0] builder_wfD(4,10) [OF wf] by (auto simp: node_wf_def)
  have "counts_wf b1 \<and> accounted b1 = accounted b"
    using root cs components_good small b' by (intro resolve_steps_counts [OF wf _ _ _ s _ cw, of "[]"]) auto
  then show ?thesis by (simp add: b' counts_wf_def accounted_def n_synthetic_def n_claimed_def)
qed

lemma claim_counts:
  assumes "claim xc b nid k m = Ok b'" and nid: "nid < length (b_nodes b)" "synthetic (tn_flags (b_nodes b ! nid))"
  shows "Suc (n_synthetic b') = n_synthetic b" and "n_claimed b' = Suc (n_claimed b)"
    and "length (b_metas b') = Suc (length (b_metas b))"
    and "st_entries (b_stats b') = Suc (st_entries (b_stats b))"
    and "st_symlinks (b_stats b') + b_symlink_count b = st_symlinks (b_stats b) + b_symlink_count b'"
    and "st_synthetic_dirs (b_stats b') = st_synthetic_dirs (b_stats b)"
    and "st_duplicates (b_stats b') = st_duplicates (b_stats b)"
    and "st_rejected_paths (b_stats b') = st_rejected_paths (b_stats b)"
    and "st_rejected_sizes (b_stats b') = st_rejected_sizes (b_stats b)"
  using assms length_filter_update [OF nid(1), of "\<lambda>n. synthetic (tn_flags n)"]
      length_filter_update [OF nid(1), of "\<lambda>n. \<not> synthetic (tn_flags n)"]
  by (auto simp: claim_def Let_def n_synthetic_def n_claimed_def count_entry_def split: if_splits)

lemma add_leaf_counts:
  assumes wf: "builder_wf b" and pre: "walk_to b pre = Some p"
    and r: "add_leaf xc b p leaf k m = Ok b'" and cw: "counts_wf b"
  shows "counts_wf b' \<and> accounted b' = Suc (accounted b)"
proof (cases "walk_to b (pre @ [leaf])")
  case None
  from wf pre None r obtain b1 nid where i: "intern_name b p leaf = Ok (b1, nid, True)"
    and cl: "claim xc b1 nid k m = Ok b'" by (rule add_leaf_fresh)
  note f = intern_name_counts [OF wf pre None i]
  have "nid < length (b_nodes b1)" "synthetic (tn_flags (b_nodes b1 ! nid))"
    using intern_name_fresh(1,2) [OF wf pre None i] by auto
  with f cw claim_counts [OF cl this] show ?thesis by (simp add: counts_wf_def accounted_def)
next
  case (Some i)
  then have i: "0 < i" "i < length (b_nodes b)" using tmp_walk_last builder_wfD(2) [OF wf] by blast+
  define b1 where "b1 = b\<lparr>b_stats := (b_stats b)\<lparr>st_synthetic_dirs :=
               (if st_synthetic_dirs (b_stats b) = 0 then u64_max
                else st_synthetic_dirs (b_stats b) - 1)\<rparr>\<rparr>"
  have eq: "Ok b' = (if tn_kind (b_nodes b ! i) = Dir \<and> k \<noteq> Dir then Ok (duplicate b)
     else if \<not> synthetic (tn_flags (b_nodes b ! i)) then Ok (duplicate b) else claim xc b1 i k m)"
    using r unfolding add_leaf_existing [OF wf pre Some, of xc k m] b1_def by (rule sym)
  show ?thesis
  proof (cases "b' = duplicate b")
    case True
    with cw show ?thesis
      by (simp add: counts_wf_def accounted_def duplicate_def n_synthetic_def n_claimed_def count_duplicate_def)
  next
    case False
    with eq have cl: "claim xc b1 i k m = Ok b'" and syn: "synthetic (tn_flags (b_nodes b ! i))"
      by (auto split: if_splits)
    note c = claim_counts [OF cl, unfolded b1_def, simplified, OF i(2) syn]
    obtain n where "b_nodes b' = (b_nodes b)[i := n]"
      using cl by (rule claim_cases) (simp add: b1_def)
    then have "b_nodes b' ! 0 = b_nodes b ! 0" "b_nodes b' \<noteq> []" using i by auto
    with builder_wfD(4) [OF wf] have "0 < n_synthetic b'"
      by (cases "b_nodes b'") (auto simp: n_synthetic_def)
    with c cw show ?thesis
      by (auto simp: counts_wf_def accounted_def n_synthetic_def [of "b\<lparr>b_stats := _\<rparr>"]
          n_claimed_def [of "b\<lparr>b_stats := _\<rparr>"] n_synthetic_def [of b] n_claimed_def [of b] split: if_splits)
  qed
qed

lemma add_entry_counts:
  assumes wf: "builder_wf b" and r: "add_entry xc b path is_dir m = Ok b'"
    and small: "length (b_nodes b') \<le> u32_max" and cw: "counts_wf b"
  shows "counts_wf b' \<and> accounted b' = Suc (accounted b)"
  using r
proof (cases rule: add_entry_cases)
  case (accepted b1 p par leaf)
  have cs: "length c \<le> MAX_COMPONENT" if "c \<in> set (components par)" for c
    using that accepted(1,4) by (auto simp: reject_reason_None)
  have small1: "length (b_nodes b1) \<le> u32_max" using small add_leaf_length [OF accepted(6)] by simp
  from resolve_parent_ok [OF wf cs accepted(5) small1]
  have "builder_wf b1" "walk_to b1 (components par) = Some p" by auto
  with add_leaf_counts [OF this accepted(6)] resolve_parent_counts [OF wf cs accepted(5) small1 cw]
  show ?thesis by simp
qed (use cw in \<open>simp_all add: counts_wf_def accounted_def reject_def reject_size_def n_synthetic_def n_claimed_def\<close>)

lemma add_records_counts:
  assumes "add_records xc (map Inr rs) b = Ok b'" and "length (b_nodes b') \<le> u32_max" and "builder_wf b"
    and "counts_wf b"
  shows "counts_wf b'" and "accounted b' = accounted b + length rs"
proof -
  have "builder_wf b' \<and> counts_wf b' \<and> accounted b' = accounted b + length rs"
    using assms(1-3)
    by (rule add_records_induct) (use assms(4) in \<open>auto dest: add_entry_counts\<close>)
  then show "counts_wf b'" and "accounted b' = accounted b + length rs" by auto
qed

lemma intern_name_metas:
  assumes "intern_name b p c = Ok (b', nid, fresh)" shows "b_metas b' = b_metas b"
proof -
  obtain r where "find (b_intern b) (b_nodes b) (b_names b) p c = Ok r"
    using assms unfolding intern_name_def rbind_eq_Ok by blast
  with assms show ?thesis by (cases r) (auto simp: intern_name_def Let_def)
qed

text \<open>An entry pushes its metadata at most once.\<close>

lemma add_entry_pushes:
  assumes "add_entry xc b path is_dir m = Ok b'"
  shows "\<exists>ms. b_metas b' = b_metas b @ ms \<and> length ms \<le> 1 \<and> (\<forall>x \<in> set ms. x\<lparr>symlink_slot := 0\<rparr> = m\<lparr>symlink_slot := 0\<rparr>)"
  using assms
proof (cases rule: add_entry_cases)
  case (accepted b1 p par leaf)
  have step: "b_metas b' = b_metas b" if "resolve_step c (b, cur) = Ok (b', nid)" for b b' :: "'a builder" and c cur nid
    using that by (rule resolve_step_cases) (auto simp: take_over_as_dir_def Let_def dest!: intern_name_metas split: if_splits)
  have "b_metas b' = b_metas b" if "for_each resolve_step cs (b, cur) = Ok (b', nid)" for b b' :: "'a builder" and cs cur nid
    using that
  proof (induction cs arbitrary: b cur)
    case (Cons c cs)
    then obtain b2 cur2 where "resolve_step c (b, cur) = Ok (b2, cur2)"
      and "for_each resolve_step cs (b2, cur2) = Ok (b', nid)" by auto
    with Cons.IH step show ?case by metis
  qed simp
  then have p: "b_metas b1 = b_metas b" using accepted(5) by (auto simp: resolve_parent_def split: if_splits)
  from accepted(6) obtain x where x: "intern_name b1 p leaf = Ok x" unfolding add_leaf_def rbind_eq_Ok by blast
  obtain b2 nid fresh where x': "x = (b2, nid, fresh)" by (cases x) auto
  have cl: "\<exists>m'. b_metas b' = b_metas b @ [m'] \<and> m'\<lparr>symlink_slot := 0\<rparr> = m\<lparr>symlink_slot := 0\<rparr>"
    if "claim xc b nid k m = Ok b'" for b b' :: "'a builder" and nid k using that by (rule claim_cases) blast
  have "b_metas b' = b_metas b2 \<or> (\<exists>m'. b_metas b' = b_metas b2 @ [m'] \<and> m'\<lparr>symlink_slot := 0\<rparr> = m\<lparr>symlink_slot := 0\<rparr>)"
    using accepted(6) x x' by (auto simp: add_leaf_def duplicate_def dest!: cl split: if_splits)
  moreover have "b_metas b2 = b_metas b" using p intern_name_metas x x' by metis
  ultimately show ?thesis by (auto intro: exI [of _ "[]"])
qed (simp_all add: reject_def reject_size_def)

lemma add_entry_metas:
  assumes "add_entry xc b path is_dir m = Ok b'" shows "length (b_metas b') \<le> Suc (length (b_metas b))"
  using add_entry_pushes [OF assms] by auto

lemma add_records_metas:
  "add_records xc (map Inr rs) b = Ok b' \<Longrightarrow> length (b_metas b') \<le> length (b_metas b) + length rs"
proof (induction rs arbitrary: b)
  case (Cons r rs)
  then obtain b1 where a: "add_entry xc b (zr_path r) (zr_is_dir r) (record_meta r) = Ok b1"
    and rest: "add_records xc (map Inr rs) b1 = Ok b'" by auto
  from Cons.IH [OF rest] add_entry_metas [OF a] show ?case by simp
qed simp

lemma add_records_from:
  assumes "add_records xc (map Inr rs) b = Ok b'" and "x \<in> set (b_metas b')"
  shows "x \<in> set (b_metas b) \<or> (\<exists>r \<in> set rs. x\<lparr>symlink_slot := 0\<rparr> = record_meta r)"
  using assms
proof (induction rs arbitrary: b)
  case (Cons r rs)
  then obtain b1 where a: "add_entry xc b (zr_path r) (zr_is_dir r) (record_meta r) = Ok b1"
    and rest: "add_records xc (map Inr rs) b1 = Ok b'" by auto
  have slot: "(record_meta r)\<lparr>symlink_slot := 0\<rparr> = record_meta r" by (simp add: record_meta_def split: prod.splits)
  from Cons.IH [OF rest Cons.prems(2)] add_entry_pushes [OF a] show ?case by (auto simp: slot)
qed simp

end
