(* ===== verification/Builder_Total.thy ===== *)
theory Builder_Total
  imports Builder_Correct
begin

text \<open>
  The builder does not panic and does not loop: while the node numbers fit, adding an entry
  returns, with a value or with \<open>IndexTooLarge\<close>. An accepted path has at most \<open>MAX_DEPTH\<close>
  components, so that many nodes at most are new.
\<close>

fun benign :: "'a result \<Rightarrow> bool" where
  "benign (Ok x) = True"
| "benign (Err (IndexTooLarge w)) = True"
| "benign r = False"

lemma benign_rbind: "benign m \<Longrightarrow> (\<And>x. m = Ok x \<Longrightarrow> benign (f x)) \<Longrightarrow> benign (rbind m f)"
  by (cases m rule: benign.cases) auto

lemma benign_ok_or [simp]: "benign (ok_or (IndexTooLarge w) x)"
  by (cases x) auto

lemma intern_name_benign:
  assumes wf: "builder_wf b" and pre: "walk_to b pre = Some p" and small: "length (b_nodes b) < u32_max"
  shows "benign (intern_name b p c)"
proof (cases "walk_to b (pre @ [c])")
  case None
  obtain t where "insert_node (b_intern b) (b_nodes b @ [fresh_node (b_names b) p c]) (b_names b @ c)
      (length (b_nodes b)) = Ok t"
    using insert_node_total [OF builder_wfD(1) [OF wf], of c "fresh_node (b_names b) p c"] small by auto
  then show ?thesis
    unfolding intern_name_def intern_name_missing [OF wf pre None]
    by (auto simp: Let_def fresh_node_def intro!: benign_rbind)
qed (simp add: intern_name_found [OF wf pre])

lemma intern_name_grows:
  assumes "intern_name b p c = Ok (b', nid, fresh)" shows "length (b_nodes b') \<le> Suc (length (b_nodes b))"
proof -
  obtain r where "find (b_intern b) (b_nodes b) (b_names b) p c = Ok r"
    using assms unfolding intern_name_def rbind_eq_Ok by blast
  with assms show ?thesis by (cases r) (auto simp: intern_name_def Let_def)
qed

lemma resolve_step_grows:
  assumes "resolve_step c (b, cur) = Ok (b', nid)" shows "length (b_nodes b') \<le> Suc (length (b_nodes b))"
  using assms
proof (rule resolve_step_cases)
  fix b1 fresh
  assume i: "intern_name b cur c = Ok (b1, nid, fresh)"
    and r: "if fresh then b' = b1\<lparr>b_stats := count_synthetic (b_stats b1)\<rparr>
         else if tn_kind (b_nodes b1 ! nid) = Dir then b' = b1 else take_over_as_dir b1 nid = Ok b'"
  from r have "length (b_nodes b') = length (b_nodes b1)" by (auto dest: take_over_length split: if_splits)
  with intern_name_grows [OF i] show ?thesis by simp
qed

lemma resolve_step_benign:
  assumes wf: "builder_wf b" and pre: "walk_to b pre = Some cur" and small: "length (b_nodes b) < u32_max"
  shows "benign (resolve_step c (b, cur))"
proof (cases "walk_to b (pre @ [c])")
  case None
  then show ?thesis
    unfolding resolve_step_def prod.case
    using intern_name_benign [OF wf pre small] intern_name_fresh(3) [OF wf pre None]
    by (fastforce intro: benign_rbind)
next
  case (Some i)
  then have "i < length (b_nodes b)" using tmp_walk_in_range builder_wfD(2) [OF wf] by blast
  then show ?thesis
    by (simp add: resolve_step_def intern_name_found [OF wf pre Some] take_over_as_dir_def)
qed

lemma resolve_steps_benign:
  assumes "builder_wf b" and "walk_to b pre = Some cur" and "tn_kind (b_nodes b ! cur) = Dir"
    and "\<And>c. c \<in> set cs \<Longrightarrow> good_component c \<and> length c \<le> MAX_COMPONENT"
    and "length (b_nodes b) + length cs \<le> u32_max"
  shows "benign (for_each resolve_step cs (b, cur)) \<and>
    (\<forall>b' nid. for_each resolve_step cs (b, cur) = Ok (b', nid) \<longrightarrow>
      length (b_nodes b') \<le> length (b_nodes b) + length cs)"
  using assms
proof (induction cs arbitrary: b pre cur)
  case (Cons c cs)
  have ben: "benign (resolve_step c (b, cur))"
    using Cons.prems by (intro resolve_step_benign) auto
  have one: "benign (for_each resolve_step cs (b1, cur1)) \<and>
    (\<forall>b' nid. for_each resolve_step cs (b1, cur1) = Ok (b', nid) \<longrightarrow>
      length (b_nodes b') \<le> length (b_nodes b) + length (c # cs))"
    if s: "resolve_step c (b, cur) = Ok (b1, cur1)" for b1 cur1
  proof -
    have len: "length (b_nodes b1) \<le> Suc (length (b_nodes b))" by (rule resolve_step_grows [OF s])
    with Cons.prems(5) have "length (b_nodes b1) \<le> u32_max" by simp
    with resolve_step_ok [OF Cons.prems(1-3) _ _ s this] Cons.prems(4)
    have "builder_wf b1" "walk_to b1 (pre @ [c]) = Some cur1" "tn_kind (b_nodes b1 ! cur1) = Dir" by auto
    with Cons.IH [OF this] Cons.prems(4,5) len show ?thesis by fastforce
  qed
  then show ?case using ben by (auto intro!: benign_rbind)
qed simp

lemma resolve_parent_benign:
  assumes wf: "builder_wf b"
    and cs: "\<And>c. c \<in> set (components path) \<Longrightarrow> length c \<le> MAX_COMPONENT"
    and small: "length (b_nodes b) + length (components path) \<le> u32_max"
  shows "benign (resolve_parent b path)"
    and "resolve_parent b path = Ok (b', nid) \<Longrightarrow> length (b_nodes b') \<le> length (b_nodes b) + length (components path)"
proof -
  have root: "tn_kind (b_nodes b ! 0) = Dir"
    using builder_wfD(3) [OF wf, of 0] builder_wfD(4,10) [OF wf] by (auto simp: node_wf_def)
  note s = resolve_steps_benign [OF wf _ root, of "[]" "components path"]
  show "benign (resolve_parent b path)"
    using s cs components_good small by (fastforce simp: resolve_parent_def intro!: benign_rbind)
  show "resolve_parent b path = Ok (b', nid) \<Longrightarrow> length (b_nodes b') \<le> length (b_nodes b) + length (components path)"
    using s cs components_good small by (fastforce simp: resolve_parent_def split: if_splits)
qed

lemma claim_benign: "nid < length (b_nodes b) \<Longrightarrow> benign (claim xc b nid k m)"
  unfolding claim_def Let_def by (auto intro!: benign_rbind)

lemma add_leaf_benign:
  assumes wf: "builder_wf b" and pre: "walk_to b pre = Some p" and small: "length (b_nodes b) < u32_max"
  shows "benign (add_leaf xc b p leaf k m)"
proof (cases "walk_to b (pre @ [leaf])")
  case None
  have "benign (claim xc b1 nid k m)" if "intern_name b p leaf = Ok (b1, nid, fresh)" for b1 nid fresh
    using intern_name_fresh(1,2) [OF wf pre None that] by (intro claim_benign) auto
  moreover have "fresh" if "intern_name b p leaf = Ok (b1, nid, fresh)" for b1 nid fresh
    using intern_name_fresh(3) [OF wf pre None that] .
  ultimately have "benign (case x of (b, nid, fresh) \<Rightarrow> if fresh then claim xc b nid k m else f b nid)"
    if "intern_name b p leaf = Ok x" for x f
    using that by (cases x) auto
  then show ?thesis
    unfolding add_leaf_def by (rule benign_rbind [OF intern_name_benign [OF wf pre small]])
next
  case (Some i)
  then have "i < length (b_nodes b)" using tmp_walk_in_range builder_wfD(2) [OF wf] by blast
  then show ?thesis unfolding add_leaf_existing [OF wf pre Some] by (simp add: claim_benign)
qed

lemma add_leaf_grows:
  assumes "add_leaf xc b p leaf k m = Ok b'" shows "length (b_nodes b') \<le> Suc (length (b_nodes b))"
proof -
  from assms obtain x where x: "intern_name b p leaf = Ok x"
    unfolding add_leaf_def rbind_eq_Ok by blast
  obtain b1 nid fresh where x': "x = (b1, nid, fresh)" by (cases x) auto
  with x intern_name_grows have "length (b_nodes b1) \<le> Suc (length (b_nodes b))" by blast
  moreover have "length (b_nodes b') = length (b_nodes b1)"
    using assms x x' by (auto simp: add_leaf_def duplicate_def dest!: claim_length split: if_splits)
  ultimately show ?thesis by simp
qed

lemma add_entry_benign:
  assumes wf: "builder_wf b" and small: "length (b_nodes b) + MAX_DEPTH \<le> u32_max"
  shows "benign (add_entry xc b path is_dir m)"
    and "add_entry xc b path is_dir m = Ok b' \<Longrightarrow> length (b_nodes b') \<le> length (b_nodes b) + MAX_DEPTH"
proof -
  obtain par leaf where sp: "split_parent (normalize_path path) = (par, leaf)" by fastforce
  have bound: "(\<forall>c \<in> set (components par). length c \<le> MAX_COMPONENT) \<and> Suc (length (components par)) \<le> MAX_DEPTH"
    if "reject_reason path = None"
    using that split_parent_components [OF _ sp] by (auto simp: reject_reason_None)
  show "benign (add_entry xc b path is_dir m)"
  proof (cases "reject_reason path = None \<and> \<not> stored_sizes_differ xc m \<and> \<not> compressed_size_zero m")
    case True
    note bd = bound [OF conjunct1 [OF True]]
    have leaf: "benign (add_leaf xc b1 p leaf k m)" if "resolve_parent b par = Ok (b1, p)" for b1 p k
    proof -
      have "length (b_nodes b1) \<le> length (b_nodes b) + length (components par)"
        using resolve_parent_benign(2) [OF wf _ _ that] bd small by simp
      with bd small have "length (b_nodes b1) < u32_max" by simp
      with resolve_parent_ok [OF wf _ that] bd add_leaf_benign [of b1 "components par" p] show ?thesis by simp
    qed
    have "benign (resolve_parent b par)"
      using resolve_parent_benign(1) [OF wf] bd small by simp
    moreover have "add_entry xc b path is_dir m =
        rbind (resolve_parent b par) (\<lambda>(b, p). add_leaf xc b p leaf (entry_kind xc is_dir m) m)"
      using True sp by (intro add_entry_accepted) auto
    ultimately show ?thesis using leaf by (auto intro!: benign_rbind)
  next
    case False
    then show ?thesis by (auto simp: add_entry_def)
  qed
  show "length (b_nodes b') \<le> length (b_nodes b) + MAX_DEPTH" if "add_entry xc b path is_dir m = Ok b'"
    using that
  proof (cases rule: add_entry_cases)
    case (accepted b1 p par' leaf')
    then have "\<forall>c \<in> set (components par'). length c \<le> MAX_COMPONENT" "Suc (length (components par')) \<le> MAX_DEPTH"
      by (auto simp: reject_reason_None)
    with resolve_parent_benign(2) [OF wf _ _ accepted(5)] small add_leaf_grows [OF accepted(6)] show ?thesis by simp
  qed (simp_all add: reject_def reject_size_def)
qed

text \<open>An archive of 16 million entries is within the bound.\<close>

lemma add_records_benign:
  assumes "builder_wf b" and "length (b_nodes b) + MAX_DEPTH * length rs \<le> u32_max"
  shows "benign (add_records xc (map Inr rs) b)"
  using assms
proof (induction rs arbitrary: b)
  case (Cons r rs)
  let ?a = "add_entry xc b (zr_path r) (zr_is_dir r) (record_meta r)"
  have small: "length (b_nodes b) + MAX_DEPTH \<le> u32_max" using Cons.prems(2) by simp
  have "benign (add_records xc (map Inr rs) b1)" if "?a = Ok b1" for b1
  proof (rule Cons.IH)
    have len: "length (b_nodes b1) \<le> length (b_nodes b) + MAX_DEPTH"
      using add_entry_benign(2) [OF Cons.prems(1) small that] .
    with small show "builder_wf b1" using add_entry_refines [OF Cons.prems(1) that] by simp
    show "length (b_nodes b1) + MAX_DEPTH * length rs \<le> u32_max" using len Cons.prems(2) by simp
  qed
  then show ?case
    using add_entry_benign(1) [OF Cons.prems(1) small] by (auto intro!: benign_rbind)
qed simp

section \<open>When adding entries succeeds\<close>

text \<open>
  The limits a builder can run into: 32-bit node numbers, name offsets, metadata and symlink
  numbers. \<open>room b n len\<close> leaves enough of each for \<open>n\<close> further entries with \<open>len\<close> bytes of names.
\<close>

definition room :: "'w builder \<Rightarrow> nat \<Rightarrow> nat \<Rightarrow> bool" where
  "room b n len \<longleftrightarrow> length (b_nodes b) + MAX_DEPTH * n \<le> u32_max \<and> length (b_names b) + len \<le> u32_max
     \<and> length (b_metas b) + n \<le> u32_max \<and> b_symlink_count b \<le> length (b_metas b)"

lemma intern_name_succeeds:
  assumes wf: "builder_wf b" and pre: "walk_to b pre = Some p" and small: "length (b_nodes b) < u32_max"
    and nms: "length (b_names b) \<le> u32_max" and c: "length c \<le> MAX_COMPONENT"
  shows "\<exists>b' nid fresh. intern_name b p c = Ok (b', nid, fresh)"
proof (cases "walk_to b (pre @ [c])")
  case None
  obtain t where "insert_node (b_intern b) (b_nodes b @ [fresh_node (b_names b) p c]) (b_names b @ c)
      (length (b_nodes b)) = Ok t"
    using insert_node_total [OF builder_wfD(1) [OF wf], of c "fresh_node (b_names b) p c"] small by auto
  then show ?thesis
    using small nms c unfolding intern_name_def intern_name_missing [OF wf pre None]
    by (auto simp: Let_def fresh_node_def try_u32_def try_u16_def MAX_COMPONENT_def)
qed (auto simp: intern_name_found [OF wf pre])

lemma intern_name_sizes:
  assumes "intern_name b p c = Ok (b', nid, fresh)"
  shows "length (b_names b') \<le> length (b_names b) + length c" and "b_metas b' = b_metas b"
    and "b_symlink_count b' = b_symlink_count b"
proof -
  obtain r where "find (b_intern b) (b_nodes b) (b_names b) p c = Ok r"
    using assms unfolding intern_name_def rbind_eq_Ok by blast
  with assms show "length (b_names b') \<le> length (b_names b) + length c" "b_metas b' = b_metas b"
    "b_symlink_count b' = b_symlink_count b" by (cases r; auto simp: intern_name_def Let_def)+
qed

lemma resolve_step_sizes:
  assumes "resolve_step c (b, cur) = Ok (b', nid)"
  shows "length (b_names b') \<le> length (b_names b) + length c \<and> b_metas b' = b_metas b
    \<and> b_symlink_count b' = b_symlink_count b"
  using assms
proof (rule resolve_step_cases)
  fix b1 fresh
  assume i: "intern_name b cur c = Ok (b1, nid, fresh)"
    and r: "if fresh then b' = b1\<lparr>b_stats := count_synthetic (b_stats b1)\<rparr>
         else if tn_kind (b_nodes b1 ! nid) = Dir then b' = b1 else take_over_as_dir b1 nid = Ok b'"
  from r have "b_names b' = b_names b1 \<and> b_metas b' = b_metas b1 \<and> b_symlink_count b' = b_symlink_count b1"
    by (auto simp: take_over_as_dir_def Let_def split: if_splits)
  with intern_name_sizes [OF i] show ?thesis by simp
qed

lemma resolve_step_succeeds:
  assumes wf: "builder_wf b" and pre: "walk_to b pre = Some cur" and small: "length (b_nodes b) < u32_max"
    and nms: "length (b_names b) \<le> u32_max" and c: "length c \<le> MAX_COMPONENT"
  shows "\<exists>b' nid. resolve_step c (b, cur) = Ok (b', nid)"
proof (cases "walk_to b (pre @ [c])")
  case None
  obtain b1 nid fresh where i: "intern_name b cur c = Ok (b1, nid, fresh)" using intern_name_succeeds [OF assms] by blast
  with intern_name_fresh(3) [OF wf pre None i] show ?thesis by (simp add: resolve_step_def)
next
  case (Some i)
  then have "i < length (b_nodes b)" using tmp_walk_in_range builder_wfD(2) [OF wf] by blast
  then show ?thesis
    by (simp add: resolve_step_def intern_name_found [OF wf pre Some] take_over_as_dir_def)
qed

lemma resolve_steps_succeed:
  assumes "builder_wf b" and "walk_to b pre = Some cur" and "tn_kind (b_nodes b ! cur) = Dir"
    and "\<And>c. c \<in> set cs \<Longrightarrow> good_component c \<and> length c \<le> MAX_COMPONENT"
    and "length (b_nodes b) + length cs \<le> u32_max" and "length (b_names b) + sum_list (map length cs) \<le> u32_max"
  shows "\<exists>b' nid. for_each resolve_step cs (b, cur) = Ok (b', nid)
    \<and> length (b_names b') \<le> length (b_names b) + sum_list (map length cs)
    \<and> b_metas b' = b_metas b \<and> b_symlink_count b' = b_symlink_count b"
  using assms
proof (induction cs arbitrary: b pre cur)
  case (Cons c cs)
  obtain b1 cur1 where s: "resolve_step c (b, cur) = Ok (b1, cur1)"
    using resolve_step_succeeds [OF Cons.prems(1,2), of c] Cons.prems(4-6) by auto
  have len: "length (b_nodes b1) \<le> Suc (length (b_nodes b))" by (rule resolve_step_grows [OF s])
  with Cons.prems(5) have "length (b_nodes b1) \<le> u32_max" by simp
  with resolve_step_ok [OF Cons.prems(1-3) _ _ s this] Cons.prems(4)
  have "builder_wf b1" "walk_to b1 (pre @ [c]) = Some cur1" "tn_kind (b_nodes b1 ! cur1) = Dir" by auto
  moreover note sz = resolve_step_sizes [OF s]
  ultimately have "\<exists>b' nid. for_each resolve_step cs (b1, cur1) = Ok (b', nid)
    \<and> length (b_names b') \<le> length (b_names b1) + sum_list (map length cs)
    \<and> b_metas b' = b_metas b1 \<and> b_symlink_count b' = b_symlink_count b1"
    using Cons.prems(4-6) len by (intro Cons.IH) auto
  with s sz show ?case by fastforce
qed simp

lemma resolve_parent_succeeds:
  assumes wf: "builder_wf b"
    and cs: "\<And>c. c \<in> set (components path) \<Longrightarrow> length c \<le> MAX_COMPONENT"
    and small: "length (b_nodes b) + length (components path) \<le> u32_max"
    and nms: "length (b_names b) + sum_list (map length (components path)) \<le> u32_max"
  shows "\<exists>b' nid. resolve_parent b path = Ok (b', nid)
    \<and> length (b_names b') \<le> length (b_names b) + sum_list (map length (components path))
    \<and> b_metas b' = b_metas b \<and> b_symlink_count b' = b_symlink_count b"
proof -
  have root: "tn_kind (b_nodes b ! 0) = Dir"
    using builder_wfD(3) [OF wf, of 0] builder_wfD(4,10) [OF wf] by (auto simp: node_wf_def)
  have "\<exists>b' nid. for_each resolve_step (components path) (b, 0) = Ok (b', nid)
    \<and> length (b_names b') \<le> length (b_names b) + sum_list (map length (components path))
    \<and> b_metas b' = b_metas b \<and> b_symlink_count b' = b_symlink_count b"
    using root cs components_good small nms by (intro resolve_steps_succeed [OF wf, of "[]"]) auto
  then show ?thesis by (cases "path = b_memo_path b") (auto simp: resolve_parent_def)
qed

lemma claim_succeeds:
  assumes "nid < length (b_nodes b)" and "length (b_metas b) < u32_max" and "b_symlink_count b \<le> length (b_metas b)"
  shows "\<exists>b'. claim xc b nid k m = Ok b' \<and> b_names b' = b_names b \<and> length (b_metas b') = Suc (length (b_metas b))
    \<and> b_symlink_count b' \<le> length (b_metas b')"
  using assms by (simp add: claim_def Let_def try_u32_def checked_add_u32_def)

lemma add_leaf_succeeds:
  assumes wf: "builder_wf b" and pre: "walk_to b pre = Some p" and small: "length (b_nodes b) < u32_max"
    and nms: "length (b_names b) \<le> u32_max" and c: "length leaf \<le> MAX_COMPONENT"
    and metas: "length (b_metas b) < u32_max" "b_symlink_count b \<le> length (b_metas b)"
  shows "\<exists>b'. add_leaf xc b p leaf k m = Ok b' \<and> length (b_names b') \<le> length (b_names b) + length leaf
    \<and> length (b_metas b') \<le> Suc (length (b_metas b)) \<and> b_symlink_count b' \<le> length (b_metas b')"
proof (cases "walk_to b (pre @ [leaf])")
  case None
  obtain b1 nid fresh where i: "intern_name b p leaf = Ok (b1, nid, fresh)"
    using intern_name_succeeds [OF wf pre small nms c] by blast
  note f = intern_name_fresh [OF wf pre None i]
  then have "nid < length (b_nodes b1)" by auto
  then obtain b' where "claim xc b1 nid k m = Ok b'" "b_names b' = b_names b1"
    "length (b_metas b') = Suc (length (b_metas b1))" "b_symlink_count b' \<le> length (b_metas b')"
    using claim_succeeds [of nid b1 xc k m] metas intern_name_sizes(2,3) [OF i] by fastforce
  with i f(3) intern_name_sizes [OF i] show ?thesis by (simp add: add_leaf_def)
next
  case (Some i)
  then have "i < length (b_nodes b)" using tmp_walk_in_range builder_wfD(2) [OF wf] by blast
  define b1 where "b1 = b\<lparr>b_stats := (b_stats b)\<lparr>st_synthetic_dirs :=
               (if st_synthetic_dirs (b_stats b) = 0 then u64_max else st_synthetic_dirs (b_stats b) - 1)\<rparr>\<rparr>"
  have "\<exists>b'. claim xc b1 i k m = Ok b' \<and> b_names b' = b_names b1 \<and> length (b_metas b') = Suc (length (b_metas b1))
    \<and> b_symlink_count b' \<le> length (b_metas b')"
    using \<open>i < length (b_nodes b)\<close> metas by (intro claim_succeeds) (auto simp: b1_def)
  then show ?thesis
    unfolding add_leaf_existing [OF wf pre Some] b1_def [symmetric]
    using metas by (auto simp: duplicate_def b1_def)
qed

lemma length_components: "sum_list (map length (components p)) \<le> length p"
proof -
  have "sum_list (map length (split_at_slash p)) \<le> length p"
    by (induction p rule: split_at_slash.induct) (auto split: list.splits)
  moreover have "sum_list (map length (filter P xs)) \<le> sum_list (map length xs)" for P and xs :: "bytes list"
    by (induction xs) auto
  ultimately show ?thesis unfolding components_def using le_trans by blast
qed

lemma add_entry_succeeds:
  assumes wf: "builder_wf b" and rm: "room b (Suc n) (length path + len)"
  shows "\<exists>b'. add_entry xc b path is_dir m = Ok b' \<and> builder_wf b' \<and> room b' n len"
proof -
  have small: "length (b_nodes b) + MAX_DEPTH \<le> u32_max" using rm by (simp add: room_def)
  have ex: "\<exists>b'. add_entry xc b path is_dir m = Ok b' \<and> length (b_names b') \<le> length (b_names b) + length path
    \<and> length (b_metas b') \<le> Suc (length (b_metas b)) \<and> b_symlink_count b' \<le> length (b_metas b')"
  proof (cases "reject_reason path = None \<and> \<not> stored_sizes_differ xc m \<and> \<not> compressed_size_zero m")
    case True
    obtain par leaf where sp: "split_parent (normalize_path path) = (par, leaf)" by fastforce
    have acc: "components path \<noteq> []" "length (components path) \<le> MAX_DEPTH"
      "\<And>c. c \<in> set (components path) \<Longrightarrow> length c \<le> MAX_COMPONENT" using True by (auto simp: reject_reason_None)
    have cs: "components path = components par @ [leaf]" using split_parent_components [OF acc(1) sp] .
    have bytes: "sum_list (map length (components par)) + length leaf \<le> length path"
      using length_components [of path] by (simp add: cs)
    have nms: "length (b_names b) + sum_list (map length (components par)) \<le> u32_max" using bytes rm by (simp add: room_def)
    have nds: "length (b_nodes b) + length (components par) < u32_max" using acc(2) small by (simp add: cs)
    obtain b1 p where r: "resolve_parent b par = Ok (b1, p)"
      "length (b_names b1) \<le> length (b_names b) + sum_list (map length (components par))"
      "b_metas b1 = b_metas b" "b_symlink_count b1 = b_symlink_count b"
      using resolve_parent_succeeds [OF wf _ _ nms] acc(3) nds cs by auto
    have len1: "length (b_nodes b1) < u32_max"
      using resolve_parent_benign(2) [OF wf _ _ r(1)] acc(3) nds cs by auto
    then have "builder_wf b1" "walk_to b1 (components par) = Some p"
      using resolve_parent_ok [OF wf _ r(1)] acc(3) cs by auto
    then obtain b' where "add_leaf xc b1 p leaf (entry_kind xc is_dir m) m = Ok b'"
      "length (b_names b') \<le> length (b_names b1) + length leaf"
      "length (b_metas b') \<le> Suc (length (b_metas b1))" "b_symlink_count b' \<le> length (b_metas b')"
      using add_leaf_succeeds [of b1 "components par" p leaf xc "entry_kind xc is_dir m" m] len1 r acc(3) cs rm bytes
      by (auto simp: room_def)
    moreover have "add_entry xc b path is_dir m =
        rbind (resolve_parent b par) (\<lambda>(b, p). add_leaf xc b p leaf (entry_kind xc is_dir m) m)"
      using True sp by (intro add_entry_accepted) auto
    ultimately show ?thesis using r bytes by auto
  next
    case False
    then show ?thesis using rm by (auto simp: add_entry_def reject_def reject_size_def room_def)
  qed
  then obtain b' where b': "add_entry xc b path is_dir m = Ok b'" "length (b_names b') \<le> length (b_names b) + length path"
    "length (b_metas b') \<le> Suc (length (b_metas b))" "b_symlink_count b' \<le> length (b_metas b')" by blast
  have grow: "length (b_nodes b') \<le> length (b_nodes b) + MAX_DEPTH" by (rule add_entry_benign(2) [OF wf small b'(1)])
  then have "builder_wf b'" using add_entry_refines [OF wf b'(1)] small by simp
  with b' grow rm show ?thesis by (auto simp: room_def)
qed

lemma add_records_succeeds:
  assumes "builder_wf b" and "room b (length rs) (sum_list (map (\<lambda>r. length (zr_path r)) rs))"
  shows "\<exists>b'. add_records xc (map Inr rs) b = Ok b'"
  using assms
proof (induction rs arbitrary: b)
  case (Cons r rs)
  then obtain b1 where "add_entry xc b (zr_path r) (zr_is_dir r) (record_meta r) = Ok b1" "builder_wf b1"
    "room b1 (length rs) (sum_list (map (\<lambda>r. length (zr_path r)) rs))"
    using add_entry_succeeds [OF Cons.prems(1), of "length rs" "zr_path r"] by fastforce
  with Cons.IH show ?case by simp
qed simp

end
