(* ===== verification/Finish_Index.thy ===== *)
theory Finish_Index
  imports Finish_Correct Index_Tree Builder_Counts Builder_Total
begin

text \<open>
  From the builder to the finished index: \<open>finish\<close> returns a well-formed tree, in which a path
  leads where it led in the builder, and \<open>build\<close> therefore returns the abstract tree of the
  records.
\<close>

section \<open>The relabelling\<close>

text \<open>What the breadth-first pass leaves: the order and its two tables.\<close>

definition relabelled :: "tmp_node list \<Rightarrow> bytes \<Rightarrow> nat list \<Rightarrow> nat list \<Rightarrow> nat list \<Rightarrow> bool" where
  "relabelled nds nms order fc fo \<longleftrightarrow> bfs_inv nds nms (length order) order fc fo
     \<and> set order = {..<length nds} \<and> length order = length nds"

lemma relabelledD:
  assumes "relabelled nds nms order fc fo"
  shows "length order = length nds" and "distinct order" and "length fc = length nds" and "length fo = length nds"
    and "j < length nds \<Longrightarrow> order ! j < length nds" and "j < length nds \<Longrightarrow> fo ! (order ! j) = Suc j"
    and "order = 0 # concat (map (sorted_kids nds nms) order)"
    and "j < length nds \<Longrightarrow> fc ! (order ! j) = 2 + length (concat (map (sorted_kids nds nms) (take j order)))"
    and "t < length nds \<Longrightarrow> \<exists>j < length nds. order ! j = t"
    and "j < length nds \<Longrightarrow> j \<le> length (concat (map (sorted_kids nds nms) (take j order)))"
proof -
  note b = assms [unfolded relabelled_def]
  then show len: "length order = length nds" and "distinct order" and "length fc = length nds" and "length fo = length nds"
    by (auto simp: bfs_inv_def)
  show "j < length nds \<Longrightarrow> order ! j < length nds" using b nth_mem [of j order] by auto
  show "j < length nds \<Longrightarrow> fo ! (order ! j) = Suc j" using b by (auto simp: bfs_inv_def)
  show "order = 0 # concat (map (sorted_kids nds nms) order)"
    using b unfolding bfs_inv_def by (metis order_refl take_all)
  show "j < length nds \<Longrightarrow> fc ! (order ! j) = 2 + length (concat (map (sorted_kids nds nms) (take j order)))"
    using b by (auto simp: bfs_inv_def)
  show "j < length nds \<Longrightarrow> j \<le> length (concat (map (sorted_kids nds nms) (take j order)))"
    using b by (auto simp: bfs_inv_def)
  show "t < length nds \<Longrightarrow> \<exists>j < length nds. order ! j = t"
    using b len by (metis in_set_conv_nth lessThan_iff)
qed

lemma concat_map_split:
  "j < length xs \<Longrightarrow> concat (map f xs) = concat (map f (take j xs)) @ f (xs ! j) @ concat (map f (drop (Suc j) xs))"
  using arg_cong [OF id_take_nth_drop [of j xs], of "\<lambda>ys. concat (map f ys)"] by simp

text \<open>The children of a node are consecutive in the order, from its \<open>first_child\<close> on.\<close>

lemma relabelled_kid:
  assumes r: "relabelled nds nms order fc fo" and t: "t < length nds" and k: "k < length (sorted_kids nds nms t)"
  shows "fc ! t + k - 1 < length nds" and "order ! (fc ! t + k - 1) = sorted_kids nds nms t ! k"
    and "fo ! (sorted_kids nds nms t ! k) = fc ! t + k" and "fo ! t < fc ! t"
proof -
  let ?C = "sorted_kids nds nms"
  obtain j where j: "j < length nds" "order ! j = t" using relabelledD(9) [OF r t] by blast
  let ?m = "length (concat (map ?C (take j order)))"
  have fc: "fc ! t = 2 + ?m" using relabelledD(8) [OF r j(1)] j(2) by simp
  then show "fo ! t < fc ! t" using relabelledD(6,10) [OF r j(1)] j(2) by simp
  have "concat (map ?C order) = concat (map ?C (take j order)) @ ?C t @ concat (map ?C (drop (Suc j) order))"
    using concat_map_split [of j order ?C] j relabelledD(1) [OF r] by metis
  then have split: "order = (0 # concat (map ?C (take j order))) @ ?C t @ concat (map ?C (drop (Suc j) order))"
    using relabelledD(7) [OF r] by (metis append_Cons)
  have "order ! (Suc ?m + k) = ?C t ! k"
    by (subst split) (use k in \<open>simp add: nth_append\<close>)
  then show o: "order ! (fc ! t + k - 1) = ?C t ! k" by (simp add: fc)
  have "Suc ?m + k < length order" by (subst split) (use k in simp)
  then show l: "fc ! t + k - 1 < length nds" using relabelledD(1) [OF r] by (simp add: fc)
  show "fo ! (?C t ! k) = fc ! t + k" using relabelledD(6) [OF r l] o fc by simp
qed

lemma relabelled_kids_fit:
  assumes r: "relabelled nds nms order fc fo" and t: "t < length nds"
  shows "fc ! t + length (sorted_kids nds nms t) \<le> length nds + 1"
proof -
  let ?C = "sorted_kids nds nms"
  obtain j where j: "j < length nds" "order ! j = t" using relabelledD(9) [OF r t] by blast
  have "length (concat (map ?C order))
      = length (concat (map ?C (take j order)) @ ?C t @ concat (map ?C (drop (Suc j) order)))"
    using concat_map_split [of j order ?C] j relabelledD(1) [OF r] by metis
  moreover have "length order = Suc (length (concat (map ?C order)))"
    using arg_cong [OF relabelledD(7) [OF r], of length] by (simp only: length_Cons)
  moreover have "fc ! t = 2 + length (concat (map ?C (take j order)))" using relabelledD(8) [OF r j(1)] j(2) by simp
  ultimately show ?thesis using relabelledD(1) [OF r] unfolding length_append by linarith
qed

lemma breadth_first_ok:
  assumes inv: "tree_inv nds nms" and small: "length nds < u32_max"
    and starts: "length starts = length nds + 1" "\<And>p. p \<le> length nds \<Longrightarrow> starts ! p = kid_start nds p"
    and kids: "length kids = length nds - 1"
      "\<And>p. p < length nds \<Longrightarrow> slice kids (kid_start nds p) (kid_start nds (Suc p)) = sorted_kids nds nms p"
  obtains order fc fo where "breadth_first_order nds starts kids = Ok (order, fc, fo)"
    and "relabelled nds nms order fc fo"
proof -
  have ne: "0 < length nds" using inv by (simp add: tree_inv_def)
  have b0: "bfs_inv nds nms 0 [0] (replicate (length nds) 0) ((replicate (length nds) 0)[0 := 1])"
    using ne by (simp add: bfs_inv_def)
  have "\<exists>order fc fo. bfs_loop starts kids 0 [0] (replicate (length nds) 0) ((replicate (length nds) 0)[0 := 1])
      = Ok (order, fc, fo) \<and> bfs_inv nds nms (length order) order fc fo"
    by (rule bfs_total [OF inv small starts kids b0])
  then obtain order fc fo where
    l: "bfs_loop starts kids 0 [0] (replicate (length nds) 0) ((replicate (length nds) 0)[0 := 1]) = Ok (order, fc, fo)"
    and b: "bfs_inv nds nms (length order) order fc fo" by blast
  have "breadth_first_order nds starts kids = Ok (order, fc, fo)"
    unfolding breadth_first_order_def set_at_def length_replicate if_P [OF ne] rbind_simps by (rule l)
  moreover have "relabelled nds nms order fc fo"
    unfolding relabelled_def using b bfs_inv_complete [OF inv b] by (intro conjI)
  ultimately show thesis by (rule that)
qed

section \<open>The nodes\<close>

definition out_node :: "tmp_node list \<Rightarrow> bytes \<Rightarrow> nat list \<Rightarrow> nat list \<Rightarrow> nat \<Rightarrow> node" where
  "out_node nds nms fc fo t =
     \<lparr> name_off = tn_name_off (nds ! t), name_len = tn_name_len (nds ! t), kind = tn_kind (nds ! t),
       flags = tn_flags (nds ! t), parent = (if t = 0 then 1 else fo ! tn_parent (nds ! t)),
       first_child = fc ! t, child_len = length (sorted_kids nds nms t),
       subdir_count = length (filter (\<lambda>k. tn_kind (nds ! k) = Dir) (sorted_kids nds nms t)),
       meta_idx = tn_meta (nds ! t) \<rparr>"

text \<open>The running total of \<open>finish\<close>.\<close>

definition add_size :: "tmp_node list \<Rightarrow> 'w entry_meta list \<Rightarrow> nat \<Rightarrow> nat \<Rightarrow> nat" where
  "add_size nds mts t tot =
     (if tn_meta (nds ! t) \<noteq> NO_META then saturating_add_u64 tot (uncompressed_size (mts ! tn_meta (nds ! t)))
      else tot)"

lemma final_node_ok:
  assumes inv: "tree_inv nds nms" and small: "length nds < u32_max"
    and starts: "length starts = length nds + 1" "\<And>p. p \<le> length nds \<Longrightarrow> starts ! p = kid_start nds p"
    and kids: "length kids = length nds - 1"
      "\<And>p. p < length nds \<Longrightarrow> slice kids (kid_start nds p) (kid_start nds (Suc p)) = sorted_kids nds nms p"
    and r: "relabelled nds nms order fc fo" and t: "t < length nds"
    and meta: "tn_meta (nds ! t) \<noteq> NO_META \<Longrightarrow> tn_meta (nds ! t) < length mts"
  shows "final_node nds mts starts kids fc fo t (acc, tot)
    = Ok (acc @ [out_node nds nms fc fo t], add_size nds mts t tot)"
proof -
  have fit: "kid_start nds t \<le> kid_start nds (Suc t)" "kid_start nds (Suc t) \<le> length kids"
    using kid_start_mono [of t "Suc t" nds] kid_start_le [of nds "Suc t"] kids(1) by auto
  then have sl: "sub_slice kids (kid_start nds t) (kid_start nds (Suc t)) = Ok (sorted_kids nds nms t)"
    using kids(2) [OF t] by (simp add: slice_def)
  have len: "kid_start nds (Suc t) - kid_start nds t = length (sorted_kids nds nms t)"
    by (simp add: kid_start_Suc sorted_kids_def)
  have range: "list_all (\<lambda>k. k < length nds) (sorted_kids nds nms t)" by (simp add: list_all_iff sorted_kids_set)
  have bound: "length (sorted_kids nds nms t) \<le> u32_max"
    using kid_start_le [of nds "Suc t"] small by (simp add: kid_start_Suc sorted_kids_def)
  then have "length (filter P (sorted_kids nds nms t)) \<le> u32_max" for P
    using length_filter_le le_trans by blast
  moreover have "tn_parent (nds ! t) < length fo" if "t \<noteq> 0"
    using that inv t relabelledD(4) [OF r] by (auto simp: tree_inv_def intro: less_trans)
  ultimately show ?thesis
    using t starts(1) starts(2) [of t] starts(2) [of "Suc t"] sl len range bound meta relabelledD(3) [OF r]
    by (cases "t = 0"; cases "tn_meta (nds ! t) = NO_META") (simp_all add: final_node_def try_u32_def out_node_def add_size_def)
qed

lemma final_nodes_ok:
  assumes "\<And>t acc tot. t \<in> set ts \<Longrightarrow>
    final_node nds mts starts kids fc fo t (acc, tot) = Ok (acc @ [f t], g t tot)"
  shows "for_each (final_node nds mts starts kids fc fo) ts (acc, tot) = Ok (acc @ map f ts, fold g ts tot)"
  using assms by (induction ts arbitrary: acc tot) auto

lemma finish_ok:
  assumes wf: "builder_wf b" and small: "length (b_nodes b) < u32_max"
  obtains order fc fo where "relabelled (b_nodes b) (b_names b) order fc fo"
    and "finish b = Ok \<lparr> nodes = dead_node # map (out_node (b_nodes b) (b_names b) fc fo) order,
           metas = b_metas b, names = b_names b, symlinks = replicate (b_symlink_count b) None,
           total_uncompressed = fold (add_size (b_nodes b) (b_metas b)) order 0 \<rparr>"
proof -
  note inv = builder_wfD(2) [OF wf]
  obtain starts kids where g: "group_children (b_nodes b) (b_names b) = Ok (starts, kids)"
    "length starts = length (b_nodes b) + 1" "\<And>p. p \<le> length (b_nodes b) \<Longrightarrow> starts ! p = kid_start (b_nodes b) p"
    "length kids = length (b_nodes b) - 1"
    "\<And>p. p < length (b_nodes b) \<Longrightarrow>
      slice kids (kid_start (b_nodes b) p) (kid_start (b_nodes b) (Suc p)) = sorted_kids (b_nodes b) (b_names b) p"
    using group_children_ok [OF inv] small by (metis less_imp_le)
  obtain order fc fo where o: "breadth_first_order (b_nodes b) starts kids = Ok (order, fc, fo)"
    and r: "relabelled (b_nodes b) (b_names b) order fc fo"
    using breadth_first_ok [OF inv small g(2-5)] by blast
  have "for_each (final_node (b_nodes b) (b_metas b) starts kids fc fo) order ([dead_node], 0)
    = Ok ([dead_node] @ map (out_node (b_nodes b) (b_names b) fc fo) order, fold (add_size (b_nodes b) (b_metas b)) order 0)"
  proof (rule final_nodes_ok)
    fix t :: nat and acc tot
    assume "t \<in> set order"
    then have t: "t < length (b_nodes b)" using r by (auto simp: relabelled_def)
    then have "tn_meta (b_nodes b ! t) \<noteq> NO_META \<Longrightarrow> tn_meta (b_nodes b ! t) < length (b_metas b)"
      using builder_wfD(3) [OF wf t] by (auto simp: node_wf_def split: if_splits)
    with t show "final_node (b_nodes b) (b_metas b) starts kids fc fo t (acc, tot)
      = Ok (acc @ [out_node (b_nodes b) (b_names b) fc fo t], add_size (b_nodes b) (b_metas b) t tot)"
      by (intro final_node_ok [OF inv small g(2-5) r])
  qed
  with g(1) o r show thesis by (intro that [OF r]) (simp add: finish_def)
qed

section \<open>The finished index\<close>

definition finished :: "'w builder \<Rightarrow> nat list \<Rightarrow> nat list \<Rightarrow> nat list \<Rightarrow> 'w index \<Rightarrow> bool" where
  "finished b order fc fo idx \<longleftrightarrow> relabelled (b_nodes b) (b_names b) order fc fo
     \<and> nodes idx = dead_node # map (out_node (b_nodes b) (b_names b) fc fo) order
     \<and> metas idx = b_metas b \<and> names idx = b_names b \<and> length (symlinks idx) = b_symlink_count b"

lemma finish_finished:
  assumes "builder_wf b" and "length (b_nodes b) < u32_max"
  obtains order fc fo idx where "finish b = Ok idx" and "finished b order fc fo idx"
    and "symlinks idx = replicate (b_symlink_count b) None"
    and "total_uncompressed idx = fold (add_size (b_nodes b) (b_metas b)) order 0"
proof -
  obtain order fc fo where r: "relabelled (b_nodes b) (b_names b) order fc fo"
    and f: "finish b = Ok \<lparr> nodes = dead_node # map (out_node (b_nodes b) (b_names b) fc fo) order,
           metas = b_metas b, names = b_names b, symlinks = replicate (b_symlink_count b) None,
           total_uncompressed = fold (add_size (b_nodes b) (b_metas b)) order 0 \<rparr>"
    using finish_ok [OF assms] .
  show thesis by (rule that [OF f, of order fc fo]) (simp_all add: finished_def r)
qed

lemma finished_node:
  assumes f: "finished b order fc fo idx" and t: "t < length (b_nodes b)"
  shows "nodes idx ! (fo ! t) = out_node (b_nodes b) (b_names b) fc fo t"
    and "0 < fo ! t" and "fo ! t < length (nodes idx)"
proof -
  have r: "relabelled (b_nodes b) (b_names b) order fc fo" using f by (simp add: finished_def)
  obtain j where j: "j < length (b_nodes b)" "order ! j = t" using relabelledD(9) [OF r t] by blast
  then have "fo ! t = Suc j" using relabelledD(6) [OF r] by blast
  with j f relabelledD(1) [OF r] show "nodes idx ! (fo ! t) = out_node (b_nodes b) (b_names b) fc fo t"
    and "0 < fo ! t" and "fo ! t < length (nodes idx)" by (auto simp: finished_def)
qed

lemma finished_ino:
  assumes f: "finished b order fc fo idx" and i: "0 < i" "i < length (nodes idx)"
  obtains t where "t < length (b_nodes b)" and "i = fo ! t"
proof -
  have r: "relabelled (b_nodes b) (b_names b) order fc fo" using f by (simp add: finished_def)
  have "i - 1 < length (b_nodes b)" using f i relabelledD(1) [OF r] by (auto simp: finished_def)
  then show thesis using relabelledD(5,6) [OF r] i that by force
qed

lemma finished_inj:
  assumes f: "finished b order fc fo idx" and "s < length (b_nodes b)" "t < length (b_nodes b)" "fo ! s = fo ! t"
  shows "s = t"
proof -
  have r: "relabelled (b_nodes b) (b_names b) order fc fo" using f by (simp add: finished_def)
  obtain i j where "i < length (b_nodes b)" "order ! i = s" "j < length (b_nodes b)" "order ! j = t"
    using relabelledD(9) [OF r] assms(2,3) by blast
  with relabelledD(6) [OF r] assms(4) show ?thesis by force
qed

lemma finished_root:
  assumes f: "finished b order fc fo idx" and "b_nodes b \<noteq> []"
  shows "fo ! 0 = ROOT_INO"
proof -
  have r: "relabelled (b_nodes b) (b_names b) order fc fo" using f by (simp add: finished_def)
  have "order ! 0 = 0" using arg_cong [OF relabelledD(7) [OF r], of "\<lambda>xs. xs ! 0"] by simp
  then show ?thesis using relabelledD(6) [OF r, of 0] assms(2) by (simp add: ROOT_INO_def)
qed

lemma finished_kids:
  assumes f: "finished b order fc fo idx" and t: "t < length (b_nodes b)"
  shows "child_inos (out_node (b_nodes b) (b_names b) fc fo t)
    = map (\<lambda>k. fo ! k) (sorted_kids (b_nodes b) (b_names b) t)"
proof (rule nth_equalityI)
  have r: "relabelled (b_nodes b) (b_names b) order fc fo" using f by (simp add: finished_def)
  fix i assume "i < length (child_inos (out_node (b_nodes b) (b_names b) fc fo t))"
  then have "i < length (sorted_kids (b_nodes b) (b_names b) t)" by (simp add: out_node_def)
  with relabelled_kid(3) [OF r t this] show "child_inos (out_node (b_nodes b) (b_names b) fc fo t) ! i
    = map (\<lambda>k. fo ! k) (sorted_kids (b_nodes b) (b_names b) t) ! i" by (simp add: out_node_def)
qed (simp add: out_node_def)

lemma finished_name:
  assumes f: "finished b order fc fo idx" and t: "t < length (b_nodes b)"
  shows "ino_name idx (fo ! t) = tmp_name (b_names b) (b_nodes b ! t)"
  using finished_node(1) [OF assms] f by (simp add: ino_name_def tmp_name_def out_node_def finished_def)

lemma finished_kids_wf:
  assumes wf: "builder_wf b" and f: "finished b order fc fo idx" and t: "t < length (b_nodes b)"
  shows "kids_wf idx (fo ! t)"
proof -
  let ?C = "sorted_kids (b_nodes b) (b_names b) t" and ?out = "out_node (b_nodes b) (b_names b) fc fo"
  note node = finished_node [OF f] and kids = finished_kids [OF f t]
  have r: "relabelled (b_nodes b) (b_names b) order fc fo" using f by (simp add: finished_def)
  have k: "k < length (b_nodes b)" "0 < k" "tn_parent (b_nodes b ! k) = t" if "k \<in> set ?C" for k
    using that by (auto simp: sorted_kids_set)
  have fit: "first_child (?out t) + child_len (?out t) \<le> length (nodes idx)"
    using relabelled_kids_fit [OF r t] f relabelledD(1) [OF r] by (simp add: out_node_def finished_def)
  have leaf: "kind (?out t) = Dir" if ne: "?C \<noteq> []"
  proof -
    from ne obtain k where "k \<in> set ?C" by (cases ?C) auto
    with k builder_wfD(6) [OF wf, of k] show ?thesis by (auto simp: edge_wf_def out_node_def)
  qed
  have up: "fo ! t < fo ! k \<and> parent (nodes idx ! (fo ! k)) = fo ! t" if "k \<in> set ?C" for k
  proof
    obtain i where i: "i < length ?C" "k = ?C ! i" using \<open>k \<in> set ?C\<close> by (auto simp: in_set_conv_nth)
    show "fo ! t < fo ! k" using relabelled_kid(3,4) [OF r t i(1)] i(2) by simp
    show "parent (nodes idx ! (fo ! k)) = fo ! t" using node(1) [of k] k [OF that] by (simp add: out_node_def)
  qed
  have names: "map (ino_name idx) (map (\<lambda>k. fo ! k) ?C) = map (\<lambda>k. tmp_name (b_names b) (b_nodes b ! k)) ?C"
    using finished_name [OF f] k by auto
  have dirs: "kind (nodes idx ! (fo ! k)) = tn_kind (b_nodes b ! k)" if "k \<in> set ?C" for k
    using node(1) [of k] k [OF that] by (simp add: out_node_def)
  show ?thesis
    unfolding kids_wf_def Let_def node(1) [OF t] kids names
  proof (intro conjI)
    show "kind (?out t) \<noteq> Dir \<longrightarrow> child_len (?out t) = 0" using leaf by (auto simp: out_node_def)
    show "list_all (\<lambda>j. fo ! t < j \<and> parent (nodes idx ! j) = fo ! t) (map (\<lambda>k. fo ! k) ?C)"
      using up by (auto simp: list_all_iff)
    show "subdir_count (?out t) = length (filter (\<lambda>j. kind (nodes idx ! j) = Dir) (map (\<lambda>k. fo ! k) ?C))"
      using dirs by (simp add: out_node_def filter_map o_def cong: filter_cong)
  qed (use fit sorted_kids_strict [OF builder_wfD(2) [OF wf]] in auto)
qed

lemma finished_place_wf:
  assumes wf: "builder_wf b" and f: "finished b order fc fo idx" and t: "t < length (b_nodes b)"
  shows "place_wf idx (fo ! t)"
proof -
  note node = finished_node [OF f] and inv = builder_wfD(2) [OF wf]
  have root: "fo ! 0 = ROOT_INO" using finished_root [OF f builder_wfD(10) [OF wf]] .
  have nm: "name_ok (b_names b) (b_nodes b ! t)" using inv t builder_wfD(11) [OF wf] by (cases "t = 0") (auto simp: tree_inv_def)
  show ?thesis
  proof (cases "t = 0")
    case True
    have "tn_kind (b_nodes b ! 0) = Dir" using builder_wfD(3) [OF wf, of 0] builder_wfD(4) [OF wf] t True by (simp add: node_wf_def)
    with True node(1) [OF t] root nm f show ?thesis
      by (simp add: place_wf_def out_node_def name_ok_def finished_def ROOT_INO_def)
  next
    case False
    let ?p = "tn_parent (b_nodes b ! t)"
    have p: "?p < length (b_nodes b)" using inv t False by (auto simp: tree_inv_def intro: less_trans)
    have "t \<in> set (sorted_kids (b_nodes b) (b_names b) ?p)" using t False by (simp add: sorted_kids_set)
    then have kid: "fo ! t \<in> set (child_inos (nodes idx ! (fo ! ?p)))"
      unfolding node(1) [OF p] finished_kids [OF f p] by simp
    then have "fo ! ?p < fo ! t" using kids_wf_kid [OF finished_kids_wf [OF wf f p]] by blast
    moreover have "fo ! t \<noteq> ROOT_INO" using finished_inj [OF f t, of 0] root False builder_wfD(10) [OF wf] by auto
    ultimately show ?thesis
      using kid node(1) [OF t] node(2) [OF p] nm f False
      by (simp add: place_wf_def out_node_def name_ok_def finished_def)
  qed
qed

lemma finished_entry_wf:
  assumes wf: "builder_wf b" and f: "finished b order fc fo idx" and t: "t < length (b_nodes b)"
    and small: "length (b_metas b) \<le> u32_max"
  shows "entry_wf idx (fo ! t)"
proof -
  have "node_slot (b_nodes b) (b_metas b) t < b_symlink_count b" if "tn_kind (b_nodes b ! t) = Symlink"
    using builder_wfD(7) [OF wf] t that by (simp add: slots_wf_def)
  then show ?thesis
    using builder_wfD(3) [OF wf t] finished_node(1) [OF f t] f small
    by (auto simp: entry_wf_def Let_def out_node_def node_wf_def node_slot_def finished_def NO_META_def split: if_splits)
qed

lemma finished_index_wf:
  assumes wf: "builder_wf b" and f: "finished b order fc fo idx"
    and small: "length (b_nodes b) < u32_max" "length (b_metas b) \<le> u32_max"
  shows "index_wf idx"
proof -
  have len: "length (nodes idx) = Suc (length (b_nodes b))"
    using f relabelledD(1) by (auto simp: finished_def)
  have "kids_wf idx i \<and> place_wf idx i \<and> entry_wf idx i" if i: "0 < i" "i < length (nodes idx)" for i
  proof -
    obtain t where t: "t < length (b_nodes b)" "i = fo ! t" using finished_ino [OF f i] .
    then show ?thesis
      using finished_kids_wf [OF wf f t(1)] finished_place_wf [OF wf f t(1)] finished_entry_wf [OF wf f t(1) small(2)] by simp
  qed
  moreover have "2 \<le> length (nodes idx)" using len builder_wfD(10) [OF wf] by (cases "b_nodes b") auto
  moreover have "length (nodes idx) \<le> u32_max" using len small(1) by simp
  ultimately show ?thesis unfolding index_wf_def list_all_iff set_upt by (metis One_nat_def Suc_le_lessD atLeastLessThan_iff)
qed

section \<open>Paths in the index\<close>

text \<open>What the index has at a path, in the terms of the abstract tree.\<close>

definition index_info :: "'w index \<Rightarrow> nat \<Rightarrow> node_kind \<times> 'w entry_meta option" where
  "index_info idx i =
     (kind (nodes idx ! i), map_option (\<lambda>m. m\<lparr>symlink_slot := 0\<rparr>) (meta_of idx (nodes idx ! i)))"

definition index_view :: "'w index \<Rightarrow> 'w tree_spec" where
  "index_view idx q = (case index_walk idx q of Ok (Some i) \<Rightarrow> Some (index_info idx i) | _ \<Rightarrow> None)"

lemma finished_edge:
  assumes wf: "builder_wf b" and f: "finished b order fc fo idx"
    and t: "s < length (b_nodes b)" "t < length (b_nodes b)"
  shows "index_edge idx (fo ! s) c (fo ! t) \<longleftrightarrow> tmp_child (b_nodes b) (b_names b) s c = Some t"
proof -
  have inv: "tree_inv (b_nodes b) (b_names b)" using builder_wfD(2) [OF wf] .
  have root: "fo ! 0 = ROOT_INO" using finished_root [OF f builder_wfD(10) [OF wf]] .
  have "fo ! t = ROOT_INO \<longleftrightarrow> t = 0" using finished_inj [OF f t(2), of 0] root builder_wfD(10) [OF wf] by auto
  moreover have "0 < fo ! t" and "fo ! t < length (nodes idx)" using finished_node [OF f t(2)] by auto
  ultimately have up: "ROOT_INO < fo ! t \<longleftrightarrow> 0 < t" by (auto simp: ROOT_INO_def)
  have "parent (nodes idx ! (fo ! t)) = fo ! s \<longleftrightarrow> tn_parent (b_nodes b ! t) = s" if "0 < t"
  proof -
    have "tn_parent (b_nodes b ! t) < length (b_nodes b)" using inv t(2) that by (auto simp: tree_inv_def intro: less_trans)
    then show ?thesis using finished_node(1) [OF f t(2)] finished_inj [OF f _ t(1)] that by (auto simp: out_node_def)
  qed
  then show ?thesis
    using up finished_name [OF f t(2)] finished_node(3) [OF f t(2)] t(2) inv
    by (auto simp: index_edge_def tmp_child_Some tree_inv_def node_key_def)
qed

lemma finished_walk:
  assumes wf: "builder_wf b" and f: "finished b order fc fo idx" and iw: "index_wf idx"
  shows "index_walk idx q = Ok (map_option (\<lambda>t. fo ! t) (walk_to b q))"
proof (induction q rule: rev_induct)
  case Nil
  then show ?case using finished_root [OF f builder_wfD(10) [OF wf]] by simp
next
  case (snoc c q)
  have inv: "tree_inv (b_nodes b) (b_names b)" using builder_wfD(2) [OF wf] .
  have some: "index_walk idx (q @ [c]) = Ok (Some i) \<longleftrightarrow> map_option (\<lambda>t. fo ! t) (walk_to b (q @ [c])) = Some i" for i
  proof (cases "walk_to b q")
    case None
    with snoc show ?thesis by (simp add: tree.walk_snoc [OF iw] tmp_walk_snoc)
  next
    case (Some s)
    then have s: "s < length (b_nodes b)" using tmp_walk_in_range [OF inv] by blast
    have "index_edge idx (fo ! s) c i \<longleftrightarrow> (\<exists>t. tmp_child (b_nodes b) (b_names b) s c = Some t \<and> fo ! t = i)"
    proof
      assume e: "index_edge idx (fo ! s) c i"
      then have "0 < i" "i < length (nodes idx)" by (auto simp: index_edge_def)
      then obtain t where "t < length (b_nodes b)" "i = fo ! t" by (rule finished_ino [OF f])
      with e finished_edge [OF wf f s] show "\<exists>t. tmp_child (b_nodes b) (b_names b) s c = Some t \<and> fo ! t = i" by blast
    next
      assume "\<exists>t. tmp_child (b_nodes b) (b_names b) s c = Some t \<and> fo ! t = i"
      then obtain t where t: "tmp_child (b_nodes b) (b_names b) s c = Some t" "fo ! t = i" by blast
      then have "t < length (b_nodes b)" using inv by (simp add: tmp_child_Some tree_inv_def)
      with finished_edge [OF wf f s] t show "index_edge idx (fo ! s) c i" by blast
    qed
    with Some snoc show ?thesis by (auto simp: tree.walk_snoc [OF iw] tmp_walk_snoc map_option_eq_Some)
  qed
  obtain r where "index_walk idx (q @ [c]) = Ok r" using tree.walk_total [OF iw] by blast
  with some show ?case by (cases r; cases "walk_to b (q @ [c])") auto
qed

lemma finished_view:
  assumes wf: "builder_wf b" and f: "finished b order fc fo idx"
    and small: "length (b_nodes b) < u32_max" "length (b_metas b) \<le> u32_max"
  shows "index_view idx = view b"
proof
  fix q
  have iw: "index_wf idx" by (rule finished_index_wf [OF wf f small])
  show "index_view idx q = view b q"
  proof (cases "walk_to b q")
    case None
    then show ?thesis by (simp add: index_view_def finished_walk [OF wf f iw] view_def tmp_view_def)
  next
    case (Some t)
    then have t: "t < length (b_nodes b)" using tmp_walk_in_range builder_wfD(2) [OF wf] by blast
    have "index_info idx (fo ! t) = node_info (b_metas b) (b_nodes b ! t)"
      using finished_node(1) [OF f t] builder_wfD(3) [OF wf t] f small(2)
      by (auto simp: index_info_def meta_of_def node_info_def out_node_def node_wf_def finished_def NO_META_def split: if_splits)
    with Some show ?thesis by (simp add: index_view_def finished_walk [OF wf f iw] view_def tmp_view_def)
  qed
qed

end
