(* ===== verification/Build_Correct.thy ===== *)
theory Build_Correct
  imports Finish_Index "HOL-Library.Multiset"
begin

text \<open>
  The theorems about \<open>build\<close> as a whole. They are stated for archives of fewer than 16,777,215
  records, the number up to which node numbers cannot run out of 32 bits, whatever the paths are.
\<close>

definition fits :: "'w zip_record list \<Rightarrow> bool" where
  "fits rs \<longleftrightarrow> MAX_DEPTH * length rs + 1 < u32_max"

section \<open>Taking a build apart\<close>

lemma add_records_small:
  assumes "fits rs" and "add_records xc (map Inr rs) (builder_new hint) = Ok b"
  shows "length (b_nodes b) < u32_max"
proof -
  have "length (b_nodes b') \<le> length (b_nodes b) + MAX_DEPTH * length rs"
    if "builder_wf b" "length (b_nodes b) + MAX_DEPTH * length rs \<le> u32_max"
      "add_records xc (map Inr rs) b = Ok b'" for b b' :: "'a builder" and rs
    using that
  proof (induction rs arbitrary: b)
    case (Cons r rs)
    then obtain b1 where a: "add_entry xc b (zr_path r) (zr_is_dir r) (record_meta r) = Ok b1"
      and rest: "add_records xc (map Inr rs) b1 = Ok b'" by auto
    have small: "length (b_nodes b) + MAX_DEPTH \<le> u32_max" using Cons.prems(2) by simp
    have len: "length (b_nodes b1) \<le> length (b_nodes b) + MAX_DEPTH"
      using add_entry_benign(2) [OF Cons.prems(1) small a] .
    with small have "builder_wf b1" using add_entry_refines [OF Cons.prems(1) a] by simp
    with Cons.IH [OF this _ rest] Cons.prems(2) len show ?case by simp
  qed simp
  from this [OF builder_wf_new [of hint] _ assms(2)] assms(1) show ?thesis
    by (simp add: fits_def builder_new_def)
qed

lemma build_steps:
  assumes fits: "fits rs" and r: "build xc hint (map Inr rs) = Ok (idx, stats)"
  obtains b order fc fo where "builder_wf b" and "counts_wf b" and "accounted b = length rs"
    and "view b = fold (spec_record xc) rs spec_empty"
    and "length (b_nodes b) < u32_max" and "length (b_metas b) \<le> u32_max"
    and "finished b order fc fo idx" and "symlinks idx = replicate (b_symlink_count b) None"
    and "stats = (b_stats b)\<lparr>st_synthetic_dirs := length (filter (\<lambda>n. synthetic (flags n)) (drop 2 (nodes idx)))\<rparr>"
    and "total_uncompressed idx = fold (add_size (b_nodes b) (b_metas b)) order 0"
    and "\<And>m. m \<in> set (b_metas b) \<Longrightarrow> \<exists>r \<in> set rs. m\<lparr>symlink_slot := 0\<rparr> = record_meta r"
proof -
  from r obtain b where b: "add_records xc (map Inr rs) (builder_new (min hint MAX_PREALLOC)) = Ok b"
    and f: "finish (b\<lparr>b_stats := stats_default\<rparr>) = Ok idx"
    and stats: "stats = (b_stats b)\<lparr>st_synthetic_dirs := length (filter (\<lambda>n. synthetic (flags n)) (drop 2 (nodes idx)))\<rparr>"
    by (auto simp: build_def Let_def)
  have small: "length (b_nodes b) < u32_max" by (rule add_records_small [OF fits b])
  then have le: "length (b_nodes b) \<le> u32_max" by simp
  note ref = add_records_refines [OF b le builder_wf_new]
  note cnt = add_records_counts [OF b le builder_wf_new counts_new(1)]
  have metas: "length (b_metas b) \<le> u32_max"
    using add_records_metas [OF b] fits by (simp add: fits_def builder_new_def MAX_DEPTH_def)
  let ?b = "b\<lparr>b_stats := stats_default\<rparr>"
  have "builder_wf ?b" "length (b_nodes ?b) < u32_max" using ref small by auto
  then obtain order fc fo idx' where fin: "finish ?b = Ok idx'" "finished ?b order fc fo idx'"
    "symlinks idx' = replicate (b_symlink_count ?b) None"
    "total_uncompressed idx' = fold (add_size (b_nodes ?b) (b_metas ?b)) order 0" by (rule finish_finished)
  then have idx: "idx' = idx" using f by simp
  have acc: "accounted b = length rs" unfolding cnt(2) counts_new(2) by simp
  have vw: "view b = fold (spec_record xc) rs spec_empty" unfolding ref(2) view_new ..
  have from_rs: "\<And>m. m \<in> set (b_metas b) \<Longrightarrow> \<exists>r \<in> set rs. m\<lparr>symlink_slot := 0\<rparr> = record_meta r"
    using add_records_from [OF b] by (simp add: builder_new_def)
  show thesis
    by (rule that [OF ref(1) cnt(1) acc vw small metas, of order fc fo])
      (use fin stats idx from_rs in \<open>simp_all add: finished_def\<close>)
qed

lemma build_index_wf:
  assumes "fits rs" and "build xc hint (map Inr rs) = Ok (idx, stats)"
  shows "index_wf idx" and "index_view idx = fold (spec_record xc) rs spec_empty"
proof -
  obtain b order fc fo where b: "builder_wf b" "finished b order fc fo idx" "length (b_nodes b) < u32_max"
    "length (b_metas b) \<le> u32_max" "view b = fold (spec_record xc) rs spec_empty"
    using build_steps [OF assms] by metis
  show "index_wf idx" by (rule finished_index_wf [OF b(1-4)])
  show "index_view idx = fold (spec_record xc) rs spec_empty" using finished_view [OF b(1-4)] b(5) by simp
qed

lemma build_no_panic:
  assumes "fits rs"
  shows "benign (build xc hint (map Inr rs))"
proof -
  let ?b0 = "builder_new (min hint MAX_PREALLOC)"
  have "benign (add_records xc (map Inr rs) ?b0)"
    using assms by (intro add_records_benign builder_wf_new) (simp add: fits_def builder_new_def)
  moreover have "benign (finish (b\<lparr>b_stats := stats_default\<rparr>))" if b: "add_records xc (map Inr rs) ?b0 = Ok b" for b
  proof -
    have small: "length (b_nodes b) < u32_max" by (rule add_records_small [OF assms b])
    then have "builder_wf b" using add_records_refines(1) [OF b _ builder_wf_new] by simp
    with small obtain idx where "finish (b\<lparr>b_stats := stats_default\<rparr>) = Ok idx"
      using finish_finished [of "b\<lparr>b_stats := stats_default\<rparr>"] by auto
    then show ?thesis by simp
  qed
  ultimately show ?thesis unfolding build_def Let_def by (auto intro!: benign_rbind)
qed

section \<open>Counts\<close>

lemma finished_flags:
  assumes "finished b order fc fo idx" and "b_nodes b \<noteq> []"
  shows "length (filter (\<lambda>n. P (flags n)) (drop 1 (nodes idx))) = length (filter (\<lambda>n. P (tn_flags n)) (b_nodes b))"
proof -
  have r: "relabelled (b_nodes b) (b_names b) order fc fo" using assms(1) by (simp add: finished_def)
  have "set order = set [0..<length (b_nodes b)]" using r by (simp add: relabelled_def lessThan_atLeast0)
  then have m: "mset order = mset [0..<length (b_nodes b)]"
    using set_eq_iff_mset_eq_distinct [OF relabelledD(2) [OF r] distinct_upt] by blast
  have "length (filter (\<lambda>n. P (flags n)) (drop 1 (nodes idx))) = size (filter_mset (\<lambda>t. P (tn_flags (b_nodes b ! t))) (mset order))"
    using assms(1) unfolding finished_def mset_filter [symmetric] size_mset
    by (simp add: filter_map o_def out_node_def)
  also have "\<dots> = length (filter (\<lambda>t. P (tn_flags (b_nodes b ! t))) [0..<length (b_nodes b)])"
    unfolding m mset_filter [symmetric] size_mset ..
  also have "\<dots> = length (filter (\<lambda>n. P (tn_flags n)) (b_nodes b))"
    by (subst filter_nth_upt) simp
  finally show ?thesis .
qed

lemma build_counts:
  assumes "fits rs" and "build xc hint (map Inr rs) = Ok (idx, stats)"
  shows "length (filter (\<lambda>n. \<not> synthetic (flags n)) (drop 1 (nodes idx)))
      + st_duplicates stats + st_rejected_paths stats + st_rejected_sizes stats = length rs"
    and "length (metas idx) = st_entries stats" and "length (symlinks idx) = st_symlinks stats"
    and "\<exists>b. add_records xc (map Inr rs) (builder_new (min hint MAX_PREALLOC)) = Ok b \<and> stats = b_stats b"
proof -
  from assms(2) obtain b where a: "add_records xc (map Inr rs) (builder_new (min hint MAX_PREALLOC)) = Ok b"
    and f: "finish (b\<lparr>b_stats := stats_default\<rparr>) = Ok idx"
    and stats: "stats = (b_stats b)\<lparr>st_synthetic_dirs := length (filter (\<lambda>n. synthetic (flags n)) (drop 2 (nodes idx)))\<rparr>"
    by (auto simp: build_def Let_def)
  have small: "length (b_nodes b) < u32_max" by (rule add_records_small [OF assms(1) a])
  then have le: "length (b_nodes b) \<le> u32_max" by simp
  have wf: "builder_wf b" using add_records_refines(1) [OF a le builder_wf_new] .
  note cnt = add_records_counts [OF a le builder_wf_new counts_new(1)]
  have "builder_wf (b\<lparr>b_stats := stats_default\<rparr>)" "length (b_nodes (b\<lparr>b_stats := stats_default\<rparr>)) < u32_max"
    using wf small by auto
  then obtain order fc fo idx' where "finish (b\<lparr>b_stats := stats_default\<rparr>) = Ok idx'"
    and "finished (b\<lparr>b_stats := stats_default\<rparr>) order fc fo idx'" by (rule finish_finished)
  then have fin': "finished b order fc fo idx" using f by (simp add: finished_def)
  note flags = finished_flags [OF fin' builder_wfD(10) [OF wf]]
  show "length (filter (\<lambda>n. \<not> synthetic (flags n)) (drop 1 (nodes idx)))
      + st_duplicates stats + st_rejected_paths stats + st_rejected_sizes stats = length rs"
    using flags [of "\<lambda>f. \<not> synthetic f"] cnt(2) counts_new(2) stats by (simp add: accounted_def n_claimed_def)
  show "length (metas idx) = st_entries stats" "length (symlinks idx) = st_symlinks stats"
    using cnt(1) fin' stats by (simp_all add: counts_wf_def finished_def)
  have "synthetic (flags (nodes idx ! ROOT_INO))"
    using finished_node(1) [OF fin', of 0] finished_root [OF fin' builder_wfD(10) [OF wf]] builder_wfD(4,10) [OF wf]
    by (simp add: out_node_def)
  moreover have "drop 1 (nodes idx) = nodes idx ! ROOT_INO # drop 2 (nodes idx)"
    using build_index_wf(1) [OF assms] by (simp add: index_wf_def ROOT_INO_def Cons_nth_drop_Suc numeral_2_eq_2)
  ultimately have "length (filter (\<lambda>n. synthetic (flags n)) (drop 2 (nodes idx))) = st_synthetic_dirs (b_stats b)"
    using flags [of synthetic] cnt(1) by (simp add: counts_wf_def n_synthetic_def)
  with a stats show "\<exists>b. add_records xc (map Inr rs) (builder_new (min hint MAX_PREALLOC)) = Ok b \<and> stats = b_stats b" by auto
qed

section \<open>What paths the tree has\<close>

definition safe_component :: "bytes \<Rightarrow> bool" where
  "safe_component c \<longleftrightarrow> c \<noteq> [] \<and> c \<noteq> [DOT] \<and> c \<noteq> [DOT, DOT] \<and> SLASH \<notin> set c \<and> 0 \<notin> set c
     \<and> length c \<le> MAX_COMPONENT"

lemma split_at_slash_bytes: "c \<in> set (split_at_slash p) \<Longrightarrow> set c \<subseteq> set p"
  by (induction p arbitrary: c rule: split_at_slash.induct) (fastforce split: if_splits list.splits)+

lemma accepted_components:
  assumes "reject_reason p = None" and "c \<in> set (components p)"
  shows "safe_component c"
proof -
  have "set c \<subseteq> set p" using assms(2) split_at_slash_bytes by (auto simp: components_def)
  with assms components_good [OF assms(2)] show ?thesis
    by (auto simp: reject_reason_None safe_component_def good_component_def)
qed

text \<open>A tree of safe paths in which every path below the root hangs on a directory.\<close>

definition spec_wf :: "'w tree_spec \<Rightarrow> bool" where
  "spec_wf t \<longleftrightarrow> (\<exists>d. t [] = Some (Dir, d))
     \<and> (\<forall>q c. t (q @ [c]) \<noteq> None \<longrightarrow> safe_component c \<and> length q < MAX_DEPTH \<and> (\<exists>d. t q = Some (Dir, d)))"

lemma spec_wf_empty: "spec_wf spec_empty"
  by (simp add: spec_wf_def spec_empty_def)

lemma spec_wf_upd:
  assumes "spec_wf t" and "t q = Some (Dir, d)" and "safe_component c" and "length q < MAX_DEPTH"
    and "k = Dir \<or> t (q @ [c]) = None"
  shows "spec_wf (t(q @ [c] \<mapsto> (k, x)))"
  using assms unfolding spec_wf_def by (fastforce split: if_splits)

lemma spec_mkdir_wf:
  assumes "spec_wf t" and "t q = Some (Dir, d)" and "safe_component c" and "length q < MAX_DEPTH"
  shows "spec_wf (spec_mkdir (q @ [c]) t)" and "\<exists>d. spec_mkdir (q @ [c]) t (q @ [c]) = Some (Dir, d)"
  using assms spec_wf_upd [OF assms, of Dir None]
  by (auto simp: spec_mkdir_def split: option.splits node_kind.splits prod.splits)

lemma spec_mkdirs_wf:
  assumes "spec_wf t" and "t pre = Some (Dir, d)" and "\<And>c. c \<in> set cs \<Longrightarrow> safe_component c"
    and "length pre + length cs \<le> MAX_DEPTH"
  shows "spec_wf (spec_mkdirs pre cs t) \<and> (\<exists>d. spec_mkdirs pre cs t (pre @ cs) = Some (Dir, d))"
  using assms
proof (induction cs arbitrary: pre t d)
  case (Cons c cs)
  note m = spec_mkdir_wf [OF Cons.prems(1,2), of c]
  then obtain d' where "spec_wf (spec_mkdir (pre @ [c]) t)" "spec_mkdir (pre @ [c]) t (pre @ [c]) = Some (Dir, d')"
    using Cons.prems(3,4) by auto
  with Cons.IH [OF this] Cons.prems(3,4) show ?case by simp
qed auto

lemma spec_add_wf: "spec_wf t \<Longrightarrow> spec_wf (spec_add xc path is_dir m t)"
proof -
  assume wf: "spec_wf t"
  show ?thesis
  proof (cases "reject_reason path \<noteq> None \<or> stored_sizes_differ xc m \<or> compressed_size_zero m")
    case True
    with wf show ?thesis by (auto simp: spec_add_def)
  next
    case False
    then have ne: "components path \<noteq> []" "length (components path) \<le> MAX_DEPTH"
      and safe: "\<And>c. c \<in> set (components path) \<Longrightarrow> safe_component c"
      using accepted_components by (auto simp: reject_reason_None)
    then obtain q c where cs: "components path = q @ [c]" by (cases "components path" rule: rev_cases) auto
    let ?t = "spec_mkdirs [] q t"
    obtain d0 where "t [] = Some (Dir, d0)" using wf by (auto simp: spec_wf_def)
    then obtain d where t: "spec_wf ?t" "?t q = Some (Dir, d)"
      using spec_mkdirs_wf [OF wf, of "[]" d0 q] ne safe cs by auto
    have "spec_wf (spec_claim (q @ [c]) k m ?t)" for k
      using spec_wf_upd [OF t, of c] t safe cs ne
      by (auto simp: spec_claim_def split: option.splits)
    with False cs show ?thesis by (simp add: spec_add_def)
  qed
qed

lemma spec_records_wf: "spec_wf t \<Longrightarrow> spec_wf (fold (spec_record xc) rs t)"
  by (induction rs arbitrary: t) (auto simp: spec_record_def spec_add_wf)

section \<open>Theorems\<close>

text \<open>An archive of few enough records with not too many bytes of paths.\<close>

definition fits_names :: "'w zip_record list \<Rightarrow> bool" where
  "fits_names rs \<longleftrightarrow> fits rs \<and> sum_list (map (\<lambda>r. length (zr_path r)) rs) \<le> u32_max"

lemma build_total:
  assumes "fits_names rs"
  shows "\<exists>idx stats. build xc hint (map Inr rs) = Ok (idx, stats)"
proof -
  let ?b0 = "builder_new (min hint MAX_PREALLOC)"
  have rm: "room ?b0 (length rs) (sum_list (map (\<lambda>r. length (zr_path r)) rs))"
    using assms by (simp add: room_def builder_new_def fits_names_def fits_def MAX_DEPTH_def)
  have fits: "fits rs" using assms by (simp add: fits_names_def)
  from add_records_succeeds [OF builder_wf_new rm] obtain b where b: "add_records xc (map Inr rs) ?b0 = Ok b" by blast
  then have small: "length (b_nodes b) < u32_max" by (rule add_records_small [OF fits])
  then have "builder_wf b" using add_records_refines(1) [OF b _ builder_wf_new] by simp
  then have "builder_wf (b\<lparr>b_stats := stats_default\<rparr>)" "length (b_nodes (b\<lparr>b_stats := stats_default\<rparr>)) < u32_max"
    using small by auto
  then obtain order fc fo idx where "finish (b\<lparr>b_stats := stats_default\<rparr>) = Ok idx" by (rule finish_finished)
  with b show ?thesis by (simp add: build_def)
qed

definition sample_record :: "bytes \<Rightarrow> bool \<Rightarrow> unit zip_record" where
  "sample_record p d = \<lparr> zr_path = p, zr_is_dir = d, zr_mode = 0x81A4,
     zr_modified = \<lparr> dt_year = 2024, dt_month = 1, dt_day = 2, dt_hour = 3, dt_minute = 4,
       dt_second = 5, dt_nanosecond = 0 \<rparr>,
     zr_wayfinder = (), zr_uncompressed_size_hint = 5, zr_compressed_size_hint = 5, zr_crc32 = 0,
     zr_method = 0, zr_encrypted = False \<rparr>"

text \<open>
  C8. Building succeeds: when the records fit and their paths have at most 4 GiB together,
  \<open>build\<close> returns an index, so that the interner, the counting sort, the breadth-first relabelling
  and every index and slice on the way return too.
\<close>

theorem build_succeeds:
  assumes "fits_names rs"
  shows "\<exists>idx stats. build xc hint (map Inr rs) = Ok (idx, stats)"
  by (rule build_total [OF assms])

text \<open>A file \<open>a/b\<close>, then a file \<open>a\<close>.\<close>

definition sample_archive :: "unit zip_record list" where
  "sample_archive = [sample_record [97, 47, 98] False, sample_record [97] False]"

lemma sample_fits: "fits_names sample_archive"
  by (simp add: fits_names_def fits_def sample_archive_def sample_record_def MAX_DEPTH_def)

text \<open>The hypothesis of C8 at a concrete archive.\<close>

theorem build_succeeds_witness:
  "\<exists>idx stats. build std_consts 2 (map Inr sample_archive) = Ok (idx, stats)"
  by (rule build_succeeds [OF sample_fits])

lemma sample_build:
  obtains idx stats where "fits sample_archive" and "build std_consts 2 (map Inr sample_archive) = Ok (idx, stats)"
  using build_total [OF sample_fits, of std_consts 2] sample_fits by (auto simp: fits_names_def)

lemma sample_spec:
  "spec_record std_consts (sample_record [97, 47, 98] False) t
     = spec_claim [[97], [98]] File (record_meta (sample_record [97, 47, 98] False)) (spec_mkdir [[97]] t)"
  "spec_record std_consts (sample_record [97] False) t
     = spec_claim [[97]] File (record_meta (sample_record [97] False)) t"
proof -
  have c: "components [97, 47, 98] = [[97], [98]]" "components [97] = [[97]]" by (simp_all add: components_def)
  have "reject_reason [97, 47, 98] = None" "reject_reason [97] = None"
    by (simp_all add: reject_reason_None c MAX_COMPONENT_def MAX_DEPTH_def)
  moreover have "\<not> stored_sizes_differ std_consts (record_meta (sample_record p d))"
    "\<not> compressed_size_zero (record_meta (sample_record p d))"
    "entry_kind std_consts False (record_meta (sample_record p d)) = File" for p d
    by (simp_all add: stored_sizes_differ_def compressed_size_zero_def entry_kind_def is_symlink_mode_def
        record_meta_def sample_record_def std_consts_def Let_def split: prod.splits)
  moreover have "zr_path (sample_record p d) = p" "zr_is_dir (sample_record p d) = d" for p d
    by (simp_all add: sample_record_def)
  ultimately show
    "spec_record std_consts (sample_record [97, 47, 98] False) t
     = spec_claim [[97], [98]] File (record_meta (sample_record [97, 47, 98] False)) (spec_mkdir [[97]] t)"
    "spec_record std_consts (sample_record [97] False) t
     = spec_claim [[97]] File (record_meta (sample_record [97] False)) t"
    by (simp_all add: spec_record_def spec_add_def c)
qed



text \<open>
  C9. The built index is well formed: every directory's children are a slice of the nodes, in
  range, strictly sorted by name and pointing back at the directory; every node but the root lies
  in its parent's slice; a synthetic node is a directory without an entry, any other node has one;
  a symlink's slot exists; the subdirectory counts are right.
\<close>

theorem build_wf:
  assumes "fits rs" and "build xc hint (map Inr rs) = Ok (idx, stats)"
  shows "index_wf idx"
  by (rule build_index_wf(1) [OF assms])

text \<open>C9 on the sample archive.\<close>

theorem build_wf_witness:
  "\<exists>idx stats. build std_consts 2 (map Inr sample_archive) = Ok (idx, stats) \<and> index_wf idx"
proof -
  obtain idx stats where b: "fits sample_archive" "build std_consts 2 (map Inr sample_archive) = Ok (idx, stats)"
    by (rule sample_build)
  then show ?thesis using build_wf [OF b] by blast
qed

text \<open>
  C10. No path of the mounted tree leaves it: every component of every path the index has is a
  usable name (not empty, not \<open>.\<close> or \<open>..\<close>, without a slash or a NUL, at most 255 bytes), a path has
  at most 256 of them, and every proper prefix of a path is a directory.
\<close>

theorem build_paths_safe:
  assumes "fits rs" and "build xc hint (map Inr rs) = Ok (idx, stats)" and "index_view idx (q @ [c]) \<noteq> None"
  shows "safe_component c \<and> length q < MAX_DEPTH \<and> (\<exists>d. index_view idx q = Some (Dir, d))"
  using spec_records_wf [OF spec_wf_empty, of xc rs] build_index_wf(2) [OF assms(1,2)] assms(3)
  unfolding spec_wf_def by auto

text \<open>C10 at the path \<open>a/b\<close> of the sample archive.\<close>

theorem build_paths_safe_witness:
  "\<exists>idx stats. build std_consts 2 (map Inr sample_archive) = Ok (idx, stats)
     \<and> index_view idx ([[97]] @ [[98]]) \<noteq> None \<and> safe_component [98] \<and> length [[97 :: byte]] < MAX_DEPTH
     \<and> (\<exists>d. index_view idx [[97]] = Some (Dir, d))"
proof -
  obtain idx stats where b: "fits sample_archive" "build std_consts 2 (map Inr sample_archive) = Ok (idx, stats)"
    by (rule sample_build)
  have "fold (spec_record std_consts) sample_archive spec_empty ([[97]] @ [[98]]) \<noteq> None"
    by (simp add: sample_archive_def sample_spec spec_claim_def spec_mkdir_def spec_empty_def)
  then have n: "index_view idx ([[97]] @ [[98]]) \<noteq> None" using build_index_wf(2) [OF b] by simp
  show ?thesis using b(2) n build_paths_safe [OF b n] by blast
qed

text \<open>
  C27. The counts account for every record: the nodes held by an entry, the duplicates and the two
  kinds of rejections add up to the number of records, there are as many metadata as counted
  entries and as many symlink slots as counted symlinks.
\<close>

theorem build_accounts:
  assumes "fits rs" and "build xc hint (map Inr rs) = Ok (idx, stats)"
  shows "length (filter (\<lambda>n. \<not> synthetic (flags n)) (drop 1 (nodes idx)))
      + st_duplicates stats + st_rejected_paths stats + st_rejected_sizes stats = length rs
    \<and> length (metas idx) = st_entries stats \<and> length (symlinks idx) = st_symlinks stats"
  using build_counts [OF assms] by blast

text \<open>C27 on the sample archive, of two records.\<close>

theorem build_accounts_witness:
  "\<exists>idx stats. build std_consts 2 (map Inr sample_archive) = Ok (idx, stats)
     \<and> length (filter (\<lambda>n. \<not> synthetic (flags n)) (drop 1 (nodes idx)))
       + st_duplicates stats + st_rejected_paths stats + st_rejected_sizes stats = 2"
proof -
  obtain idx stats where b: "fits sample_archive" "build std_consts 2 (map Inr sample_archive) = Ok (idx, stats)"
    by (rule sample_build)
  then show ?thesis using build_accounts [OF b] by (auto simp: sample_archive_def)
qed

text \<open>
  C28. Counting the synthetic directories again at the end of \<open>build\<close> changes nothing: the running
  counter, raised for every missing or taken over directory and lowered when an entry declares
  one, already has the number of synthetic nodes below the root.
\<close>

theorem build_recount:
  assumes "fits rs" and "build xc hint (map Inr rs) = Ok (idx, stats)"
  shows "\<exists>b. add_records xc (map Inr rs) (builder_new (min hint MAX_PREALLOC)) = Ok b \<and> stats = b_stats b"
  by (rule build_counts(4) [OF assms])

text \<open>C28 on the sample archive.\<close>

theorem build_recount_witness:
  "\<exists>idx stats b. build std_consts 2 (map Inr sample_archive) = Ok (idx, stats)
     \<and> add_records std_consts (map Inr sample_archive) (builder_new (min 2 MAX_PREALLOC)) = Ok b \<and> stats = b_stats b"
proof -
  obtain idx stats where b: "fits sample_archive" "build std_consts 2 (map Inr sample_archive) = Ok (idx, stats)"
    by (rule sample_build)
  then show ?thesis using build_recount [OF b] by blast
qed

text \<open>
  C26. Looking a name up in a built tree: \<open>lookup\<close> returns an inode exactly when that inode is a
  node whose parent is the directory and whose name is the name, for every parent and name.
\<close>

theorem build_lookup:
  assumes "fits rs" and "build xc hint (map Inr rs) = Ok (idx, stats)"
  shows "lookup idx p nm = Ok (Some i) \<longleftrightarrow> ROOT_INO < i \<and> i < len idx
    \<and> parent (nodes idx ! i) = p \<and> name_of idx (nodes idx ! i) = Ok nm"
proof -
  have wf: "index_wf idx" by (rule build_index_wf(1) [OF assms])
  then show ?thesis
    using tree.look_edge [OF wf, of p nm i] name_of_ok [OF wf, of i] by (auto simp: index_edge_def len_def ROOT_INO_def)
qed

text \<open>C26 on the sample archive, with the path \<open>a/b\<close> followed by two lookups.\<close>

theorem build_lookup_witness:
  "\<exists>idx stats i. build std_consts 2 (map Inr sample_archive) = Ok (idx, stats)
     \<and> lookup idx ROOT_INO [97] = Ok (Some i) \<and> ROOT_INO < i \<and> parent (nodes idx ! i) = ROOT_INO"
proof -
  obtain idx stats where b: "fits sample_archive" "build std_consts 2 (map Inr sample_archive) = Ok (idx, stats)"
    by (rule sample_build)
  have "fold (spec_record std_consts) sample_archive spec_empty [[97]] \<noteq> None"
    by (simp add: sample_archive_def sample_spec spec_claim_def spec_mkdir_def spec_empty_def)
  then have "index_view idx [[97]] \<noteq> None" using build_index_wf(2) [OF b] by simp
  then obtain i where "index_walk idx [[97]] = Ok (Some i)"
    unfolding index_view_def by (auto split: rust.splits option.splits)
  then have i: "lookup idx ROOT_INO [97] = Ok (Some i)" by (auto split: option.splits)
  then show ?thesis using b(2) build_lookup [OF b, of ROOT_INO "[97]" i] by blast
qed

text \<open>
  A node of a built tree has one path: two paths that lead from the root to the same inode are
  equal.
\<close>

lemma build_path_unique:
  assumes "fits rs" and "build xc hint (map Inr rs) = Ok (idx, stats)"
    and "index_walk idx q = Ok (Some i)" and "index_walk idx r = Ok (Some i)"
  shows "q = r"
  using tree.walk_unique [OF build_index_wf(1) [OF assms(1,2)] assms(3,4)] .

end
