(* ===== verification/Config.thy ===== *)
theory Config
  imports Zip_Prelude
begin

text \<open>
  \<^verbatim>\<open>src/config.rs\<close>: the configuration of a mount, its defaults, and \<open>clamp\<close>, which brings every
  field into its range before a file system is made. What the process asks the system for (the
  number of processors, the effective user and group) are arguments of the default.
\<close>

definition DEFAULT_SOURCE_BUFFER :: nat where "DEFAULT_SOURCE_BUFFER = 512 * 1024"
definition MIN_SOURCE_BUFFER :: nat where "MIN_SOURCE_BUFFER = 4 * 1024"
definition MAX_SOURCE_BUFFER :: nat where "MAX_SOURCE_BUFFER = 16 * 1024 * 1024"
definition SKIP_BUFFER :: nat where "SKIP_BUFFER = 64 * 1024"
definition MAX_IO :: nat where "MAX_IO = 1024 * 1024"

record config =
  verify :: bool
  source_buffer :: nat
  decoders_per_file :: nat
  max_retained_decoders :: nat
  threads :: nat
  uid :: nat
  gid :: nat
  file_mode :: u16
  dir_mode :: u16
  attr_ttl :: nat              \<comment> \<open>seconds\<close>
  allow_other :: bool
  allow_root :: bool
  auto_unmount :: bool

definition config_default :: "nat option \<Rightarrow> nat \<Rightarrow> nat \<Rightarrow> config" where
  "config_default parallelism euid egid =
     (let threads = (case map_option (\<lambda>n. min n 8) parallelism of None \<Rightarrow> 4 | Some n \<Rightarrow> min n 8) in
      \<lparr> verify = True, source_buffer = DEFAULT_SOURCE_BUFFER, decoders_per_file = 4,
        max_retained_decoders = 64, threads = threads, uid = euid, gid = egid,
        file_mode = 0x1A4, dir_mode = 0x1ED, attr_ttl = 365 * 24 * 3600,
        allow_other = False, allow_root = False, auto_unmount = False \<rparr>)"

text \<open>\<open>Ord::clamp\<close>\<close>

definition clamp_nat :: "nat \<Rightarrow> nat \<Rightarrow> nat \<Rightarrow> nat" where
  "clamp_nat lo hi n = (if n < lo then lo else if hi < n then hi else n)"

definition clamp :: "config \<Rightarrow> config" where
  "clamp c =
     (let c = c\<lparr>source_buffer := clamp_nat MIN_SOURCE_BUFFER MAX_SOURCE_BUFFER (source_buffer c)\<rparr>;
          c = c\<lparr>threads := max (threads c) 1\<rparr>;
          c = c\<lparr>max_retained_decoders := max (max_retained_decoders c) 1\<rparr>;
          c = c\<lparr>decoders_per_file := clamp_nat 1 (max_retained_decoders c) (decoders_per_file c)\<rparr>;
          c = c\<lparr>file_mode := file_mode c AND 0xFFF\<rparr>
      in c\<lparr>dir_mode := dir_mode c AND 0xFFF\<rparr>)"

definition max_cores :: "config \<Rightarrow> nat" where
  "max_cores c = threads c * 2 mod (usize_max + 1)"

text \<open>The permitted range of every field.\<close>

definition config_wf :: "config \<Rightarrow> bool" where
  "config_wf c \<longleftrightarrow> MIN_SOURCE_BUFFER \<le> source_buffer c \<and> source_buffer c \<le> MAX_SOURCE_BUFFER
     \<and> 1 \<le> threads c \<and> 1 \<le> decoders_per_file c \<and> decoders_per_file c \<le> max_retained_decoders c
     \<and> file_mode c \<le> 0xFFF \<and> dir_mode c \<le> 0xFFF"

lemma and_mode_id: "x AND 0xFFF = x \<longleftrightarrow> x \<le> (0xFFF :: u16)"
proof -
  have "unat (x AND 0xFFF) = unat x mod 4096"
    using nat_and_mask_mod [of "unat x" 12] by (simp add: unsigned_and_eq)
  then have "x AND 0xFFF = x \<longleftrightarrow> unat x mod 4096 = unat x" by (simp add: word_unat_eq_iff)
  also have "\<dots> \<longleftrightarrow> unat x \<le> 4095" by (auto simp: mod_eq_self_iff_div_eq_0)
  finally show ?thesis by (simp add: word_le_nat_alt)
qed

lemma clamp_in_range: "config_wf (clamp c)"
  by (auto simp: config_wf_def clamp_def Let_def clamp_nat_def MIN_SOURCE_BUFFER_def MAX_SOURCE_BUFFER_def word_and_le1)

text \<open>
  C37. \<open>clamp\<close> puts a configuration into its range, whatever the settings were, and changes exactly
  the configurations that are out of range, so clamping twice is clamping once.
\<close>

theorem clamp_range:
  "config_wf (clamp c) \<and> (clamp c = c \<longleftrightarrow> config_wf c) \<and> clamp (clamp c) = clamp c"
proof -
  have eq: "clamp c = c \<longleftrightarrow> config_wf c" for c
  proof
    assume "clamp c = c"
    with clamp_in_range [of c] show "config_wf c" by simp
  next
    assume "config_wf c"
    then show "clamp c = c"
      by (auto simp: config_wf_def clamp_def Let_def clamp_nat_def and_mode_id max_def)
  qed
  show ?thesis using clamp_in_range eq by blast
qed

end
