(* ===== verification/Codec.thy ===== *)
theory Codec
  imports Index_Types "HOL-Library.Sublist"
begin

text \<open>
  \<^verbatim>\<open>src/codec.rs\<close>, \<^verbatim>\<open>src/codec/deflate.rs\<close>, \<^verbatim>\<open>src/codec/zstd.rs\<close>: the decompressors, one buffer at a
  time.

  The crates \<open>flate2\<close>, \<open>zstd\<close> and \<open>crc32fast\<close> are the fields of \<open>libs\<close>, an argument of the
  definitions that call them. An output slice is the list of its bytes, returned as the call leaves
  it. What the code relies on is stated by \<open>flate2_laws\<close>, \<open>zstd_laws\<close> and \<open>crc_laws\<close>.

  The contract of the trait \<open>Decompressor\<close> is the locale \<open>decompressor\<close>.
\<close>

record ('d, 'z, 'h) libs =
  flate_new :: 'd                               \<comment> \<open>\<open>Decompress::new(false)\<close>\<close>
  flate_reset :: "'d \<Rightarrow> 'd"                     \<comment> \<open>\<open>reset(false)\<close>\<close>
  flate_total_in :: "'d \<Rightarrow> nat"
  flate_total_out :: "'d \<Rightarrow> nat"
  flate_decompress :: "'d \<Rightarrow> bytes \<Rightarrow> bytes \<Rightarrow> 'd \<times> bytes \<times> (string + bool)"  \<comment> \<open>true: \<open>StreamEnd\<close>\<close>
  zstd_new :: "'z option"
  zstd_reinit :: "'z \<Rightarrow> 'z"
  zstd_run :: "'z \<Rightarrow> bytes \<Rightarrow> bytes \<Rightarrow> 'z \<times> bytes \<times> (string + nat \<times> nat \<times> nat)"
    \<comment> \<open>\<open>run_on_buffers\<close>: \<open>bytes_read\<close>, \<open>bytes_written\<close>, \<open>remaining\<close>\<close>
  crc_new :: 'h
  crc_update :: "'h \<Rightarrow> bytes \<Rightarrow> 'h"
  crc_reset :: "'h \<Rightarrow> 'h"
  crc_finalize :: "'h \<Rightarrow> u32"

record step =
  step_consumed :: nat
  step_produced :: nat
  step_done :: bool

datatype codec_error = CodecError string

text \<open>A decompressor's \<open>step\<close>: its state, the input and the output slice before and after.\<close>

type_synonym 'c stepper = "'c \<Rightarrow> bytes \<Rightarrow> bytes \<Rightarrow> 'c \<times> bytes \<times> (codec_error + step)"

definition codec_io_error :: "codec_error \<Rightarrow> io_error" where
  "codec_io_error e = \<lparr> io_kind_of = InvalidData, raw_os_error = None \<rparr>"

section \<open>Store\<close>

definition store_reinit :: "unit \<Rightarrow> unit" where
  "store_reinit c = c"

definition store_step :: "unit stepper" where
  "store_step c input out =
     (let n = min (length input) (length out)
      in (c, take n input @ drop n out, Inr \<lparr> step_consumed = n, step_produced = n, step_done = False \<rparr>))"

section \<open>Deflate\<close>

definition deflate_new :: "('d, 'z, 'h) libs \<Rightarrow> 'd" where
  "deflate_new L = flate_new L"

definition deflate_reinit :: "('d, 'z, 'h) libs \<Rightarrow> 'd \<Rightarrow> 'd" where
  "deflate_reinit L d = flate_reset L d"

definition deflate_step :: "('d, 'z, 'h) libs \<Rightarrow> 'd stepper" where
  "deflate_step L d input out =
     (let before_in = flate_total_in L d; before_out = flate_total_out L d in
      case flate_decompress L d input out of
        (d, out, Inl e) \<Rightarrow> (d, out, Inl (CodecError (''deflate: '' @ e)))
      | (d, out, Inr stream_end) \<Rightarrow>
          (case try_usize (wrapping_sub_u64 (flate_total_in L d) before_in) of
             None \<Rightarrow> (d, out, Inl (CodecError ''deflate input count overflow''))
           | Some consumed \<Rightarrow>
               (case try_usize (wrapping_sub_u64 (flate_total_out L d) before_out) of
                  None \<Rightarrow> (d, out, Inl (CodecError ''deflate output count overflow''))
                | Some produced \<Rightarrow>
                    (d, out, Inr \<lparr> step_consumed = consumed, step_produced = produced, step_done = stream_end \<rparr>))))"

section \<open>Zstandard\<close>

definition zstd_codec_new :: "('d, 'z, 'h) libs \<Rightarrow> ('e, 'z) rust" where
  "zstd_codec_new L = expect (zstd_new L)"

definition zstd_codec_reinit :: "('d, 'z, 'h) libs \<Rightarrow> 'z \<Rightarrow> 'z" where
  "zstd_codec_reinit L z = zstd_reinit L z"

definition zstd_step :: "('d, 'z, 'h) libs \<Rightarrow> 'z stepper" where
  "zstd_step L z input out =
     (case zstd_run L z input out of
        (z, out, Inl e) \<Rightarrow> (z, out, Inl (CodecError (''zstd: '' @ e)))
      | (z, out, Inr (bytes_read, bytes_written, left)) \<Rightarrow>
          (z, out, Inr \<lparr> step_consumed = bytes_read, step_produced = bytes_written, step_done = (left = 0) \<rparr>))"

section \<open>The codec of an entry\<close>

datatype ('d, 'z) codec = StoreCodec unit | DeflateCodec 'd | ZstdCodec 'z

definition codec_new :: "('d, 'z, 'h) libs \<Rightarrow> cmethod \<Rightarrow> ('e, ('d, 'z) codec) rust" where
  "codec_new L m = (case m of
      Store \<Rightarrow> Ok (StoreCodec ())
    | Deflate \<Rightarrow> Ok (DeflateCodec (deflate_new L))
    | Zstd \<Rightarrow> rbind (zstd_codec_new L) (\<lambda>z. Ok (ZstdCodec z)))"

definition codec_method :: "('d, 'z) codec \<Rightarrow> cmethod" where
  "codec_method c = (case c of StoreCodec _ \<Rightarrow> Store | DeflateCodec _ \<Rightarrow> Deflate | ZstdCodec _ \<Rightarrow> Zstd)"

definition codec_reinit :: "('d, 'z, 'h) libs \<Rightarrow> ('d, 'z) codec \<Rightarrow> ('d, 'z) codec" where
  "codec_reinit L c = (case c of
      StoreCodec u \<Rightarrow> StoreCodec (store_reinit u)
    | DeflateCodec d \<Rightarrow> DeflateCodec (deflate_reinit L d)
    | ZstdCodec z \<Rightarrow> ZstdCodec (zstd_codec_reinit L z))"

definition codec_step :: "('d, 'z, 'h) libs \<Rightarrow> ('d, 'z) codec stepper" where
  "codec_step L c input out = (case c of
      StoreCodec u \<Rightarrow> (case store_step u input out of (u, r) \<Rightarrow> (StoreCodec u, r))
    | DeflateCodec d \<Rightarrow> (case deflate_step L d input out of (d, r) \<Rightarrow> (DeflateCodec d, r))
    | ZstdCodec z \<Rightarrow> (case zstd_step L z input out of (z, r) \<Rightarrow> (ZstdCodec z, r)))"

section \<open>The contract of a decompressor\<close>

text \<open>
  \<open>decode c x\<close> is all the output a decompressor like \<open>c\<close> can give for the compressed bytes \<open>x\<close>, and
  \<open>hist c x y\<close> says that \<open>c\<close>, since its last \<open>reinit\<close>, has taken the bytes \<open>x\<close> and delivered \<open>y\<close>. What
  is delivered does not depend on how the input and the output are cut. A call that fails leaves a
  decompressor that delivers no wrong bytes later: it fails again or goes on as if not called.
\<close>

locale decompressor =
  fixes reinit :: "'c \<Rightarrow> 'c" and step :: "'c stepper"
    and hist :: "'c \<Rightarrow> bytes \<Rightarrow> bytes \<Rightarrow> bool" and decode :: "'c \<Rightarrow> bytes \<Rightarrow> bytes"
  assumes reinit_hist: "hist (reinit c) [] []"
    and reinit_decode: "decode (reinit c) = decode c"
    and decode_mono: "prefix x x' \<Longrightarrow> prefix (decode c x) (decode c x')"
    and hist_prefix: "hist c x y \<Longrightarrow> prefix y (decode c x)"
    and step_length: "hist c x y \<Longrightarrow> step c input out = (c', out', r) \<Longrightarrow> length out' = length out"
    and step_decode: "hist c x y \<Longrightarrow> step c input out = (c', out', r) \<Longrightarrow> decode c' = decode c"
    and step_error: "hist c x y \<Longrightarrow> step c input out = (c', out', Inl e) \<Longrightarrow> hist c' x y"
    and step_bounds: "hist c x y \<Longrightarrow> step c input out = (c', out', Inr s) \<Longrightarrow>
        step_consumed s \<le> length input \<and> step_produced s \<le> length out"
    and step_hist: "hist c x y \<Longrightarrow> step c input out = (c', out', Inr s) \<Longrightarrow>
        hist c' (x @ take (step_consumed s) input) (y @ take (step_produced s) out')"
    and step_done: "hist c x y \<Longrightarrow> step c input out = (c', out', Inr s) \<Longrightarrow> step_done s \<Longrightarrow>
        decode c (x @ take (step_consumed s) input @ rest) = y @ take (step_produced s) out'"
    and step_drained: "hist c x y \<Longrightarrow> step c [] out = (c', out', Inr s) \<Longrightarrow> out \<noteq> [] \<Longrightarrow>
        step_produced s = 0 \<Longrightarrow> \<not> step_done s \<Longrightarrow> decode c x = y"
begin

text \<open>Output delivered so far is a prefix of the output of every longer input.\<close>

lemma hist_prefix_more: "hist c x y \<Longrightarrow> prefix x full \<Longrightarrow> prefix y (decode c full)"
  using hist_prefix decode_mono prefix_order.trans by blast

end

text \<open>A decompressor that makes progress, and that fails on no input it accepts.\<close>

locale live_decompressor = decompressor +
  fixes accepts :: "'a \<Rightarrow> bytes \<Rightarrow> bool"
  assumes step_accepts: "hist c x y \<Longrightarrow> accepts c full \<Longrightarrow> prefix (x @ input) full \<Longrightarrow>
        \<exists>c' out' s. step c input out = (c', out', Inr s)"
    and step_progress: "hist c x y \<Longrightarrow> step c input out = (c', out', Inr s) \<Longrightarrow> input \<noteq> [] \<Longrightarrow> out \<noteq> [] \<Longrightarrow>
        0 < step_consumed s \<or> 0 < step_produced s \<or> step_done s"
    and reinit_accepts: "accepts (reinit c) = accepts c"
    and step_keeps_accepts: "hist c x y \<Longrightarrow> step c input out = (c', out', r) \<Longrightarrow> accepts c' = accepts c"

interpretation store: live_decompressor store_reinit store_step "\<lambda>c x y. x = y" "\<lambda>c x. x" "\<lambda>c x. True"
  by unfold_locales (auto simp: store_reinit_def store_step_def Let_def)

section \<open>What the crates promise\<close>

text \<open>
  \<open>flate2\<close>: a call takes some of the input and delivers some output, and the totals count both;
  \<open>StreamEnd\<close> is reported when the stream is complete; with no input left, room for output and
  nothing delivered, nothing was held back.
\<close>

definition flate2_laws ::
  "('d, 'z, 'h) libs \<Rightarrow> ('d \<Rightarrow> bytes \<Rightarrow> bytes \<Rightarrow> bool) \<Rightarrow> (bytes \<Rightarrow> bytes) \<Rightarrow> bool" where
  "flate2_laws L hist inflate \<longleftrightarrow>
     hist (flate_new L) [] [] \<and> (\<forall>d. hist (flate_reset L d) [] [])
     \<and> (\<forall>x x'. prefix x x' \<longrightarrow> prefix (inflate x) (inflate x'))
     \<and> (\<forall>d x y. hist d x y \<longrightarrow> prefix y (inflate x)
         \<and> (\<forall>input out d' out' r. flate_decompress L d input out = (d', out', r) \<longrightarrow> length out' = length out
              \<and> (case r of
                   Inl e \<Rightarrow> hist d' x y
                 | Inr stream_end \<Rightarrow> \<exists>c p. c \<le> length input \<and> p \<le> length out
                     \<and> flate_total_in L d' = flate_total_in L d + c \<and> flate_total_in L d' \<le> u64_max
                     \<and> flate_total_out L d' = flate_total_out L d + p \<and> flate_total_out L d' \<le> u64_max
                     \<and> hist d' (x @ take c input) (y @ take p out')
                     \<and> (stream_end \<longrightarrow> (\<forall>rest. inflate (x @ take c input @ rest) = y @ take p out'))
                     \<and> (input = [] \<longrightarrow> out \<noteq> [] \<longrightarrow> p = 0 \<longrightarrow> \<not> stream_end \<longrightarrow> inflate x = y))))"

text \<open>\<open>zstd\<close>: the same, with the counts in the result; \<open>remaining = 0\<close> is the end of the frame.\<close>

definition zstd_laws ::
  "('d, 'z, 'h) libs \<Rightarrow> ('z \<Rightarrow> bytes \<Rightarrow> bytes \<Rightarrow> bool) \<Rightarrow> (bytes \<Rightarrow> bytes) \<Rightarrow> bool" where
  "zstd_laws L hist unzstd \<longleftrightarrow>
     (\<exists>z. zstd_new L = Some z \<and> hist z [] []) \<and> (\<forall>z. hist (zstd_reinit L z) [] [])
     \<and> (\<forall>x x'. prefix x x' \<longrightarrow> prefix (unzstd x) (unzstd x'))
     \<and> (\<forall>z x y. hist z x y \<longrightarrow> prefix y (unzstd x)
         \<and> (\<forall>input out z' out' r. zstd_run L z input out = (z', out', r) \<longrightarrow> length out' = length out
              \<and> (case r of
                   Inl e \<Rightarrow> hist z' x y
                 | Inr (c, p, left) \<Rightarrow> c \<le> length input \<and> p \<le> length out
                     \<and> hist z' (x @ take c input) (y @ take p out')
                     \<and> (left = 0 \<longrightarrow> (\<forall>rest. unzstd (x @ take c input @ rest) = y @ take p out'))
                     \<and> (input = [] \<longrightarrow> out \<noteq> [] \<longrightarrow> p = 0 \<longrightarrow> left \<noteq> 0 \<longrightarrow> unzstd x = y))))"

text \<open>\<open>crc32fast\<close>: a hasher is determined by the bytes it has seen.\<close>

definition crc_laws :: "('d, 'z, 'h) libs \<Rightarrow> (bytes \<Rightarrow> 'h) \<Rightarrow> (bytes \<Rightarrow> u32) \<Rightarrow> bool" where
  "crc_laws L hashed crc \<longleftrightarrow> crc_new L = hashed [] \<and> (\<forall>h. crc_reset L h = hashed [])
     \<and> (\<forall>x y. crc_update L (hashed x) y = hashed (x @ y)) \<and> (\<forall>x. crc_finalize L (hashed x) = crc x)"

lemma flate2_new: "flate2_laws L hist inflate \<Longrightarrow> hist (flate_new L) [] [] \<and> hist (flate_reset L d) [] []"
  by (simp add: flate2_laws_def)

lemma flate2_mono: "flate2_laws L hist inflate \<Longrightarrow> prefix x x' \<Longrightarrow> prefix (inflate x) (inflate x')"
  by (simp add: flate2_laws_def)

lemma flate2_hist: "flate2_laws L hist inflate \<Longrightarrow> hist d x y \<Longrightarrow> prefix y (inflate x)"
  by (simp add: flate2_laws_def)

lemma flate2_call:
  assumes "flate2_laws L hist inflate" and "hist d x y" and "flate_decompress L d input out = (d', out', r)"
  shows "length out' = length out" and "r = Inl e \<Longrightarrow> hist d' x y"
    and "r = Inr stream_end \<Longrightarrow> \<exists>c p. c \<le> length input \<and> p \<le> length out
                     \<and> flate_total_in L d' = flate_total_in L d + c \<and> flate_total_in L d' \<le> u64_max
                     \<and> flate_total_out L d' = flate_total_out L d + p \<and> flate_total_out L d' \<le> u64_max
                     \<and> hist d' (x @ take c input) (y @ take p out')
                     \<and> (stream_end \<longrightarrow> (\<forall>rest. inflate (x @ take c input @ rest) = y @ take p out'))
                     \<and> (input = [] \<longrightarrow> out \<noteq> [] \<longrightarrow> p = 0 \<longrightarrow> \<not> stream_end \<longrightarrow> inflate x = y)"
proof -
  have "length out' = length out
      \<and> (case r of
           Inl e \<Rightarrow> hist d' x y
         | Inr stream_end \<Rightarrow> \<exists>c p. c \<le> length input \<and> p \<le> length out
             \<and> flate_total_in L d' = flate_total_in L d + c \<and> flate_total_in L d' \<le> u64_max
             \<and> flate_total_out L d' = flate_total_out L d + p \<and> flate_total_out L d' \<le> u64_max
             \<and> hist d' (x @ take c input) (y @ take p out')
             \<and> (stream_end \<longrightarrow> (\<forall>rest. inflate (x @ take c input @ rest) = y @ take p out'))
             \<and> (input = [] \<longrightarrow> out \<noteq> [] \<longrightarrow> p = 0 \<longrightarrow> \<not> stream_end \<longrightarrow> inflate x = y))"
    using assms unfolding flate2_laws_def by blast
  then show "length out' = length out" and "r = Inl e \<Longrightarrow> hist d' x y"
    and "r = Inr stream_end \<Longrightarrow> \<exists>c p. c \<le> length input \<and> p \<le> length out
                     \<and> flate_total_in L d' = flate_total_in L d + c \<and> flate_total_in L d' \<le> u64_max
                     \<and> flate_total_out L d' = flate_total_out L d + p \<and> flate_total_out L d' \<le> u64_max
                     \<and> hist d' (x @ take c input) (y @ take p out')
                     \<and> (stream_end \<longrightarrow> (\<forall>rest. inflate (x @ take c input @ rest) = y @ take p out'))
                     \<and> (input = [] \<longrightarrow> out \<noteq> [] \<longrightarrow> p = 0 \<longrightarrow> \<not> stream_end \<longrightarrow> inflate x = y)"
    by simp_all
qed

text \<open>The wrapper of \<open>flate2\<close> turns the totals into the counts of one call; it never reports an overflow.\<close>

definition lawful_call ::
  "('c \<Rightarrow> bytes \<Rightarrow> bytes \<Rightarrow> bool) \<Rightarrow> (bytes \<Rightarrow> bytes) \<Rightarrow> bytes \<Rightarrow> bytes \<Rightarrow> bytes \<Rightarrow> bytes
     \<Rightarrow> 'c \<times> bytes \<times> (codec_error + step) \<Rightarrow> bool" where
  "lawful_call hist decode x y input out = (\<lambda>(c', out', r). length out' = length out \<and>
     (case r of
        Inl e \<Rightarrow> hist c' x y
      | Inr s \<Rightarrow> step_consumed s \<le> length input \<and> step_produced s \<le> length out
          \<and> hist c' (x @ take (step_consumed s) input) (y @ take (step_produced s) out')
          \<and> (step_done s \<longrightarrow> (\<forall>rest. decode (x @ take (step_consumed s) input @ rest) = y @ take (step_produced s) out'))
          \<and> (input = [] \<longrightarrow> out \<noteq> [] \<longrightarrow> step_produced s = 0 \<longrightarrow> \<not> step_done s \<longrightarrow> decode x = y)))"

lemma decompressor_of_calls:
  assumes new: "\<And>c. hist (reinit c) [] []" "\<And>c. decode (reinit c) = decode c"
    and mono: "\<And>c x x'. prefix x x' \<Longrightarrow> prefix (decode c x) (decode c x')"
    and pre: "\<And>c x y. hist c x y \<Longrightarrow> prefix y (decode c x)"
    and call: "\<And>c x y input out. hist c x y \<Longrightarrow> lawful_call hist (decode c) x y input out (step c input out)"
    and same: "\<And>c input out c' out' r. step c input out = (c', out', r) \<Longrightarrow> decode c' = decode c"
  shows "decompressor reinit step hist decode"
proof unfold_locales
  fix c x y input out c' out' r s e rest
  show "hist (reinit c) [] []" "decode (reinit c) = decode c" by (rule new)+
  show "prefix (decode c x) (decode c x')" if "prefix x x'" for x' by (rule mono [OF that])
  assume h: "hist c x y"
  show "prefix y (decode c x)" by (rule pre [OF h])
  show "length out' = length out" "decode c' = decode c" if st: "step c input out = (c', out', r)"
    using call [OF h, of input out] same [OF st] by (simp_all add: lawful_call_def st)
  show "hist c' x y" if "step c input out = (c', out', Inl e)"
    using call [OF h, of input out] by (simp add: lawful_call_def that)
  show "step_consumed s \<le> length input \<and> step_produced s \<le> length out"
    "hist c' (x @ take (step_consumed s) input) (y @ take (step_produced s) out')"
    if "step c input out = (c', out', Inr s)"
    using call [OF h, of input out] by (simp_all add: lawful_call_def that)
  show "decode c (x @ take (step_consumed s) input @ rest) = y @ take (step_produced s) out'"
    if "step c input out = (c', out', Inr s)" "step_done s"
    using call [OF h, of input out] that by (simp add: lawful_call_def)
  show "decode c x = y" if "step c [] out = (c', out', Inr s)" "out \<noteq> []" "step_produced s = 0" "\<not> step_done s"
    using call [OF h, of "[]" out] that by (simp add: lawful_call_def)
qed

lemma deflate_call:
  assumes laws: "flate2_laws L hist inflate" and h: "hist d x y"
  shows "lawful_call hist inflate x y input out (deflate_step L d input out)"
proof -
  obtain d1 out1 q where fd: "flate_decompress L d input out = (d1, out1, q)" by (cases "flate_decompress L d input out")
  note call = flate2_call [OF laws h fd]
  show ?thesis
  proof (cases q)
    case (Inl e)
    then show ?thesis using call(1,2) by (simp add: lawful_call_def deflate_step_def fd)
  next
    case (Inr se)
    from call(3) [OF Inr] obtain c p where cp: "c \<le> length input" "p \<le> length out"
      "flate_total_in L d1 = flate_total_in L d + c" "flate_total_in L d1 \<le> u64_max"
      "flate_total_out L d1 = flate_total_out L d + p" "flate_total_out L d1 \<le> u64_max"
      and rest: "hist d1 (x @ take c input) (y @ take p out1)"
        "se \<longrightarrow> (\<forall>rest. inflate (x @ take c input @ rest) = y @ take p out1)"
        "input = [] \<longrightarrow> out \<noteq> [] \<longrightarrow> p = 0 \<longrightarrow> \<not> se \<longrightarrow> inflate x = y"
      by blast
    have us: "try_usize (wrapping_sub_u64 (flate_total_in L d1) (flate_total_in L d)) = Some c"
      "try_usize (wrapping_sub_u64 (flate_total_out L d1) (flate_total_out L d)) = Some p"
      using cp by (simp_all add: wrapping_sub_u64_def)
    have "deflate_step L d input out = (d1, out1, Inr \<lparr> step_consumed = c, step_produced = p, step_done = se \<rparr>)"
      unfolding deflate_step_def Let_def fd Inr prod.case sum.case us option.case ..
    then show ?thesis using cp rest call(1) by (simp add: lawful_call_def)
  qed
qed

lemma zstd_call:
  assumes "zstd_laws L hist unzstd" and "hist z x y"
  shows "lawful_call hist unzstd x y input out (zstd_step L z input out)"
proof -
  obtain z1 out1 q where zr: "zstd_run L z input out = (z1, out1, q)" by (cases "zstd_run L z input out")
  have call: "length out1 = length out \<and> (case q of Inl e \<Rightarrow> hist z1 x y
     | Inr (c, p, left) \<Rightarrow> c \<le> length input \<and> p \<le> length out
         \<and> hist z1 (x @ take c input) (y @ take p out1)
         \<and> (left = 0 \<longrightarrow> (\<forall>rest. unzstd (x @ take c input @ rest) = y @ take p out1))
         \<and> (input = [] \<longrightarrow> out \<noteq> [] \<longrightarrow> p = 0 \<longrightarrow> left \<noteq> 0 \<longrightarrow> unzstd x = y))"
    using assms zr unfolding zstd_laws_def by blast
  then show ?thesis by (auto simp: lawful_call_def zstd_step_def zr split: sum.splits)
qed

lemma deflate_decompressor:
  "flate2_laws L hist inflate \<Longrightarrow> decompressor (deflate_reinit L) (deflate_step L) hist (\<lambda>d. inflate)"
  by (rule decompressor_of_calls) (auto simp: deflate_reinit_def flate2_new flate2_mono flate2_hist deflate_call)

lemma zstd_decompressor:
  "zstd_laws L hist unzstd \<Longrightarrow> decompressor (zstd_codec_reinit L) (zstd_step L) hist (\<lambda>d. unzstd)"
  by (rule decompressor_of_calls) (simp_all add: zstd_codec_reinit_def zstd_call zstd_laws_def)

text \<open>A codec is a decompressor: it decodes by its method, and its history is that of what it wraps.\<close>

definition codec_decode :: "(bytes \<Rightarrow> bytes) \<Rightarrow> (bytes \<Rightarrow> bytes) \<Rightarrow> ('d, 'z) codec \<Rightarrow> bytes \<Rightarrow> bytes" where
  "codec_decode inflate unzstd c x = (case codec_method c of Store \<Rightarrow> x | Deflate \<Rightarrow> inflate x | Zstd \<Rightarrow> unzstd x)"

definition codec_hist ::
  "('d \<Rightarrow> bytes \<Rightarrow> bytes \<Rightarrow> bool) \<Rightarrow> ('z \<Rightarrow> bytes \<Rightarrow> bytes \<Rightarrow> bool) \<Rightarrow> ('d, 'z) codec \<Rightarrow> bytes \<Rightarrow> bytes \<Rightarrow> bool" where
  "codec_hist hist_d hist_z c x y =
     (case c of StoreCodec u \<Rightarrow> x = y | DeflateCodec d \<Rightarrow> hist_d d x y | ZstdCodec z \<Rightarrow> hist_z z x y)"

lemma codec_step_method: "codec_step L c input out = (c', out', r) \<Longrightarrow> codec_method c' = codec_method c"
  by (auto simp: codec_step_def codec_method_def split: codec.splits prod.splits)

lemma codec_reinit_method [simp]: "codec_method (codec_reinit L c) = codec_method c"
  by (simp add: codec_reinit_def codec_method_def split: codec.splits)

text \<open>The codec's calls and laws, whichever decompressor it wraps.\<close>

lemma codec_call:
  assumes fl: "flate2_laws L hist_d inflate" and zs: "zstd_laws L hist_z unzstd" and h: "codec_hist hist_d hist_z c x y"
  shows "lawful_call (codec_hist hist_d hist_z) (codec_decode inflate unzstd c) x y input out (codec_step L c input out)"
proof (cases c)
  case (StoreCodec u)
  with h show ?thesis
    by (auto simp: lawful_call_def codec_hist_def codec_decode_def codec_method_def codec_step_def store_step_def Let_def)
next
  case (DeflateCodec d)
  then have "lawful_call hist_d inflate x y input out (deflate_step L d input out)" using deflate_call [OF fl] h by (simp add: codec_hist_def)
  then show ?thesis unfolding DeflateCodec
    by (auto simp: lawful_call_def codec_hist_def codec_decode_def codec_method_def codec_step_def split: prod.splits sum.splits)
next
  case (ZstdCodec z)
  then have "lawful_call hist_z unzstd x y input out (zstd_step L z input out)" using zstd_call [OF zs] h by (simp add: codec_hist_def)
  then show ?thesis unfolding ZstdCodec
    by (auto simp: lawful_call_def codec_hist_def codec_decode_def codec_method_def codec_step_def split: prod.splits sum.splits)
qed

lemma codec_reinit_hist:
  assumes "flate2_laws L hist_d inflate" and "zstd_laws L hist_z unzstd"
  shows "codec_hist hist_d hist_z (codec_reinit L c) [] []"
  using assms flate2_new [OF assms(1)]
  by (cases c) (simp_all add: codec_hist_def codec_reinit_def deflate_reinit_def zstd_codec_reinit_def zstd_laws_def)

lemma codec_decode_mono:
  assumes "flate2_laws L hist_d inflate" and "zstd_laws L hist_z unzstd" and "prefix x x'"
  shows "prefix (codec_decode inflate unzstd c x) (codec_decode inflate unzstd c x')"
  using assms flate2_mono [OF assms(1,3)] by (cases c) (simp_all add: codec_decode_def codec_method_def zstd_laws_def)

lemma codec_hist_prefix:
  assumes "flate2_laws L hist_d inflate" and "zstd_laws L hist_z unzstd" and "codec_hist hist_d hist_z c x y"
  shows "prefix y (codec_decode inflate unzstd c x)"
  using assms flate2_hist [OF assms(1)] by (cases c) (simp_all add: codec_decode_def codec_method_def codec_hist_def zstd_laws_def)

lemma codec_decompressor:
  assumes fl: "flate2_laws L hist_d inflate" and zs: "zstd_laws L hist_z unzstd"
  shows "decompressor (codec_reinit L) (codec_step L) (codec_hist hist_d hist_z) (codec_decode inflate unzstd)"
proof (rule decompressor_of_calls)
  show "codec_decode inflate unzstd (codec_reinit L c) = codec_decode inflate unzstd c" for c
    by (rule ext) (simp add: codec_decode_def)
  show "codec_decode inflate unzstd c' = codec_decode inflate unzstd c"
    if "codec_step L c input out = (c', out', r)" for c input out c' out' r
    by (rule ext) (simp add: codec_decode_def codec_step_method [OF that])
qed (simp_all add: codec_reinit_hist [OF fl zs] codec_decode_mono [OF fl zs] codec_hist_prefix [OF fl zs] codec_call [OF fl zs])

section \<open>Crates for concrete runs\<close>

text \<open>
  An instance of the crates: both decompressors copy their input, and the checksum adds up the bytes.
  It shows that the laws can hold, and concrete runs use it.
\<close>

fun byte_sum :: "bytes \<Rightarrow> u32" where
  "byte_sum [] = 0"
| "byte_sum (b # bs) = of_nat (unat b) + byte_sum bs"

definition copy_libs :: "(nat, unit, bytes) libs" where
  "copy_libs = \<lparr> flate_new = 0, flate_reset = (\<lambda>d. 0), flate_total_in = (\<lambda>d. d), flate_total_out = (\<lambda>d. d),
     flate_decompress = (\<lambda>d input out. let n = min (length input) (length out) in
        if d + n \<le> u64_max then (d + n, take n input @ drop n out, Inr False) else (d, out, Inl ''too long'')),
     zstd_new = Some (), zstd_reinit = (\<lambda>z. z),
     zstd_run = (\<lambda>z input out. let n = min (length input) (length out) in (z, take n input @ drop n out, Inr (n, n, 1))),
     crc_new = [], crc_update = (@), crc_reset = (\<lambda>h. []), crc_finalize = byte_sum \<rparr>"

lemma copy_flate2: "flate2_laws copy_libs (\<lambda>d x y. x = y \<and> d = length x) (\<lambda>x. x)"
  by (auto simp: flate2_laws_def copy_libs_def Let_def split: if_splits)

lemma copy_zstd: "zstd_laws copy_libs (\<lambda>z x y. x = y) (\<lambda>x. x)"
  by (auto simp: zstd_laws_def copy_libs_def Let_def)

lemma copy_crc: "crc_laws copy_libs (\<lambda>x. x) byte_sum"
  by (simp add: crc_laws_def copy_libs_def)

end
