(* ===== verification/Guard.thy ===== *)
theory Guard
  imports Index_Types
begin

text \<open>
  \<^verbatim>\<open>src/guard.rs\<close>: the archive file, verified after every read.

  The operating system is the environment: an arbitrary sequence of moments, one for every system
  call, and each moment says what each call would answer then. The archive may be written,
  replaced or removed between any two calls. The clock of a guarded file counts its calls and so
  picks the moment; it is the only field that the code does not have. The open file and the
  directory behind \<open>named\<close> are handles of the environment; of \<open>named\<close> only its presence is kept.
\<close>

section \<open>Stamps\<close>

record stamp =
  st_dev :: nat
  st_ino :: nat
  st_len :: nat
  st_mtime :: "int \<times> int"

definition same_file :: "stamp \<Rightarrow> stamp \<Rightarrow> bool" where
  "same_file a b \<longleftrightarrow> (st_dev a, st_ino a) = (st_dev b, st_ino b)"

definition unchanged :: "stamp \<Rightarrow> stamp \<Rightarrow> bool" where
  "unchanged a b \<longleftrightarrow> (st_len a, st_mtime a) = (st_len b, st_mtime b)"

datatype change = Removed | Replaced | Modified

datatype freshness = Current | Stale | Unknown

section \<open>The environment\<close>

record moment =
  os_fstat :: "io_error + stamp"                         \<comment> \<open>\<open>File::metadata\<close> of the open file\<close>
  os_fstatat :: "io_error + stamp"                       \<comment> \<open>\<open>fstatat\<close> of the name\<close>
  os_pread :: "nat \<Rightarrow> nat \<Rightarrow> io_error + bytes"           \<comment> \<open>\<open>read_at\<close>: offset, length\<close>
  os_pread_exact :: "nat \<Rightarrow> nat \<Rightarrow> io_error + bytes"     \<comment> \<open>\<open>read_exact_at\<close>\<close>

type_synonym environment = "nat \<Rightarrow> moment"

record guarded_file =
  gf_named :: bool
  gf_opened :: stamp
  gf_stale :: bool
  gf_unsure :: bool
  gf_clock :: nat

type_synonym 'a guard_act = "(guarded_file, io_error, 'a) act"

text \<open>Ask the environment and move on.\<close>

definition ask :: "environment \<Rightarrow> (moment \<Rightarrow> io_error + 'a) \<Rightarrow> 'a guard_act" where
  "ask env f = (\<lambda>g. (g\<lparr>gf_clock := gf_clock g + 1\<rparr>,
     case f (env (gf_clock g)) of Inl e \<Rightarrow> Err e | Inr x \<Rightarrow> Ok x))"

section \<open>Operations\<close>

definition stale_error :: io_error where
  "stale_error = \<lparr> io_kind_of = OtherKind, raw_os_error = Some ESTALE \<rparr>"

definition unexamined_error :: io_error where
  "unexamined_error = \<lparr> io_kind_of = OtherKind, raw_os_error = None \<rparr>"

text \<open>
  \<open>GuardedFile::new\<close>: \<open>check_path\<close> says whether the descriptor can follow the path, \<open>named\<close> whether
  the directory could be opened.
\<close>

definition guard_new :: "environment \<Rightarrow> bool \<Rightarrow> bool \<Rightarrow> (io_error, guarded_file) rust" where
  "guard_new env check_path named_opens =
     (case os_fstat (env 0) of
        Inl e \<Rightarrow> Err e
      | Inr st \<Rightarrow> Ok \<lparr> gf_named = (if check_path then named_opens else False), gf_opened = st,
                       gf_stale = False, gf_unsure = False, gf_clock = 1 \<rparr>)"

text \<open>
  \<open>GuardedFile::open\<close>. The arguments are what the calls answer: \<open>File::open\<close>, \<open>fstatfs\<close> (the
  \<open>f_type\<close> field, cast to 32 bits), \<open>canonicalize\<close> (the components of the path) and the open of the
  directory.
\<close>

definition CIFS_MAGIC :: "u32 list" where
  "CIFS_MAGIC = [0xFF534D42, 0xFE534D42]"

definition descriptor_follows_path :: "io_error + int \<Rightarrow> io_error + bool" where
  "descriptor_follows_path fstatfs =
     (case fstatfs of Inl e \<Rightarrow> Inl e | Inr f_type \<Rightarrow> Inr (word_of_int f_type \<in> set CIFS_MAGIC))"

definition invalid_input :: io_error where
  "invalid_input = \<lparr> io_kind_of = InvalidInput, raw_os_error = None \<rparr>"

definition named_open :: "io_error + bytes list \<Rightarrow> io_error + unit \<Rightarrow> io_error + bytes" where
  "named_open canonicalized dir =
     (case canonicalized of
        Inl e \<Rightarrow> Inl e
      | Inr path \<Rightarrow>
          if path = [] then Inl invalid_input
          else case dir of
            Inl e \<Rightarrow> Inl e
          | Inr _ \<Rightarrow> if 0 \<in> set (last path) then Inl invalid_input else Inr (last path))"

definition guard_open ::
  "environment \<Rightarrow> io_error + unit \<Rightarrow> io_error + int \<Rightarrow> io_error + bytes list \<Rightarrow> io_error + unit
     \<Rightarrow> (io_error, guarded_file) rust" where
  "guard_open env file_open fstatfs canonicalized dir =
     (case file_open of
        Inl e \<Rightarrow> Err e
      | Inr _ \<Rightarrow>
          let follows = (case descriptor_follows_path fstatfs of Inl e \<Rightarrow> False | Inr b \<Rightarrow> b)
          in guard_new env follows (case named_open canonicalized dir of Inl e \<Rightarrow> False | Inr name \<Rightarrow> True))"

definition guard_len :: "guarded_file \<Rightarrow> nat" where
  "guard_len g = st_len (gf_opened g)"

definition is_stale :: "guarded_file \<Rightarrow> bool" where
  "is_stale g = gf_stale g"

definition compare_stamps :: "environment \<Rightarrow> (change option) guard_act" where
  "compare_stamps env =
     sbind (ask env os_fstat) (\<lambda>now g.
       if \<not> unchanged now (gf_opened g) then (g, Ok (Some Modified))
       else if \<not> gf_named g then (g, Ok None)
       else case ask env os_fstatat g of
         (g, Ok named) \<Rightarrow>
           if \<not> same_file named (gf_opened g) then (g, Ok (Some Replaced))
           else if \<not> unchanged named (gf_opened g) then (g, Ok (Some Modified))
           else (g, Ok None)
       | (g, Err e) \<Rightarrow> if io_kind_of e = NotFound then (g, Ok (Some Removed)) else (g, Err e)
       | (g, Panic) \<Rightarrow> (g, Panic)
       | (g, Hang) \<Rightarrow> (g, Hang))"

definition mark :: "guarded_file \<Rightarrow> change \<Rightarrow> guarded_file" where
  "mark g c = g\<lparr>gf_stale := True\<rparr>"

definition verify_file :: "environment \<Rightarrow> unit guard_act" where
  "verify_file env = (\<lambda>g.
     if is_stale g then (g, Err stale_error)
     else case compare_stamps env g of
       (g, Ok None) \<Rightarrow> (g\<lparr>gf_unsure := False\<rparr>, Ok ())
     | (g, Ok (Some c)) \<Rightarrow> (mark g c, Err stale_error)
     | (g, Err e) \<Rightarrow> (g\<lparr>gf_unsure := True\<rparr>, Err unexamined_error)
     | (g, Panic) \<Rightarrow> (g, Panic)
     | (g, Hang) \<Rightarrow> (g, Hang))"

definition check :: "environment \<Rightarrow> guarded_file \<Rightarrow> guarded_file \<times> freshness" where
  "check env g =
     (case verify_file env g of
        (g, Ok u) \<Rightarrow> (g, Current)
      | (g, r) \<Rightarrow> (g, if is_stale g then Stale else Unknown))"

text \<open>A read first reads, then verifies, and only then looks at what the read returned.\<close>

definition after_read :: "environment \<Rightarrow> (io_error, 'a) rust \<Rightarrow> 'a guard_act" where
  "after_read env read = sbind (verify_file env) (\<lambda>u g. (g, read))"

definition guard_read_at :: "environment \<Rightarrow> nat \<Rightarrow> nat \<Rightarrow> bytes guard_act" where
  "guard_read_at env off len = (\<lambda>g. case ask env (\<lambda>w. os_pread w off len) g of (g, read) \<Rightarrow> after_read env read g)"

definition read_exact_at :: "environment \<Rightarrow> nat \<Rightarrow> nat \<Rightarrow> bytes guard_act" where
  "read_exact_at env off len =
     (\<lambda>g. case ask env (\<lambda>w. os_pread_exact w off len) g of (g, read) \<Rightarrow> after_read env read g)"

text \<open>
  What every operation keeps of a guarded file: the stamp of the mount and the way to look for the
  name never change, a change once found is never forgotten, and time moves on.
\<close>

definition guard_le :: "guarded_file \<Rightarrow> guarded_file \<Rightarrow> bool" where
  "guard_le g g' \<longleftrightarrow> gf_opened g' = gf_opened g \<and> gf_named g' = gf_named g
     \<and> (gf_stale g \<longrightarrow> gf_stale g') \<and> gf_clock g \<le> gf_clock g'"

lemma guard_le_refl [simp, intro]: "guard_le g g"
  by (simp add: guard_le_def)

lemma guard_le_trans [trans]: "guard_le a b \<Longrightarrow> guard_le b c \<Longrightarrow> guard_le a c"
  by (auto simp: guard_le_def)

section \<open>What the code relies on\<close>

text \<open>
  \<open>file_at t\<close> is what the open file holds at moment \<open>t\<close>. A successful exact read returns bytes the
  file holds then. The kernel updates the modification time before a write copies data in, so once
  the file differs from what was mounted, the stamp differs at that moment and at every later one.
\<close>

definition reads_file :: "environment \<Rightarrow> (nat \<Rightarrow> bytes) \<Rightarrow> bool" where
  "reads_file env file_at \<longleftrightarrow>
     (\<forall>t off len bs. os_pread_exact (env t) off len = Inr bs \<longrightarrow>
        off + len \<le> length (file_at t) \<and> bs = take len (drop off (file_at t)))"

definition stamps_tell :: "environment \<Rightarrow> (nat \<Rightarrow> bytes) \<Rightarrow> stamp \<Rightarrow> bytes \<Rightarrow> bool" where
  "stamps_tell env file_at opened content \<longleftrightarrow>
     (\<forall>t t' st. t \<le> t' \<longrightarrow> file_at t \<noteq> content \<longrightarrow> os_fstat (env t') = Inr st \<longrightarrow> \<not> unchanged st opened)"

definition honest :: "environment \<Rightarrow> stamp \<Rightarrow> bytes \<Rightarrow> bool" where
  "honest env opened content \<longleftrightarrow>
     (\<exists>file_at. reads_file env file_at \<and> stamps_tell env file_at opened content)"

text \<open>The environment in which nobody touches the archive and no call fails.\<close>

definition eof_error :: io_error where
  "eof_error = \<lparr> io_kind_of = UnexpectedEof, raw_os_error = None \<rparr>"

definition quiet_env :: "stamp \<Rightarrow> bytes \<Rightarrow> environment" where
  "quiet_env opened content = (\<lambda>t.
     \<lparr> os_fstat = Inr opened, os_fstatat = Inr opened,
       os_pread = (\<lambda>off len. Inr (take len (drop off content))),
       os_pread_exact = (\<lambda>off len. if off + len \<le> length content then Inr (take len (drop off content))
                                   else Inl eof_error) \<rparr>)"

lemma quiet_honest [simp]: "honest (quiet_env opened content) opened content"
  unfolding honest_def
  by (rule exI [of _ "\<lambda>t. content"]) (auto simp: reads_file_def stamps_tell_def quiet_env_def split: if_splits)

section \<open>Lemmas\<close>

lemma compare_stamps_frame:
  "compare_stamps env g = (g', r) \<Longrightarrow> gf_opened g' = gf_opened g \<and> gf_stale g' = gf_stale g
     \<and> gf_named g' = gf_named g \<and> gf_unsure g' = gf_unsure g \<and> gf_clock g < gf_clock g'"
  by (auto simp: compare_stamps_def ask_def sbind_def Let_def split: prod.splits rust.splits sum.splits if_splits)

lemma compare_stamps_None:
  assumes "compare_stamps env g = (g', Ok None)"
  shows "\<exists>st. os_fstat (env (gf_clock g)) = Inr st \<and> unchanged st (gf_opened g)"
  using assms by (auto simp: compare_stamps_def ask_def sbind_def split: prod.splits rust.splits sum.splits if_splits)

lemma verify_file_le: "verify_file env g = (g', r) \<Longrightarrow> guard_le g g'"
  by (auto simp: guard_le_def verify_file_def is_stale_def mark_def split: prod.splits rust.splits option.splits if_splits
      dest!: compare_stamps_frame)

lemma verify_file_Ok:
  assumes "verify_file env g = (g', Ok u)"
  shows "\<not> gf_stale g'" and "\<exists>st. os_fstat (env (gf_clock g)) = Inr st \<and> unchanged st (gf_opened g)"
proof -
  from assms obtain g1 where c: "compare_stamps env g = (g1, Ok None)" and ns: "\<not> gf_stale g"
    and g': "g' = g1\<lparr>gf_unsure := False\<rparr>"
    by (auto simp: verify_file_def is_stale_def split: prod.splits rust.splits option.splits if_splits)
  show "\<not> gf_stale g'" using compare_stamps_frame [OF c] ns g' by simp
  show "\<exists>st. os_fstat (env (gf_clock g)) = Inr st \<and> unchanged st (gf_opened g)" by (rule compare_stamps_None [OF c])
qed

lemma ask_le: "ask env f g = (g', r) \<Longrightarrow> guard_le g g'"
  by (auto simp: ask_def guard_le_def)

lemma after_read_le: "after_read env read g = (g', r) \<Longrightarrow> guard_le g g'"
  by (auto simp: after_read_def sbind_def split: prod.splits rust.splits dest: verify_file_le)

lemma read_exact_le: "read_exact_at env off len g = (g', r) \<Longrightarrow> guard_le g g'"
  by (auto simp: read_exact_at_def split: prod.splits dest!: ask_le after_read_le intro: guard_le_trans)

lemma verify_file_returns: "verify_file env g = (g', r) \<Longrightarrow> r \<noteq> Panic \<and> r \<noteq> Hang"
  by (auto simp: verify_file_def compare_stamps_def ask_def sbind_def
      split: prod.splits rust.splits option.splits if_splits sum.splits)

lemma read_exact_returns: "read_exact_at env off len g = (g', r) \<Longrightarrow> r \<noteq> Panic \<and> r \<noteq> Hang"
  by (auto simp: read_exact_at_def ask_def after_read_def sbind_def split: prod.splits rust.splits sum.splits
      dest: verify_file_returns)

lemma guard_read_le: "guard_read_at env off len g = (g', r) \<Longrightarrow> guard_le g g'"
  by (auto simp: guard_read_at_def split: prod.splits dest!: ask_le after_read_le intro: guard_le_trans)

lemma check_le: "check env g = (g', r) \<Longrightarrow> guard_le g g'"
  by (auto simp: check_def split: prod.splits rust.splits dest: verify_file_le)

lemma read_exact_Ok:
  assumes "read_exact_at env off len g = (g', Ok bs)"
  shows "os_pread_exact (env (gf_clock g)) off len = Inr bs"
    and "\<exists>st. os_fstat (env (gf_clock g + 1)) = Inr st \<and> unchanged st (gf_opened g)" and "\<not> gf_stale g'"
proof -
  let ?g = "g\<lparr>gf_clock := gf_clock g + 1\<rparr>"
  from assms obtain u where v: "verify_file env ?g = (g', Ok u)"
    and r: "os_pread_exact (env (gf_clock g)) off len = Inr bs"
    by (auto simp: read_exact_at_def ask_def after_read_def sbind_def split: prod.splits rust.splits sum.splits)
  then show "os_pread_exact (env (gf_clock g)) off len = Inr bs" by simp
  from verify_file_Ok [OF v] show "\<exists>st. os_fstat (env (gf_clock g + 1)) = Inr st \<and> unchanged st (gf_opened g)"
    and "\<not> gf_stale g'" by simp_all
qed

lemma read_exact_content:
  assumes "honest env (gf_opened g) content" and "read_exact_at env off len g = (g', Ok bs)"
  shows "off + len \<le> length content \<and> bs = take len (drop off content)"
proof -
  obtain file_at where rf: "reads_file env file_at" and st: "stamps_tell env file_at (gf_opened g) content"
    using assms(1) by (auto simp: honest_def)
  have "file_at (gf_clock g) = content"
    using read_exact_Ok(2) [OF assms(2)] st unfolding stamps_tell_def
    by (metis less_add_one order_less_imp_le)
  then show ?thesis using rf read_exact_Ok(1) [OF assms(2)] unfolding reads_file_def by metis
qed

lemma honest_le: "honest env (gf_opened g) content \<Longrightarrow> guard_le g g' \<Longrightarrow> honest env (gf_opened g') content"
  by (simp add: guard_le_def)

lemma verify_file_stale [simp]: "gf_stale g \<Longrightarrow> verify_file env g = (g, Err stale_error)"
  by (simp add: verify_file_def is_stale_def)

lemma quiet_verify:
  "\<not> gf_stale g \<Longrightarrow>
     verify_file (quiet_env (gf_opened g) content) g
       = (g\<lparr>gf_clock := gf_clock g + (if gf_named g then 2 else 1), gf_unsure := False\<rparr>, Ok ())"
  by (simp add: verify_file_def is_stale_def compare_stamps_def ask_def quiet_env_def unchanged_def same_file_def
      sbind_def)

lemma quiet_read_exact:
  assumes "\<not> gf_stale g"
  obtains g' where "read_exact_at (quiet_env (gf_opened g) content) off len g
      = (g', if off + len \<le> length content then Ok (take len (drop off content)) else Err eof_error)"
    and "gf_opened g' = gf_opened g" and "\<not> gf_stale g'"
  using assms quiet_verify [of "g\<lparr>gf_clock := gf_clock g + 1\<rparr>" content]
  by (simp add: read_exact_at_def after_read_def ask_def sbind_def quiet_env_def split: if_splits)

section \<open>Sequences of operations\<close>

text \<open>What a thread can do with the guarded file, one operation after another.\<close>

datatype guard_op = Check | ReadAt nat nat | ReadExactAt nat nat

fun guard_do :: "environment \<Rightarrow> guard_op \<Rightarrow> bytes guard_act" where
  "guard_do env Check = (\<lambda>g. case check env g of
      (g, Current) \<Rightarrow> (g, Ok []) | (g, Stale) \<Rightarrow> (g, Err stale_error) | (g, Unknown) \<Rightarrow> (g, Err unexamined_error))"
| "guard_do env (ReadAt off len) = guard_read_at env off len"
| "guard_do env (ReadExactAt off len) = read_exact_at env off len"

fun guard_run :: "environment \<Rightarrow> guard_op list \<Rightarrow> guarded_file \<Rightarrow> guarded_file" where
  "guard_run env [] g = g"
| "guard_run env (x # xs) g = guard_run env xs (fst (guard_do env x g))"

lemma guard_do_le: "guard_do env x g = (g', r) \<Longrightarrow> guard_le g g'"
  by (cases x) (auto simp: guard_read_le read_exact_le split: prod.splits freshness.splits dest: check_le)

lemma guard_run_le: "guard_le g (guard_run env xs g)"
proof (induction xs arbitrary: g)
  case (Cons x xs)
  then show ?case using guard_do_le [of env x g] by (cases "guard_do env x g") (auto intro: guard_le_trans)
qed simp

lemma guard_do_stale: "gf_stale g \<Longrightarrow> snd (guard_do env x g) = Err stale_error"
  by (cases x) (simp_all add: check_def is_stale_def guard_read_at_def read_exact_at_def after_read_def ask_def sbind_def)


definition sample_stamp :: stamp where
  "sample_stamp = \<lparr> st_dev = 1, st_ino = 2, st_len = 5, st_mtime = (0, 0) \<rparr>"

definition sample_guard :: guarded_file where
  "sample_guard = \<lparr> gf_named = True, gf_opened = sample_stamp, gf_stale = False, gf_unsure = False, gf_clock = 1 \<rparr>"


text \<open>
  C21. A change is permanent: once it has been found, every later operation, in any environment and
  after any other operations, is refused with \<open>ESTALE\<close>, and no read returns bytes.
\<close>

theorem stale_is_permanent:
  assumes "is_stale g"
  shows "is_stale (guard_run env ops g) \<and> snd (guard_do env x (guard_run env ops g)) = Err stale_error"
  using guard_run_le [of g env ops] assms guard_do_stale by (auto simp: is_stale_def guard_le_def)

text \<open>C21: a quiet environment does not bring the bytes back.\<close>

theorem stale_is_permanent_witness:
  "is_stale (mark sample_guard Modified)
   \<and> snd (guard_do (quiet_env sample_stamp [7]) (ReadExactAt 0 1)
        (guard_run (quiet_env sample_stamp [7]) [Check, ReadAt 0 1] (mark sample_guard Modified))) = Err stale_error"
proof -
  have "is_stale (mark sample_guard Modified)" by (simp add: mark_def is_stale_def)
  then show ?thesis using stale_is_permanent by blast
qed

text \<open>
  C22. A check that could not finish is not a change: it leaves the file unsure but not stale, and as
  soon as the system calls answer again with the stamp of the mount, the file is current again.
\<close>

theorem unknown_recovers:
  assumes "check env g = (g', Unknown)"
  shows "\<not> is_stale g' \<and> gf_unsure g'
    \<and> (\<exists>g''. check (quiet_env (gf_opened g') content) g' = (g'', Current) \<and> \<not> gf_unsure g'')"
proof -
  have ns: "\<not> gf_stale g'" and un: "gf_unsure g'"
    using assms by (auto simp: check_def verify_file_def is_stale_def mark_def compare_stamps_def ask_def sbind_def
        split: prod.splits rust.splits option.splits if_splits sum.splits)
  with quiet_verify [OF ns, of content] show ?thesis by (simp add: check_def is_stale_def)
qed

text \<open>C3 when the network is down.\<close>

definition down_env :: environment where
  "down_env = (\<lambda>t. \<lparr> os_fstat = Inl unexamined_error, os_fstatat = Inl unexamined_error,
     os_pread = (\<lambda>_ _. Inl unexamined_error), os_pread_exact = (\<lambda>_ _. Inl unexamined_error) \<rparr>)"

theorem unknown_recovers_witness:
  "snd (check down_env sample_guard) = Unknown \<and> \<not> is_stale (fst (check down_env sample_guard))"
proof -
  have u: "snd (check down_env sample_guard) = Unknown"
    by (simp add: check_def verify_file_def is_stale_def sample_guard_def compare_stamps_def ask_def sbind_def down_env_def)
  then have "check down_env sample_guard = (fst (check down_env sample_guard), Unknown)"
    by (cases "check down_env sample_guard") simp
  from unknown_recovers [OF this] u show ?thesis by blast
qed

end
