(* ===== verification/Archive.thy ===== *)
theory Archive
  imports Guard
begin

text \<open>
  \<^verbatim>\<open>src/archive.rs\<close>: reads of the archive and the lazily resolved start of an entry's data.

  \<open>ZipArchive::get_entry\<close> followed by \<open>compressed_data_range\<close> is code of the \<open>rawzip\<close> crate. It is
  the argument \<open>get_entry\<close>: it reads the local header through the guarded file and returns the range
  \<open>(start, end)\<close>, two 64-bit numbers, or an error. \<open>entry_lookup\<close> states what the code relies on:
  the only state such a call has is the guarded file, and the numbers have 64 bits.
\<close>

type_synonym 'w get_entry = "'w \<Rightarrow> (guarded_file, error, nat \<times> nat) act"

definition entry_lookup :: "'w get_entry \<Rightarrow> bool" where
  "entry_lookup get_entry \<longleftrightarrow>
     (\<forall>w g g' r. get_entry w g = (g', r) \<longrightarrow> guard_le g g' \<and> r \<noteq> Panic \<and> r \<noteq> Hang
        \<and> (\<forall>lo hi. r = Ok (lo, hi) \<longrightarrow> lo \<le> u64_max \<and> hi \<le> u64_max))"

definition archive_check :: "environment \<Rightarrow> guarded_file \<Rightarrow> guarded_file \<times> freshness" where
  "archive_check env g = check env g"

definition archive_read_at :: "environment \<Rightarrow> nat \<Rightarrow> nat \<Rightarrow> bytes guard_act" where
  "archive_read_at env len off = read_exact_at env off len"

definition checked_sub :: "nat \<Rightarrow> nat \<Rightarrow> nat option" where
  "checked_sub a b = (if b \<le> a then Some (a - b) else None)"

lemma checked_sub_eq_Some [simp]: "checked_sub a b = Some c \<longleftrightarrow> b \<le> a \<and> c = a - b"
  by (auto simp: checked_sub_def)

text \<open>\<open>Archive::data_start\<close>: the answer is cached in the entry; \<open>u64::MAX\<close> stands for not yet known.\<close>

definition resolve_start :: "'w get_entry \<Rightarrow> (guarded_file \<times> 'w entry_meta, error, nat) act" where
  "resolve_start get_entry = (\<lambda>(g, meta).
     let cached = data_start meta in
     if cached \<noteq> u64_max then ((g, meta), Ok cached)
     else case get_entry (wayfinder meta) g of
       (g, Ok (lo, hi)) \<Rightarrow>
         (case checked_sub hi lo of
            None \<Rightarrow> ((g, meta), Err (Corrupt ''local header has an invalid compressed data range''))
          | Some len \<Rightarrow>
              if len \<noteq> compressed_size meta
              then ((g, meta), Err (Corrupt ''local header disagrees with the central directory''))
              else ((g, meta\<lparr>data_start := lo\<rparr>), Ok lo))
     | (g, Err e) \<Rightarrow> ((g, meta), Err e)
     | (g, Panic) \<Rightarrow> ((g, meta), Panic)
     | (g, Hang) \<Rightarrow> ((g, meta), Hang))"

section \<open>The cached start\<close>

text \<open>
  The start of an entry is unknown, or its range does not pass the end of the 64-bit numbers. Nothing
  else of the entry is touched.
\<close>

definition start_wf :: "'w entry_meta \<Rightarrow> bool" where
  "start_wf meta \<longleftrightarrow> data_start meta = u64_max \<or> data_start meta + compressed_size meta \<le> u64_max"

lemma resolve_start_frame:
  assumes "resolve_start get_entry (g, meta) = ((g', meta'), r)" and "entry_lookup get_entry"
  shows "guard_le g g'" and "\<exists>n. meta' = meta\<lparr>data_start := n\<rparr>" and "r \<noteq> Panic \<and> r \<noteq> Hang"
    and "start_wf meta \<Longrightarrow> start_wf meta'"
    and "r = Ok n \<Longrightarrow> start_wf meta \<Longrightarrow> n + compressed_size meta \<le> u64_max"
proof -
  obtain g1 q where ge: "get_entry (wayfinder meta) g = (g1, q)" by (cases "get_entry (wayfinder meta) g")
  have law: "guard_le g g1" "q \<noteq> Panic" "q \<noteq> Hang"
    "\<And>lo hi. q = Ok (lo, hi) \<Longrightarrow> lo \<le> u64_max \<and> hi \<le> u64_max"
    using assms(2) ge unfolding entry_lookup_def by blast+
  have upd: "meta = meta\<lparr>data_start := data_start meta\<rparr>" by simp
  show "guard_le g g'" "r \<noteq> Panic \<and> r \<noteq> Hang"
    using assms(1) ge law by (auto simp: resolve_start_def Let_def split: if_splits rust.splits option.splits prod.splits)
  show "\<exists>n. meta' = meta\<lparr>data_start := n\<rparr>"
    using assms(1) ge upd
    by (auto simp: resolve_start_def Let_def split: if_splits rust.splits option.splits prod.splits intro: exI [of _ "data_start meta"])
  show "start_wf meta'" if "start_wf meta"
    using assms(1) ge law that
    by (auto simp: resolve_start_def Let_def start_wf_def split: if_splits rust.splits option.splits prod.splits)
  show "n + compressed_size meta \<le> u64_max" if "r = Ok n" "start_wf meta"
    using assms(1) ge law that
    by (auto simp: resolve_start_def Let_def start_wf_def split: if_splits rust.splits option.splits prod.splits)
qed

lemma resolve_start_cached:
  assumes "resolve_start get_entry (g, meta) = ((g', meta'), Ok n)" and "n \<noteq> u64_max"
  shows "resolve_start get_entry' (g2, meta') = ((g2, meta'), Ok n)"
  using assms by (auto simp: resolve_start_def Let_def split: if_splits rust.splits option.splits prod.splits)

end
