(* ===== verification/Source.thy ===== *)
theory Source
  imports Archive
begin

text \<open>
  \<^verbatim>\<open>src/source.rs\<close>: a buffered reader over the byte range of one entry. The reader is shared
  (\<open>Arc\<close>), so the guarded file is threaded beside the record. A read that fails leaves bytes in the
  buffer that nobody looks at, because \<open>filled\<close> is zero; the model keeps the old bytes there.
\<close>

record buf_source =
  src_start :: nat
  src_len :: nat
  src_consumed :: nat
  src_buf :: bytes
  src_filled :: nat
  src_pos :: nat

type_synonym 'a source_act = "(guarded_file \<times> buf_source, io_error, 'a) act"

definition source_new :: "nat \<Rightarrow> nat \<Rightarrow> bytes \<Rightarrow> buf_source" where
  "source_new start len buf =
     \<lparr> src_start = start, src_len = len, src_consumed = 0, src_buf = buf, src_filled = 0, src_pos = 0 \<rparr>"

definition rewind :: "buf_source \<Rightarrow> buf_source" where
  "rewind s = s\<lparr>src_consumed := 0, src_filled := 0, src_pos := 0\<rparr>"

definition retarget :: "nat \<Rightarrow> nat \<Rightarrow> buf_source \<Rightarrow> buf_source" where
  "retarget start len s = rewind (s\<lparr>src_start := start, src_len := len\<rparr>)"

definition remaining :: "buf_source \<Rightarrow> nat" where
  "remaining s = wrapping_sub_u64 (wrapping_sub_u64 (src_len s) (src_consumed s)) (src_pos s)"

definition into_buf :: "buf_source \<Rightarrow> bytes" where
  "into_buf s = src_buf s"

definition fill_buf :: "environment \<Rightarrow> bytes source_act" where
  "fill_buf env = (\<lambda>(g, s).
     if src_pos s = src_filled s then
       let s = s\<lparr>src_consumed := wrapping_add_u64 (src_consumed s) (src_filled s), src_pos := 0, src_filled := 0\<rparr>;
           left = wrapping_sub_u64 (src_len s) (src_consumed s)
       in if left = 0 then ((g, s), Ok [])
          else let want = min (case try_usize left of None \<Rightarrow> usize_max | Some n \<Rightarrow> n) (length (src_buf s))
               in case read_exact_at env (wrapping_add_u64 (src_start s) (src_consumed s)) want g of
                    (g, Ok bs) \<Rightarrow>
                      let s = s\<lparr>src_buf := bs @ drop want (src_buf s), src_filled := want\<rparr>
                      in ((g, s), sub_slice (src_buf s) (src_pos s) (src_filled s))
                  | (g, Err e) \<Rightarrow> ((g, s), Err e)
                  | (g, Panic) \<Rightarrow> ((g, s), Panic)
                  | (g, Hang) \<Rightarrow> ((g, s), Hang)
     else ((g, s), sub_slice (src_buf s) (src_pos s) (src_filled s)))"

definition consume :: "nat \<Rightarrow> buf_source \<Rightarrow> buf_source" where
  "consume amount s = s\<lparr>src_pos := min (wrapping_add_u64 (src_pos s) amount) (src_filled s)\<rparr>"

text \<open>\<open>Read::read\<close> into a buffer of \<open>n\<close> bytes: the bytes that were copied.\<close>

definition source_read :: "environment \<Rightarrow> nat \<Rightarrow> bytes source_act" where
  "source_read env n = sbind (fill_buf env) (\<lambda>available (g, s).
     let n = min (length available) n in ((g, consume n s), Ok (take n available)))"

section \<open>The range a source hands out\<close>

text \<open>
  The bytes of the range, and how many of them have left the source. The invariant says that the
  counters stay inside the range and that the filled part of the buffer is the next part of it.
\<close>

definition range_of :: "bytes \<Rightarrow> buf_source \<Rightarrow> bytes" where
  "range_of content s = take (src_len s) (drop (src_start s) content)"

definition handed :: "buf_source \<Rightarrow> nat" where
  "handed s = src_consumed s + src_pos s"

definition source_wf :: "bytes \<Rightarrow> buf_source \<Rightarrow> bool" where
  "source_wf content s \<longleftrightarrow> src_start s + src_len s \<le> u64_max \<and> 0 < length (src_buf s)
     \<and> src_pos s \<le> src_filled s \<and> src_filled s \<le> length (src_buf s)
     \<and> src_consumed s + src_filled s \<le> src_len s
     \<and> (0 < src_consumed s + src_filled s \<longrightarrow> src_start s + src_consumed s + src_filled s \<le> length content)
     \<and> take (src_filled s) (src_buf s) = take (src_filled s) (drop (src_start s + src_consumed s) content)"

lemma source_new_wf: "start + len \<le> u64_max \<Longrightarrow> 0 < length buf \<Longrightarrow> source_wf content (source_new start len buf)"
  by (simp add: source_wf_def source_new_def)

lemma retarget_wf:
  "start + len \<le> u64_max \<Longrightarrow> 0 < length (src_buf s) \<Longrightarrow> source_wf content (retarget start len s)"
  by (simp add: source_wf_def retarget_def rewind_def)

lemma rewind_wf: "source_wf content s \<Longrightarrow> source_wf content (rewind s)"
  by (simp add: source_wf_def rewind_def)

lemma consume_wf:
  assumes "source_wf content s" and "n \<le> src_filled s - src_pos s"
  shows "source_wf content (consume n s)" and "handed (consume n s) = handed s + n"
    and "range_of content (consume n s) = range_of content s"
  using assms by (auto simp: source_wf_def consume_def handed_def range_of_def wrapping_add_u64_def)

lemma handed_fresh [simp]: "handed (source_new start len buf) = 0" "handed (retarget start len s) = 0" "handed (rewind s) = 0"
  by (simp_all add: handed_def source_new_def retarget_def rewind_def)

text \<open>The law of \<open>fill_buf\<close>: it hands out the next bytes of the range, and none only at its end.\<close>

definition filled_with :: "bytes \<Rightarrow> buf_source \<Rightarrow> bytes \<Rightarrow> bool" where
  "filled_with content s bs \<longleftrightarrow> length bs = src_filled s - src_pos s
     \<and> slice_at (range_of content s) (handed s) bs \<and> (bs = [] \<longrightarrow> handed s = src_len s)"

lemma slice_of_range:
  assumes "c + n \<le> len"
  shows "take n (drop c (take len (drop start content))) = take n (drop (start + c) content)"
  using assms by (simp add: drop_take add.commute min_absorb1)

lemma handed_range: "source_wf content s \<Longrightarrow> handed s \<le> length (range_of content s)"
  by (auto simp: source_wf_def handed_def range_of_def)

lemma filled_with_buffer:
  assumes "source_wf content s" and "src_pos s < src_filled s"
  shows "filled_with content s (take (src_filled s - src_pos s) (drop (src_pos s) (src_buf s)))"
proof -
  let ?f = "src_filled s" and ?p = "src_pos s" and ?c = "src_consumed s"
  have wf: "?f \<le> length (src_buf s)" "?c + ?f \<le> src_len s" "src_start s + ?c + ?f \<le> length content"
    and eq: "take ?f (src_buf s) = take ?f (drop (src_start s + ?c) content)"
    using assms by (auto simp: source_wf_def)
  have "take (?f - ?p) (drop ?p (src_buf s)) = drop ?p (take ?f (src_buf s))" by (simp add: drop_take)
  also have "\<dots> = take (?f - ?p) (drop (src_start s + ?c + ?p) content)" by (simp add: eq drop_take add.commute)
  also have "\<dots> = take (?f - ?p) (drop (handed s) (range_of content s))"
    using assms(2) wf by (simp add: handed_def range_of_def drop_take add.assoc add.commute min_absorb1 add.left_commute)
  finally have eq: "take (?f - ?p) (drop ?p (src_buf s)) = take (?f - ?p) (drop (handed s) (range_of content s))" .
  have "handed s + (?f - ?p) \<le> length (range_of content s)" using assms(2) wf by (simp add: handed_def range_of_def)
  then have "slice_at (range_of content s) (handed s) (take (?f - ?p) (drop ?p (src_buf s)))" unfolding eq by (rule slice_at_take_drop)
  then show ?thesis using assms(2) wf by (auto simp: filled_with_def)
qed

lemma fill_buf_refill:
  assumes "source_wf content s" and "src_pos s = src_filled s" and "handed s < src_len s"
  defines "s0 \<equiv> s\<lparr>src_consumed := handed s, src_pos := 0, src_filled := 0\<rparr>"
    and "want \<equiv> min (src_len s - handed s) (length (src_buf s))"
  shows "fill_buf env (g, s) =
    (case read_exact_at env (src_start s + handed s) want g of
       (g, Ok bs) \<Rightarrow> ((g, s0\<lparr>src_buf := bs @ drop want (src_buf s), src_filled := want\<rparr>),
                      sub_slice (bs @ drop want (src_buf s)) 0 want)
     | (g, Err e) \<Rightarrow> ((g, s0), Err e) | (g, Panic) \<Rightarrow> ((g, s0), Panic) | (g, Hang) \<Rightarrow> ((g, s0), Hang))"
proof -
  have c: "wrapping_add_u64 (src_consumed s) (src_filled s) = handed s"
    and st: "wrapping_add_u64 (src_start s) (handed s) = src_start s + handed s"
    and left: "wrapping_sub_u64 (src_len s) (handed s) = src_len s - handed s"
    and us: "try_usize (src_len s - handed s) = Some (src_len s - handed s)"
    using assms(1-3) by (auto simp: source_wf_def handed_def wrapping_add_u64_def wrapping_sub_u64_def)
  show ?thesis using assms(2,3) unfolding s0_def want_def fill_buf_def Let_def
    by (simp add: c st left us split: prod.splits rust.splits)
qed

lemma refilled_wf:
  assumes wf: "source_wf content s" and pos: "src_pos s = src_filled s" "handed s < src_len s"
    and want: "want = min (src_len s - handed s) (length (src_buf s))"
    and read: "src_start s + handed s + want \<le> length content" "bs = take want (drop (src_start s + handed s) content)"
  defines "s1 \<equiv> s\<lparr>src_consumed := handed s, src_pos := 0, src_filled := want, src_buf := bs @ drop want (src_buf s)\<rparr>"
  shows "source_wf content s1" and "handed s1 = handed s" and "range_of content s1 = range_of content s"
    and "length (src_buf s1) = length (src_buf s)" and "take want (src_buf s1) = bs" and "filled_with content s1 bs"
proof -
  have len: "length bs = want" using read by simp
  show "handed s1 = handed s" "range_of content s1 = range_of content s" by (simp_all add: s1_def handed_def range_of_def)
  show "length (src_buf s1) = length (src_buf s)" "take want (src_buf s1) = bs" using len want by (simp_all add: s1_def)
  show wf1: "source_wf content s1" using wf pos want read len by (auto simp: s1_def source_wf_def handed_def)
  have "0 < want" using want pos wf by (simp add: source_wf_def)
  with filled_with_buffer [OF wf1] len show "filled_with content s1 bs" by (simp add: s1_def)
qed

lemma fill_buf_ok:
  assumes "source_wf content s" and "honest env (gf_opened g) content" and "fill_buf env (g, s) = ((g', s'), r)"
  shows "source_wf content s'" and "handed s' = handed s" and "range_of content s' = range_of content s"
    and "length (src_buf s') = length (src_buf s)" and "guard_le g g'" and "r \<noteq> Panic \<and> r \<noteq> Hang"
    and "r = Ok bs \<Longrightarrow> filled_with content s' bs"
proof -
  let ?s0 = "s\<lparr>src_consumed := handed s, src_pos := 0, src_filled := 0\<rparr>"
  let ?want = "min (src_len s - handed s) (length (src_buf s))"
  consider (full) "src_pos s < src_filled s"
    | (drained) "src_pos s = src_filled s" "handed s = src_len s"
    | (refill) g1 q where "src_pos s = src_filled s" "handed s < src_len s"
        "read_exact_at env (src_start s + handed s) ?want g = (g1, q)"
    using assms(1) by (cases "read_exact_at env (src_start s + handed s) ?want g")
      (fastforce simp: source_wf_def handed_def)
  then have "source_wf content s' \<and> handed s' = handed s \<and> range_of content s' = range_of content s
    \<and> length (src_buf s') = length (src_buf s) \<and> guard_le g g' \<and> r \<noteq> Panic \<and> r \<noteq> Hang
    \<and> (\<forall>bs. r = Ok bs \<longrightarrow> filled_with content s' bs)"
  proof cases
    case full
    then show ?thesis using assms filled_with_buffer [OF assms(1) full]
      by (auto simp: fill_buf_def source_wf_def)
  next
    case drained
    have "s' = ?s0" "g' = g" "r = Ok []"
      using assms drained by (auto simp: fill_buf_def source_wf_def handed_def wrapping_add_u64_def wrapping_sub_u64_def Let_def)
    then show ?thesis using assms(1) drained handed_range [OF assms(1)]
      by (auto simp: source_wf_def handed_def range_of_def filled_with_def)
  next
    case refill
    note fb = fill_buf_refill [OF assms(1) refill(1,2), of env g]
    have le: "guard_le g g1" and ret: "q \<noteq> Panic" "q \<noteq> Hang"
      using read_exact_le [OF refill(3)] read_exact_returns [OF refill(3)] by blast+
    have s0: "source_wf content ?s0" "handed ?s0 = handed s" "range_of content ?s0 = range_of content s"
      using assms(1) refill(1) by (auto simp: source_wf_def handed_def range_of_def)
    show ?thesis
    proof (cases q)
      case (Ok bs)
      have r: "src_start s + handed s + ?want \<le> length content" "bs = take ?want (drop (src_start s + handed s) content)"
        using read_exact_content [OF assms(2)] refill(3) Ok by blast+
      note f = refilled_wf [OF assms(1) refill(1,2) refl r]
      have "r = Ok bs" "g' = g1"
        "s' = s\<lparr>src_consumed := handed s, src_pos := 0, src_filled := ?want, src_buf := bs @ drop ?want (src_buf s)\<rparr>"
        using fb assms(3) refill(3) Ok f(4,5) by simp_all
      then show ?thesis using f le by simp
    next
      case (Err e)
      then have "r = Err e" "g' = g1" "s' = ?s0" using fb assms(3) refill(3) by simp_all
      then show ?thesis using s0 le by simp
    qed (use ret in simp_all)
  qed
  then show "source_wf content s'" and "handed s' = handed s" and "range_of content s' = range_of content s"
    and "length (src_buf s') = length (src_buf s)" and "guard_le g g'" and "r \<noteq> Panic \<and> r \<noteq> Hang"
    and "r = Ok bs \<Longrightarrow> filled_with content s' bs" by blast+
qed

lemma fill_buf_len: "fill_buf env (g, s) = ((g', s'), r) \<Longrightarrow> src_len s' = src_len s \<and> src_start s' = src_start s"
  by (auto simp: fill_buf_def Let_def split: if_splits prod.splits rust.splits)

lemma source_read_ok:
  assumes "source_wf content s" and "honest env (gf_opened g) content"
    and "source_read env n (g, s) = ((g', s'), Ok bs)"
  shows "source_wf content s'" and "range_of content s' = range_of content s" and "handed s' = handed s + length bs"
    and "slice_at (range_of content s) (handed s) bs" and "gf_opened g' = gf_opened g"
    and "length bs \<le> n" and "bs = [] \<Longrightarrow> 0 < n \<Longrightarrow> handed s = src_len s" and "src_len s' = src_len s"
proof -
  obtain g1 s1 av where fb: "fill_buf env (g, s) = ((g1, s1), Ok av)"
    and s': "s' = consume (min (length av) n) s1" and bs: "bs = take (min (length av) n) av" and g': "g' = g1"
    using assms(3) by (auto simp: source_read_def Let_def elim!: sbind_Ok)
  note f = fill_buf_ok [OF assms(1,2) fb]
  have fw: "filled_with content s1 av" using f(7) by blast
  note c = consume_wf [OF f(1), of "min (length av) n"]
  have le: "min (length av) n \<le> src_filled s1 - src_pos s1" using fw by (simp add: filled_with_def)
  show "source_wf content s'" "range_of content s' = range_of content s" "handed s' = handed s + length bs"
    using c [OF le] f(2,3) by (simp_all add: s' bs)
  show "slice_at (range_of content s) (handed s) bs"
    using fw f(2,3) bs by (simp add: filled_with_def slice_at_take)
  show "gf_opened g' = gf_opened g" using f(5) by (simp add: g' guard_le_def)
  show "length bs \<le> n" by (simp add: bs)
  show "src_len s' = src_len s" "bs = [] \<Longrightarrow> 0 < n \<Longrightarrow> handed s = src_len s"
  proof -
    have l: "src_len s1 = src_len s" using fill_buf_len [OF fb] by blast
    then show "src_len s' = src_len s" by (simp add: s' consume_def)
    show "handed s = src_len s" if "bs = []" "0 < n"
      using that fw f(2) l by (auto simp: bs filled_with_def min_def split: if_splits)
  qed
qed

text \<open>A reader of the source: reads of the given sizes one after the other.\<close>

fun source_reads :: "environment \<Rightarrow> nat list \<Rightarrow> bytes source_act" where
  "source_reads env [] = (\<lambda>s. (s, Ok []))"
| "source_reads env (n # ns) = sbind (source_read env n) (\<lambda>bs. sbind (source_reads env ns) (\<lambda>rest s. (s, Ok (bs @ rest))))"

lemma source_reads_ok:
  assumes "source_wf content s" and "honest env (gf_opened g) content"
    and "source_reads env ns (g, s) = ((g', s'), Ok bs)"
  shows "slice_at (range_of content s) (handed s) bs \<and> source_wf content s' \<and> handed s' = handed s + length bs"
  using assms
proof (induction ns arbitrary: g s bs)
  case (Cons n ns)
  obtain g1 s1 a b where r: "source_read env n (g, s) = ((g1, s1), Ok a)"
    and rs: "source_reads env ns (g1, s1) = ((g', s'), Ok b)" and bs: "bs = a @ b"
    using Cons.prems(3) by (auto elim!: sbind_Ok)
  note h = source_read_ok [OF Cons.prems(1,2) r]
  have "slice_at (range_of content s1) (handed s1) b \<and> source_wf content s' \<and> handed s' = handed s1 + length b"
    using Cons.IH [OF h(1) _ rs] Cons.prems(2) h(5) by simp
  with h show ?case by (simp add: bs slice_at_append)
qed (simp add: handed_range)

text \<open>
  C23. However the reads of a source are cut and however its buffer is refilled, the bytes it hands
  out are the range \<open>[start, start + len)\<close> of the archive as it was mounted, in order and without a
  gap: what was read so far is a prefix of the range.
\<close>

theorem source_reads_range:
  assumes "start + len \<le> u64_max" and "0 < length buf" and "honest env (gf_opened g) content"
    and "source_reads env ns (g, source_new start len buf) = ((g', s'), Ok bs)"
  shows "bs = take (length bs) (take len (drop start content)) \<and> length bs \<le> len"
proof -
  have "handed (source_new start len buf) = 0" "range_of content (source_new start len buf) = take len (drop start content)"
    by (simp_all add: handed_def source_new_def range_of_def)
  with source_reads_ok [OF source_new_wf [OF assms(1,2)] assms(3,4)] have "slice_at (take len (drop start content)) 0 bs"
    by simp
  from slice_at_eq [OF this] slice_at_length [OF this] show ?thesis by simp
qed

text \<open>C23 with a buffer of two bytes, on a file of five.\<close>

theorem source_reads_range_witness:
  "snd (source_reads (quiet_env sample_stamp [1, 2, 3, 4, 5]) [1, 3, 3] (sample_guard, source_new 1 3 [0, 0]))
     = Ok [2, 3, 4] \<and> ([2, 3, 4] :: bytes) = take 3 (take 3 (drop 1 [1, 2, 3, 4, 5]))"
proof -
  have r: "snd (source_reads (quiet_env sample_stamp [1, 2, 3, 4, 5]) [1, 3, 3] (sample_guard, source_new 1 3 [0, 0]))
     = Ok [2, 3, 4]"
    by (simp add: source_new_def source_read_def fill_buf_def Let_def wrapping_add_u64_def wrapping_sub_u64_def
        sample_guard_def sample_stamp_def read_exact_at_def after_read_def verify_file_def is_stale_def compare_stamps_def
        ask_def quiet_env_def unchanged_def same_file_def sbind_def sub_slice_def consume_def try_usize_def)
  obtain g' s' where e: "source_reads (quiet_env sample_stamp [1, 2, 3, 4, 5]) [1, 3, 3] (sample_guard, source_new 1 3 [0, 0])
     = ((g', s'), Ok [2, 3, 4])" using r by (metis prod.collapse)
  have "honest (quiet_env sample_stamp [1, 2, 3, 4, 5]) (gf_opened sample_guard) [1, 2, 3, 4, 5]" by (simp add: sample_guard_def)
  from source_reads_range [OF _ _ this e] r show ?thesis by simp
qed

end
