(* ===== verification/Decode.thy ===== *)
theory Decode
  imports Codec Source
begin

text \<open>
  \<^verbatim>\<open>src/decode.rs\<close>: a decompressor positioned somewhere inside one entry.

  The guarded file is shared, so it is threaded beside the decoder, and so is the entry whose
  verification state a read can set. An output slice is returned as the call leaves it.

  The loop of \<open>Pump::step\<close> ends because every round that does not return takes input, and \<open>remaining\<close>
  says how much there is: that number plus one is its fuel. The loops of \<open>read_at\<close> end because every
  round delivers a byte: the distance to their goal plus one is their fuel. Running out is \<open>Hang\<close>,
  and the lemmas show that it does not happen with codecs that keep their contract.
\<close>

record ('d, 'z) core_parts =
  cp_codec :: "('d, 'z) codec"
  cp_buf :: bytes
  cp_skip :: bytes

record entry_location =
  loc_data_start :: nat
  loc_compressed_size :: nat
  loc_method :: cmethod

record ('d, 'z, 'h) decoder =
  dec_pos :: nat
  dec_finished :: bool
  dec_verified :: bool
  dec_crc :: "'h option"
  dec_codec :: "('d, 'z) codec"
  dec_src :: buf_source
  dec_skip :: bytes

definition decoder_new ::
  "('d, 'z, 'h) libs \<Rightarrow> entry_location \<Rightarrow> ('d, 'z) core_parts \<Rightarrow> bool \<Rightarrow> ('d, 'z, 'h) decoder" where
  "decoder_new L loc parts verify =
     (let d = \<lparr> dec_pos = 0, dec_finished = False, dec_verified = False,
                dec_crc = (if verify then Some (crc_new L) else None), dec_codec = cp_codec parts,
                dec_src = source_new (loc_data_start loc) (loc_compressed_size loc) (cp_buf parts),
                dec_skip = cp_skip parts \<rparr>
      in d\<lparr>dec_codec := codec_reinit L (dec_codec d)\<rparr>)"

definition handles :: "('d, 'z, 'h) decoder \<Rightarrow> cmethod \<Rightarrow> bool" where
  "handles d m \<longleftrightarrow> codec_method (dec_codec d) = m"

definition decoder_reinit :: "('d, 'z, 'h) libs \<Rightarrow> entry_location \<Rightarrow> ('d, 'z, 'h) decoder \<Rightarrow> ('d, 'z, 'h) decoder" where
  "decoder_reinit L loc d =
     (let d = d\<lparr>dec_codec := codec_reinit L (dec_codec d)\<rparr>;
          d = d\<lparr>dec_src := retarget (loc_data_start loc) (loc_compressed_size loc) (dec_src d)\<rparr>;
          d = d\<lparr>dec_pos := 0, dec_finished := False, dec_verified := False\<rparr>
      in d\<lparr>dec_crc := map_option (crc_reset L) (dec_crc d)\<rparr>)"

definition into_parts :: "('d, 'z, 'h) decoder \<Rightarrow> ('d, 'z) core_parts" where
  "into_parts d = \<lparr> cp_codec = dec_codec d, cp_buf = into_buf (dec_src d), cp_skip = dec_skip d \<rparr>"

section \<open>Pump\<close>

definition stalled_error :: io_error where
  "stalled_error = \<lparr> io_kind_of = InvalidData, raw_os_error = None \<rparr>"

definition truncated :: io_error where
  "truncated = \<lparr> io_kind_of = UnexpectedEof, raw_os_error = None \<rparr>"

type_synonym ('d, 'z, 'h, 'a) decoder_act = "(guarded_file \<times> ('d, 'z, 'h) decoder, io_error, 'a) act"

text \<open>What follows a call of the codec that produced output: checksum, position, end of the stream.\<close>

definition produced_step ::
  "('d, 'z, 'h) libs \<Rightarrow> step \<Rightarrow> bytes \<Rightarrow> ('d, 'z, 'h) decoder \<Rightarrow> (io_error, ('d, 'z, 'h) decoder) rust" where
  "produced_step L st out d =
     rbind (case dec_crc d of
        None \<Rightarrow> Ok d
      | Some h \<Rightarrow> rbind (sub_slice out 0 (step_produced st)) (\<lambda>bs. Ok (d\<lparr>dec_crc := Some (crc_update L h bs)\<rparr>)))
      (\<lambda>d. let d = d\<lparr>dec_pos := wrapping_add_u64 (dec_pos d) (step_produced st)\<rparr>
           in Ok (if step_done st then d\<lparr>dec_finished := True\<rparr> else d))"

primrec pump_loop :: "('d, 'z, 'h) libs \<Rightarrow> environment \<Rightarrow> nat \<Rightarrow> bytes \<Rightarrow> ('d, 'z, 'h, nat \<times> bytes) decoder_act" where
  "pump_loop L env 0 out s = (s, Hang)"
| "pump_loop L env (Suc fuel) out s = (case s of (g, d) \<Rightarrow>
     (case fill_buf env (g, dec_src d) of
        ((g, src), Ok input) \<Rightarrow>
          (case codec_step L (dec_codec d) input out of
             (c, out, Inl e) \<Rightarrow> ((g, d\<lparr>dec_src := src, dec_codec := c\<rparr>), Err (codec_io_error e))
           | (c, out, Inr st) \<Rightarrow>
               let d = d\<lparr>dec_src := consume (step_consumed st) src, dec_codec := c\<rparr> in
               if 0 < step_produced st then
                 (case produced_step L st out d of
                    Ok d \<Rightarrow> ((g, d), Ok (step_produced st, out))
                  | Err e \<Rightarrow> ((g, d), Err e) | Panic \<Rightarrow> ((g, d), Panic) | Hang \<Rightarrow> ((g, d), Hang))
               else if step_done st then ((g, d\<lparr>dec_finished := True\<rparr>), Ok (0, out))
               else if step_consumed st = 0 then
                 (if input = [] then ((g, d\<lparr>dec_finished := True\<rparr>), Ok (0, out))
                  else ((g, d), Err stalled_error))
               else pump_loop L env fuel out (g, d))
      | ((g, src), Err e) \<Rightarrow> ((g, d\<lparr>dec_src := src\<rparr>), Err e)
      | ((g, src), Panic) \<Rightarrow> ((g, d\<lparr>dec_src := src\<rparr>), Panic)
      | ((g, src), Hang) \<Rightarrow> ((g, d\<lparr>dec_src := src\<rparr>), Hang)))"

definition pump_step :: "('d, 'z, 'h) libs \<Rightarrow> environment \<Rightarrow> bytes \<Rightarrow> ('d, 'z, 'h, nat \<times> bytes) decoder_act" where
  "pump_step L env out = (\<lambda>(g, d).
     if out = [] \<or> dec_finished d then ((g, d), Ok (0, out))
     else pump_loop L env (Suc (remaining (dec_src d))) out (g, d))"

section \<open>Reading\<close>

definition usize_or_max :: "nat \<Rightarrow> nat" where
  "usize_or_max n = (case try_usize n of None \<Rightarrow> usize_max | Some k \<Rightarrow> k)"

text \<open>Decompress and discard up to \<open>offset\<close>.\<close>

primrec skip_loop :: "('d, 'z, 'h) libs \<Rightarrow> environment \<Rightarrow> nat \<Rightarrow> nat \<Rightarrow> ('d, 'z, 'h, unit) decoder_act" where
  "skip_loop L env 0 offset s = (s, Hang)"
| "skip_loop L env (Suc fuel) offset s = (case s of (g, d) \<Rightarrow>
     (if dec_pos d < offset then
        let want = min (usize_or_max (offset - dec_pos d)) (length (dec_skip d)) in
        case pump_step L env (take want (dec_skip d)) (g, d) of
          ((g, d), Ok (n, out)) \<Rightarrow>
            let d = d\<lparr>dec_skip := out @ drop want (dec_skip d)\<rparr> in
            if n = 0 then ((g, d), Err truncated) else skip_loop L env fuel offset (g, d)
        | (s, Err e) \<Rightarrow> (s, Err e) | (s, Panic) \<Rightarrow> (s, Panic) | (s, Hang) \<Rightarrow> (s, Hang)
      else ((g, d), Ok ())))"

text \<open>Deliver into \<open>out\<close> from \<open>written\<close> on, up to the declared size \<open>total\<close>.\<close>

primrec deliver_loop ::
  "('d, 'z, 'h) libs \<Rightarrow> environment \<Rightarrow> nat \<Rightarrow> nat \<Rightarrow> nat \<Rightarrow> bytes \<Rightarrow> ('d, 'z, 'h, nat \<times> bytes) decoder_act" where
  "deliver_loop L env 0 declared written out s = (s, Hang)"
| "deliver_loop L env (Suc fuel) declared written out s = (case s of (g, d) \<Rightarrow>
     (if written < length out \<and> dec_pos d < declared then
        let room = min (usize_or_max (declared - dec_pos d)) (length out - written) in
        case pump_step L env (take room (drop written out)) (g, d) of
          ((g, d), Ok (n, bs)) \<Rightarrow>
            let out = take written out @ bs @ drop (written + room) out in
            if n = 0 then ((g, d), Ok (written, out)) else deliver_loop L env fuel declared (written + n) out (g, d)
        | (s, Err e) \<Rightarrow> (s, Err e) | (s, Panic) \<Rightarrow> (s, Panic) | (s, Hang) \<Rightarrow> (s, Hang)
      else ((g, d), Ok (written, out))))"

definition proves_bad :: "io_error \<Rightarrow> bool" where
  "proves_bad e \<longleftrightarrow> io_kind_of e = InvalidData \<or> io_kind_of e = UnexpectedEof"

definition checksum_error :: io_error where
  "checksum_error = \<lparr> io_kind_of = InvalidData, raw_os_error = None \<rparr>"

type_synonym ('d, 'z, 'h, 'w, 'a) entry_act =
  "(guarded_file \<times> ('d, 'z, 'h) decoder \<times> 'w entry_meta, io_error, 'a) act"

definition verify_decoder :: "('d, 'z, 'h) libs \<Rightarrow> environment \<Rightarrow> ('d, 'z, 'h, 'w, unit) entry_act" where
  "verify_decoder L env = (\<lambda>(g, d, meta).
     if dec_verified d then ((g, d, meta), Ok ())
     else
       let d = d\<lparr>dec_verified := True\<rparr> in
       if dec_pos d \<noteq> uncompressed_size meta then ((g, d, meta\<lparr>verify_state := VERIFY_BAD\<rparr>), Err truncated)
       else case dec_crc d of
         None \<Rightarrow> ((g, d, meta), Ok ())
       | Some h \<Rightarrow>
           let sum = crc_finalize L h in
           case pump_step L env [0] (g, d) of
             ((g, d), Ok (n, extra)) \<Rightarrow>
               if sum \<noteq> crc32 meta \<or> 0 < n
               then ((g, d, meta\<lparr>verify_state := VERIFY_BAD\<rparr>), Err checksum_error)
               else ((g, d, meta\<lparr>verify_state := VERIFY_OK\<rparr>), Ok ())
           | ((g, d), Err e) \<Rightarrow>
               if proves_bad e then ((g, d, meta\<lparr>verify_state := VERIFY_BAD\<rparr>), Err e)
               else ((g, d\<lparr>dec_verified := False\<rparr>, meta), Err e)
           | ((g, d), Panic) \<Rightarrow> ((g, d, meta), Panic)
           | ((g, d), Hang) \<Rightarrow> ((g, d, meta), Hang))"

definition past_offset_error :: io_error where
  "past_offset_error = \<lparr> io_kind_of = InvalidInput, raw_os_error = None \<rparr>"

text \<open>\<open>PositionedDecoder::read_at\<close>: the number of bytes written and the slice.\<close>

definition decoder_read_at ::
  "('d, 'z, 'h) libs \<Rightarrow> environment \<Rightarrow> nat \<Rightarrow> bytes \<Rightarrow> ('d, 'z, 'h, 'w, nat \<times> bytes) entry_act" where
  "decoder_read_at L env offset out = (\<lambda>(g, d, meta).
     if dec_pos d > offset then ((g, d, meta), Err past_offset_error)
     else
       let declared = uncompressed_size meta in
       case skip_loop L env (Suc (offset - dec_pos d)) offset (g, d) of
         ((g, d), Ok u) \<Rightarrow>
           (case deliver_loop L env (Suc (length out)) declared 0 out (g, d) of
              ((g, d), Ok (written, out)) \<Rightarrow>
                if dec_pos d \<ge> declared
                then (case verify_decoder L env (g, d, meta) of
                        (s, Ok u) \<Rightarrow> (s, Ok (written, out))
                      | (s, Err e) \<Rightarrow> (s, Err e) | (s, Panic) \<Rightarrow> (s, Panic) | (s, Hang) \<Rightarrow> (s, Hang))
                else ((g, d, meta), Ok (written, out))
            | ((g, d), Err e) \<Rightarrow> ((g, d, meta), Err e)
            | ((g, d), Panic) \<Rightarrow> ((g, d, meta), Panic)
            | ((g, d), Hang) \<Rightarrow> ((g, d, meta), Hang))
       | ((g, d), Err e) \<Rightarrow> ((g, d, meta), Err e)
       | ((g, d), Panic) \<Rightarrow> ((g, d, meta), Panic)
       | ((g, d), Hang) \<Rightarrow> ((g, d, meta), Hang))"

end
