(* ===== verification/Decode_Correct.thy ===== *)
theory Decode_Correct
  imports Decode
begin

text \<open>
  A positioned decoder delivers the decoded entry: whatever was read before, and however the codec
  and the buffers cut the stream, the bytes of a read are those of the decoded entry at its offset.
\<close>

section \<open>The invariant of a decoder\<close>

text \<open>
  The setting of a mount: the codecs keep their contract for the history \<open>hist\<close> and the decoding
  \<open>decode\<close>, and the checksum is a function of the bytes.
\<close>

definition sound_libs ::
  "('d, 'z, 'h) libs \<Rightarrow> (('d, 'z) codec \<Rightarrow> bytes \<Rightarrow> bytes \<Rightarrow> bool) \<Rightarrow> (('d, 'z) codec \<Rightarrow> bytes \<Rightarrow> bytes)
     \<Rightarrow> (bytes \<Rightarrow> 'h) \<Rightarrow> (bytes \<Rightarrow> u32) \<Rightarrow> bool" where
  "sound_libs L hist decode hashed crc \<longleftrightarrow>
     decompressor (codec_reinit L) (codec_step L) hist decode \<and> crc_laws L hashed crc"

text \<open>The bytes of the entry a decoder is on, and what they decode to.\<close>

definition entry_bytes :: "bytes \<Rightarrow> ('d, 'z, 'h) decoder \<Rightarrow> bytes" where
  "entry_bytes content d = range_of content (dec_src d)"

definition decoded :: "(('d, 'z) codec \<Rightarrow> bytes \<Rightarrow> bytes) \<Rightarrow> bytes \<Rightarrow> ('d, 'z, 'h) decoder \<Rightarrow> bytes" where
  "decoded decode content d = decode (dec_codec d) (entry_bytes content d)"

definition decoder_wf ::
  "(('d, 'z) codec \<Rightarrow> bytes \<Rightarrow> bytes \<Rightarrow> bool) \<Rightarrow> (('d, 'z) codec \<Rightarrow> bytes \<Rightarrow> bytes) \<Rightarrow> (bytes \<Rightarrow> 'h)
     \<Rightarrow> bytes \<Rightarrow> ('d, 'z, 'h) decoder \<Rightarrow> bool" where
  "decoder_wf hist decode hashed content d \<longleftrightarrow>
     source_wf content (dec_src d) \<and> dec_skip d \<noteq> []
     \<and> dec_pos d \<le> length (decoded decode content d)
     \<and> hist (dec_codec d) (take (handed (dec_src d)) (entry_bytes content d)) (take (dec_pos d) (decoded decode content d))
     \<and> (\<forall>h. dec_crc d = Some h \<longrightarrow> h = hashed (take (dec_pos d) (decoded decode content d)))
     \<and> (dec_finished d \<longrightarrow> dec_pos d = length (decoded decode content d))"

text \<open>What an operation on a decoder keeps.\<close>

definition same_entry ::
  "(('d, 'z) codec \<Rightarrow> bytes \<Rightarrow> bytes) \<Rightarrow> bytes \<Rightarrow> ('d, 'z, 'h) decoder \<Rightarrow> ('d, 'z, 'h) decoder \<Rightarrow> bool" where
  "same_entry decode content d d' \<longleftrightarrow> entry_bytes content d' = entry_bytes content d
     \<and> decode (dec_codec d') = decode (dec_codec d) \<and> length (dec_skip d') = length (dec_skip d)
     \<and> (dec_crc d' = None \<longleftrightarrow> dec_crc d = None) \<and> dec_verified d' = dec_verified d
     \<and> length (src_buf (dec_src d')) = length (src_buf (dec_src d))"

lemma same_entry_refl [simp, intro]: "same_entry decode content d d"
  by (simp add: same_entry_def)

lemma same_entry_trans: "same_entry decode content a b \<Longrightarrow> same_entry decode content b c \<Longrightarrow> same_entry decode content a c"
  by (auto simp: same_entry_def)

lemma same_entry_decoded: "same_entry decode content d d' \<Longrightarrow> decoded decode content d' = decoded decode content d"
  by (simp add: same_entry_def decoded_def)

lemma decoder_new_wf:
  assumes "sound_libs L hist decode hashed crc" and "loc_data_start loc + loc_compressed_size loc \<le> u64_max"
    and "cp_buf parts \<noteq> []" and "cp_skip parts \<noteq> []"
  shows "decoder_wf hist decode hashed content (decoder_new L loc parts v)"
proof -
  have "hist (codec_reinit L (cp_codec parts)) [] []"
    using assms(1) decompressor.reinit_hist by (fastforce simp: sound_libs_def)
  moreover have "crc_new L = hashed []" using assms(1) by (simp add: sound_libs_def crc_laws_def)
  ultimately show ?thesis using assms(2-4)
    by (auto simp: decoder_wf_def decoder_new_def Let_def source_new_wf)
qed

lemma decoder_reinit_wf:
  assumes "sound_libs L hist decode hashed crc" and "loc_data_start loc + loc_compressed_size loc \<le> u64_max"
    and "decoder_wf hist decode hashed content d"
  shows "decoder_wf hist decode hashed content (decoder_reinit L loc d)"
proof -
  have "hist (codec_reinit L (dec_codec d)) [] []"
    using assms(1) decompressor.reinit_hist by (fastforce simp: sound_libs_def)
  moreover have "crc_reset L h = hashed []" for h using assms(1) by (simp add: sound_libs_def crc_laws_def)
  moreover have "0 < length (src_buf (dec_src d))" using assms(3) by (simp add: decoder_wf_def source_wf_def)
  ultimately show ?thesis using assms(2,3)
    by (simp add: decoder_wf_def decoder_reinit_def Let_def retarget_wf)
qed

section \<open>One call of the codec\<close>

lemma prefix_take_eq:
  assumes "prefix (take n xs @ ys) xs" and "n \<le> length xs"
  shows "n + length ys \<le> length xs" and "take n xs @ ys = take (n + length ys) xs" and "ys = take (length ys) (drop n xs)"
proof -
  obtain zs where xs: "xs = take n xs @ ys @ zs" using assms(1) by (auto simp: prefix_def)
  have ln: "length (take n xs) = n" using assms(2) by simp
  have "length xs = n + length ys + length zs" using arg_cong [OF xs, of length] ln by simp
  then show "n + length ys \<le> length xs" by simp
  have "take (n + length ys) xs = take (n + length ys) (take n xs @ ys @ zs)" using xs by simp
  also have "\<dots> = take n xs @ ys" using ln by simp
  finally show e: "take n xs @ ys = take (n + length ys) xs" by simp
  then have "drop n (take n xs @ ys) = drop n (take (n + length ys) xs)" by simp
  then show "ys = take (length ys) (drop n xs)" using ln by (simp add: drop_take)
qed

lemma codec_produces:
  assumes sound: "sound_libs L hist decode hashed crc" and wf: "decoder_wf hist decode hashed content d"
    and fill: "filled_with content (dec_src d) input"
    and step: "codec_step L (dec_codec d) input out = (c', out', Inr st)"
  defines "full \<equiv> entry_bytes content d" and "D \<equiv> decoded decode content d"
    and "k \<equiv> handed (dec_src d) + step_consumed st"
  shows "step_consumed st \<le> length input" and "step_produced st \<le> length out" and "length out' = length out"
    and "decode c' = decode (dec_codec d)" and "dec_pos d + step_produced st \<le> length D"
    and "take (step_produced st) out' = take (step_produced st) (drop (dec_pos d) D)"
    and "hist c' (take k full) (take (dec_pos d + step_produced st) D)"
    and "step_done st \<Longrightarrow> dec_pos d + step_produced st = length D"
    and "input = [] \<Longrightarrow> out \<noteq> [] \<Longrightarrow> step_produced st = 0 \<Longrightarrow> \<not> step_done st \<Longrightarrow> dec_pos d = length D"
proof -
  let ?x = "take (handed (dec_src d)) full" and ?y = "take (dec_pos d) D" and ?p = "step_produced st"
  have dc: "decompressor (codec_reinit L) (codec_step L) hist decode" using sound by (simp add: sound_libs_def)
  have h: "hist (dec_codec d) ?x ?y" and pos: "dec_pos d \<le> length D"
    using wf by (simp_all add: decoder_wf_def full_def D_def)
  show c: "step_consumed st \<le> length input" and p: "?p \<le> length out"
    using decompressor.step_bounds [OF dc h step] by blast+
  show l: "length out' = length out" using decompressor.step_length [OF dc h step] .
  show dd: "decode c' = decode (dec_codec d)" using decompressor.step_decode [OF dc h step] .
  have sl: "slice_at full (handed (dec_src d)) input" using fill by (simp add: filled_with_def full_def entry_bytes_def)
  have x': "?x @ take (step_consumed st) input = take k full" unfolding k_def by (rule slice_at_take_append [OF sl c])
  have h': "hist c' (take k full) (?y @ take ?p out')" using decompressor.step_hist [OF dc h step] by (simp add: x')
  have "prefix (?y @ take ?p out') (decode c' full)"
    using decompressor.hist_prefix_more [OF dc h' take_is_prefix] .
  then have pre: "prefix (?y @ take ?p out') D" by (simp add: dd D_def decoded_def full_def)
  have lp: "length (take ?p out') = ?p" using p l by simp
  note eqs = prefix_take_eq [OF pre pos, unfolded lp]
  show "dec_pos d + ?p \<le> length D" by (rule eqs(1))
  show "take ?p out' = take ?p (drop (dec_pos d) D)" by (rule eqs(3))
  show "hist c' (take k full) (take (dec_pos d + ?p) D)" using h' unfolding eqs(2) .
  show "dec_pos d + ?p = length D" if "step_done st"
  proof -
    have "?x @ take (step_consumed st) input @ drop k full = full"
      unfolding append.assoc [symmetric] x' by simp
    then have "decode (dec_codec d) full = ?y @ take ?p out'"
      using decompressor.step_done [OF dc h step that, of "drop k full"] by metis
    then have "length D = length (?y @ take ?p out')" by (metis D_def decoded_def full_def)
    then show ?thesis using lp pos by simp
  qed
  show "dec_pos d = length D" if "input = []" "out \<noteq> []" "?p = 0" "\<not> step_done st"
  proof -
    have "handed (dec_src d) = src_len (dec_src d)" using fill that(1) by (simp add: filled_with_def)
    then have "?x = full" by (simp add: full_def entry_bytes_def range_of_def)
    then have "D = ?y" using decompressor.step_drained [OF dc h] step that by (simp add: D_def decoded_def full_def)
    then show ?thesis using pos by (metis length_take min.absorb2)
  qed
qed

section \<open>Pump\<close>

lemma decoder_wf_src:
  assumes "decoder_wf hist decode hashed content d" and "source_wf content src"
    and "handed src = handed (dec_src d)" and "range_of content src = range_of content (dec_src d)"
    and "length (src_buf src) = length (src_buf (dec_src d))"
  shows "decoder_wf hist decode hashed content (d\<lparr>dec_src := src\<rparr>)" and "same_entry decode content d (d\<lparr>dec_src := src\<rparr>)"
  using assms by (simp_all add: decoder_wf_def same_entry_def decoded_def entry_bytes_def)

text \<open>After a call of the codec: input taken, output added to the position and to the checksum.\<close>

definition after_call ::
  "('d, 'z, 'h) libs \<Rightarrow> ('d, 'z) codec \<Rightarrow> step \<Rightarrow> bytes \<Rightarrow> ('d, 'z, 'h) decoder \<Rightarrow> ('d, 'z, 'h) decoder" where
  "after_call L c st out d =
     d\<lparr>dec_src := consume (step_consumed st) (dec_src d), dec_codec := c,
       dec_crc := map_option (\<lambda>h. crc_update L h (take (step_produced st) out)) (dec_crc d),
       dec_pos := dec_pos d + step_produced st\<rparr>"

lemma after_call_wf:
  assumes sound: "sound_libs L hist decode hashed crc" and wf: "decoder_wf hist decode hashed content d"
    and nf: "\<not> dec_finished d" and fill: "filled_with content (dec_src d) input"
    and step: "codec_step L (dec_codec d) input out = (c', out', Inr st)"
  shows "decoder_wf hist decode hashed content (after_call L c' st out' d)"
    and "same_entry decode content d (after_call L c' st out' d)"
    and "step_done st \<Longrightarrow> decoder_wf hist decode hashed content ((after_call L c' st out' d)\<lparr>dec_finished := True\<rparr>)"
    and "input = [] \<Longrightarrow> out \<noteq> [] \<Longrightarrow> step_produced st = 0 \<Longrightarrow> \<not> step_done st \<Longrightarrow>
          decoder_wf hist decode hashed content ((after_call L c' st out' d)\<lparr>dec_finished := True\<rparr>)"
proof -
  let ?d = "after_call L c' st out' d" and ?D = "decoded decode content d" and ?p = "step_produced st"
  note cp = codec_produces [OF sound wf fill step]
  have sw: "source_wf content (dec_src d)" using wf by (simp add: decoder_wf_def)
  have "step_consumed st \<le> src_filled (dec_src d) - src_pos (dec_src d)" using cp(1) fill by (simp add: filled_with_def)
  note cw = consume_wf [OF sw this]
  have cl: "crc_laws L hashed crc" using sound by (simp add: sound_libs_def)
  show se: "same_entry decode content d ?d" using cp(4) cw(3) by (simp add: same_entry_def after_call_def entry_bytes_def consume_def)
  have D: "decoded decode content ?d = ?D" by (rule same_entry_decoded [OF se])
  have E: "entry_bytes content ?d = entry_bytes content d" using se by (simp add: same_entry_def)
  have crc: "h = hashed (take (dec_pos d + ?p) ?D)" if "dec_crc ?d = Some h" for h
  proof -
    from that obtain h0 where "dec_crc d = Some h0" and h: "h = crc_update L h0 (take ?p out')" by (auto simp: after_call_def)
    then have "h0 = hashed (take (dec_pos d) ?D)" using wf by (simp add: decoder_wf_def)
    then have "h = hashed (take (dec_pos d) ?D @ take ?p (drop (dec_pos d) ?D))" using h cl cp(6) by (simp add: crc_laws_def)
    then show ?thesis by (simp add: take_add)
  qed
  show "decoder_wf hist decode hashed content ?d"
    unfolding decoder_wf_def D E using cw cp(5,7) wf nf crc by (simp add: after_call_def decoder_wf_def)
  moreover have "decoder_wf hist decode hashed content (?d\<lparr>dec_finished := True\<rparr>)"
    if "decoder_wf hist decode hashed content ?d" "dec_pos d + ?p = length ?D"
  proof -
    have "decoded decode content (?d\<lparr>dec_finished := True\<rparr>) = ?D" "entry_bytes content (?d\<lparr>dec_finished := True\<rparr>) = entry_bytes content ?d"
      using D by (simp_all add: decoded_def entry_bytes_def)
    then show ?thesis using that D by (simp add: decoder_wf_def) (simp add: after_call_def)
  qed
  ultimately show "step_done st \<Longrightarrow> decoder_wf hist decode hashed content (?d\<lparr>dec_finished := True\<rparr>)"
    and "input = [] \<Longrightarrow> out \<noteq> [] \<Longrightarrow> ?p = 0 \<Longrightarrow> \<not> step_done st \<Longrightarrow> decoder_wf hist decode hashed content (?d\<lparr>dec_finished := True\<rparr>)"
    using cp(8,9) by simp_all
qed

lemma produced_step_eq:
  assumes "step_produced st \<le> length out" and "dec_pos d + step_produced st \<le> u64_max"
  shows "produced_step L st out (d\<lparr>dec_src := consume (step_consumed st) (dec_src d), dec_codec := c\<rparr>)
    = Ok (if step_done st then (after_call L c st out d)\<lparr>dec_finished := True\<rparr> else after_call L c st out d)"
  using assms by (cases "dec_crc d") (simp_all add: produced_step_def after_call_def wrapping_add_u64_def)

lemma idle_call_eq:
  assumes "step_produced st = 0" and "dec_crc d = None \<or> crc_laws L hashed crc \<and> (\<exists>x. dec_crc d = Some (hashed x))"
  shows "d\<lparr>dec_src := consume (step_consumed st) (dec_src d), dec_codec := c\<rparr> = after_call L c st out d"
  using assms by (auto simp: after_call_def crc_laws_def)

text \<open>What \<open>Pump::step\<close> promises.\<close>

definition pump_post ::
  "(('d, 'z) codec \<Rightarrow> bytes \<Rightarrow> bytes \<Rightarrow> bool) \<Rightarrow> (('d, 'z) codec \<Rightarrow> bytes \<Rightarrow> bytes) \<Rightarrow> (bytes \<Rightarrow> 'h) \<Rightarrow> bytes
     \<Rightarrow> ('d, 'z, 'h) decoder \<Rightarrow> bytes \<Rightarrow> ('d, 'z, 'h) decoder \<Rightarrow> (io_error, nat \<times> bytes) rust \<Rightarrow> bool" where
  "pump_post hist decode hashed content d out d' r \<longleftrightarrow>
     decoder_wf hist decode hashed content d' \<and> same_entry decode content d d' \<and> dec_skip d' = dec_skip d
     \<and> (case r of
          Ok (n, out') \<Rightarrow> length out' = length out \<and> n \<le> length out \<and> dec_pos d' = dec_pos d + n
            \<and> take n out' = take n (drop (dec_pos d) (decoded decode content d)) \<and> (n = 0 \<longrightarrow> out \<noteq> [] \<longrightarrow> dec_finished d')
        | Err e \<Rightarrow> dec_pos d' = dec_pos d
        | Panic \<Rightarrow> False | Hang \<Rightarrow> False)"

text \<open>A round that only took input is followed by another, on the same entry at the same position.\<close>

lemma pump_post_round:
  assumes "same_entry decode content d d1" and "dec_skip d1 = dec_skip d" and "dec_pos d1 = dec_pos d"
    and "length out1 = length out" and "pump_post hist decode hashed content d1 out1 d' r"
  shows "pump_post hist decode hashed content d out d' r"
proof -
  have "out1 \<noteq> [] \<longleftrightarrow> out \<noteq> []" using assms(4) by auto
  then show ?thesis using assms same_entry_decoded [OF assms(1)]
    unfolding pump_post_def by (auto split: rust.splits intro: same_entry_trans)
qed

lemma wf_crc_cases:
  assumes "sound_libs L hist decode hashed crc" and "decoder_wf hist decode hashed content d"
  shows "dec_crc d = None \<or> crc_laws L hashed crc \<and> (\<exists>x. dec_crc d = Some (hashed x))"
  using assms by (cases "dec_crc d") (auto simp: sound_libs_def decoder_wf_def)

lemma pump_round:
  assumes fb: "fill_buf env (g, dec_src d) = ((g1, src), Ok input)"
    and st: "codec_step L (dec_codec d) input out = (c, out1, Inr st)"
    and crc: "dec_crc d = None \<or> crc_laws L hashed crc \<and> (\<exists>x. dec_crc d = Some (hashed x))"
    and fits: "step_produced st \<le> length out1" "dec_pos d + step_produced st \<le> u64_max"
  defines "d2 \<equiv> after_call L c st out1 (d\<lparr>dec_src := src\<rparr>)"
  shows "pump_loop L env (Suc fuel) out (g, d) =
    (if 0 < step_produced st then ((g1, if step_done st then d2\<lparr>dec_finished := True\<rparr> else d2), Ok (step_produced st, out1))
     else if step_done st \<or> step_consumed st = 0 \<and> input = [] then ((g1, d2\<lparr>dec_finished := True\<rparr>), Ok (0, out1))
     else if step_consumed st = 0 then ((g1, d2), Err stalled_error)
     else pump_loop L env fuel out1 (g1, d2))"
proof (cases "0 < step_produced st")
  case True
  from fits have "step_produced st \<le> length out1" "dec_pos (d\<lparr>dec_src := src\<rparr>) + step_produced st \<le> u64_max" by simp_all
  from produced_step_eq [OF this, of L c] True show ?thesis by (simp add: fb st d2_def Let_def)
next
  case False
  have "dec_crc (d\<lparr>dec_src := src\<rparr>) = None \<or> crc_laws L hashed crc \<and> (\<exists>x. dec_crc (d\<lparr>dec_src := src\<rparr>) = Some (hashed x))"
    using crc by simp
  from idle_call_eq [OF _ this, of st c out1] False
  have d2: "d\<lparr>dec_src := consume (step_consumed st) src, dec_codec := c\<rparr> = d2" by (simp add: d2_def)
  then have "d\<lparr>dec_src := consume (step_consumed st) src, dec_codec := c, dec_finished := True\<rparr> = d2\<lparr>dec_finished := True\<rparr>"
    by (metis decoder.select_convs decoder.surjective decoder.update_convs)
  with False d2 show ?thesis by (auto simp: fb st Let_def)
qed

text \<open>A codec that rejects its input leaves the decoder where it was.\<close>

lemma rejected_call_wf:
  assumes sound: "sound_libs L hist decode hashed crc" and wf: "decoder_wf hist decode hashed content d"
    and step: "codec_step L (dec_codec d) input out = (c', out', Inl e)"
  shows "decoder_wf hist decode hashed content (d\<lparr>dec_codec := c'\<rparr>)" and "same_entry decode content d (d\<lparr>dec_codec := c'\<rparr>)"
proof -
  have dc: "decompressor (codec_reinit L) (codec_step L) hist decode" using sound by (simp add: sound_libs_def)
  have h: "hist (dec_codec d) (take (handed (dec_src d)) (entry_bytes content d)) (take (dec_pos d) (decoded decode content d))"
    using wf by (simp add: decoder_wf_def)
  show se: "same_entry decode content d (d\<lparr>dec_codec := c'\<rparr>)"
    using decompressor.step_decode [OF dc h step] by (simp add: same_entry_def entry_bytes_def)
  show "decoder_wf hist decode hashed content (d\<lparr>dec_codec := c'\<rparr>)"
    using wf same_entry_decoded [OF se] se decompressor.step_error [OF dc h step] by (simp add: decoder_wf_def same_entry_def)
qed

text \<open>The state after a round in which the codec made a call.\<close>

lemma next_round:
  assumes sound: "sound_libs L hist decode hashed crc" and wf: "decoder_wf hist decode hashed content d"
    and nf: "\<not> dec_finished d" and hon: "honest env (gf_opened g) content"
    and fb: "fill_buf env (g, dec_src d) = ((g1, src), Ok input)"
    and st: "codec_step L (dec_codec d) input out = (c, out1, Inr stp)"
  defines "d2 \<equiv> after_call L c stp out1 (d\<lparr>dec_src := src\<rparr>)"
  shows "decoder_wf hist decode hashed content d2" and "same_entry decode content d d2"
    and "step_done stp \<or> input = [] \<and> out \<noteq> [] \<and> step_produced stp = 0 \<Longrightarrow> decoder_wf hist decode hashed content (d2\<lparr>dec_finished := True\<rparr>)"
    and "length out1 = length out" and "step_produced stp \<le> length out1"
    and "take (step_produced stp) out1 = take (step_produced stp) (drop (dec_pos d) (decoded decode content d))"
    and "dec_pos d2 = dec_pos d + step_produced stp" and "dec_skip d2 = dec_skip d" and "dec_finished d2 = dec_finished d"
    and "handed (dec_src d2) = handed (dec_src d) + step_consumed stp"
    and "handed (dec_src d) + step_consumed stp \<le> src_len (dec_src d)"
    and "src_len (dec_src d2) = src_len (dec_src d)" and "src_start (dec_src d2) = src_start (dec_src d)"
    and "slice_at (entry_bytes content d) (handed (dec_src d)) input" and "guard_le g g1"
proof -
  let ?d1 = "d\<lparr>dec_src := src\<rparr>"
  have sw: "source_wf content (dec_src d)" using wf by (simp add: decoder_wf_def)
  note f = fill_buf_ok [OF sw hon fb]
  note d1 = decoder_wf_src [OF wf f(1-4)]
  have fill: "filled_with content (dec_src ?d1) input" using f(7) by simp
  have st1: "codec_step L (dec_codec ?d1) input out = (c, out1, Inr stp)" and nf1: "\<not> dec_finished ?d1" using st nf by simp_all
  note cp = codec_produces [OF sound d1(1) fill st1, unfolded same_entry_decoded [OF d1(2)]]
  note ac = after_call_wf [OF sound d1(1) nf1 fill st1]
  show "decoder_wf hist decode hashed content d2" "same_entry decode content d d2"
    using ac(1) same_entry_trans [OF d1(2) ac(2)] by (simp_all add: d2_def)
  show "decoder_wf hist decode hashed content (d2\<lparr>dec_finished := True\<rparr>)"
    if "step_done stp \<or> input = [] \<and> out \<noteq> [] \<and> step_produced stp = 0"
    using ac(3,4) that unfolding d2_def by (cases "step_done stp") simp_all
  show "length out1 = length out" "step_produced stp \<le> length out1" using cp(2,3) by simp_all
  show "take (step_produced stp) out1 = take (step_produced stp) (drop (dec_pos d) (decoded decode content d))" using cp(6) by simp
  show "dec_pos d2 = dec_pos d + step_produced stp" "dec_skip d2 = dec_skip d" "dec_finished d2 = dec_finished d"
    by (simp_all add: d2_def after_call_def)
  have "step_consumed stp \<le> src_filled src - src_pos src" using cp(1) fill by (simp add: filled_with_def)
  from consume_wf(2) [OF f(1) this] show "handed (dec_src d2) = handed (dec_src d) + step_consumed stp"
    by (simp add: d2_def after_call_def f(2))
  have len: "src_len src = src_len (dec_src d)" "src_start src = src_start (dec_src d)" using fill_buf_len [OF fb] by simp_all
  show sl: "slice_at (entry_bytes content d) (handed (dec_src d)) input"
    using fill f(2,3) by (simp add: filled_with_def entry_bytes_def)
  from slice_at_length [OF this] have "handed (dec_src d) + length input \<le> src_len src"
    using f(3) len by (simp add: entry_bytes_def range_of_def)
  then show "handed (dec_src d) + step_consumed stp \<le> src_len (dec_src d)" using cp(1) len by simp
  show "src_len (dec_src d2) = src_len (dec_src d)" "src_start (dec_src d2) = src_start (dec_src d)"
    using len by (simp_all add: d2_def after_call_def consume_def)
  show "guard_le g g1" by (rule f(5))
qed

lemma pump_loop_ok:
  assumes sound: "sound_libs L hist decode hashed crc" and "decoder_wf hist decode hashed content d"
    and "\<not> dec_finished d" and "honest env (gf_opened g) content" and "out \<noteq> []"
    and "src_len (dec_src d) - handed (dec_src d) < fuel" and "dec_pos d + length out \<le> u64_max"
    and "pump_loop L env fuel out (g, d) = ((g', d'), r)"
  shows "pump_post hist decode hashed content d out d' r \<and> guard_le g g'"
  using assms(2-)
proof (induction fuel arbitrary: g d out)
  case (Suc fuel)
  obtain g1 src q where fb: "fill_buf env (g, dec_src d) = ((g1, src), q)" by (metis prod.collapse)
  have sw: "source_wf content (dec_src d)" using Suc.prems(1) by (simp add: decoder_wf_def)
  note f = fill_buf_ok [OF sw Suc.prems(3) fb]
  note d1 = decoder_wf_src [OF Suc.prems(1) f(1-4)]
  show ?case
  proof (cases q)
    case (Err e)
    then have "d' = d\<lparr>dec_src := src\<rparr>" "g' = g1" "r = Err e" using Suc.prems(7) fb by auto
    then show ?thesis using d1 f(5) by (simp add: pump_post_def)
  next
    case (Ok input)
    obtain c out1 q2 where st: "codec_step L (dec_codec d) input out = (c, out1, q2)" by (metis prod.collapse)
    show ?thesis
    proof (cases q2)
      case (Inl e)
      have eq: "d' = d\<lparr>dec_src := src, dec_codec := c\<rparr>" "g' = g1" "r = Err (codec_io_error e)"
        using Suc.prems(7) fb Ok st Inl by auto
      have "codec_step L (dec_codec (d\<lparr>dec_src := src\<rparr>)) input out = (c, out1, Inl e)" using st Inl by simp
      note rej = rejected_call_wf [OF sound d1(1) this]
      then show ?thesis using same_entry_trans [OF d1(2) rej(2)] f(5) by (simp add: pump_post_def eq)
    next
      case (Inr stp)
      note nr = next_round [OF sound Suc.prems(1-3) fb [unfolded Ok] st [unfolded Inr]]
      let ?d2 = "after_call L c stp out1 (d\<lparr>dec_src := src\<rparr>)" and ?n = "step_produced stp"
      have "dec_pos d + ?n \<le> u64_max" using nr(4,5) Suc.prems(6) by simp
      note round = pump_round [OF fb [unfolded Ok] st [unfolded Inr] wf_crc_cases [OF sound Suc.prems(1)] nr(5) this, of fuel,
          unfolded Suc.prems(7)]
      have se: "same_entry decode content d (?d2\<lparr>dec_finished := True\<rparr>)"
        using nr(2) by (simp add: same_entry_def entry_bytes_def)
      show ?thesis
      proof (cases "?n = 0 \<and> \<not> step_done stp \<and> step_consumed stp \<noteq> 0")
        case False
        then show ?thesis using round nr se Suc.prems(4) by (auto simp: pump_post_def split: if_splits)
      next
        case True
        have "src_len (dec_src ?d2) - handed (dec_src ?d2) < fuel" using nr(10-12) Suc.prems(5) True by linarith
        moreover have "pump_loop L env fuel out1 (g1, ?d2) = ((g', d'), r)" using round True by simp
        moreover have "out1 \<noteq> []" "\<not> dec_finished ?d2" "dec_pos ?d2 + length out1 \<le> u64_max"
          using nr(4,7,9) Suc.prems(2,4,6) True by auto
        ultimately have "pump_post hist decode hashed content ?d2 out1 d' r \<and> guard_le g1 g'"
          by (intro Suc.IH [OF nr(1) _ honest_le [OF Suc.prems(3) nr(15)]])
        then show ?thesis using pump_post_round [OF nr(2,8) _ nr(4)] nr(7,15) True guard_le_trans by auto
      qed
    qed
  qed (use f(6) in simp_all)
qed simp

lemma remaining_eq: "source_wf content s \<Longrightarrow> remaining s = src_len s - handed s"
  by (auto simp: source_wf_def remaining_def handed_def wrapping_sub_u64_def)

lemma pump_step_ok:
  assumes "sound_libs L hist decode hashed crc" and "decoder_wf hist decode hashed content d"
    and "honest env (gf_opened g) content" and "dec_pos d + length out \<le> u64_max"
    and "pump_step L env out (g, d) = ((g', d'), r)"
  shows "pump_post hist decode hashed content d out d' r \<and> guard_le g g'"
proof (cases "out = [] \<or> dec_finished d")
  case True
  then have "g' = g" "d' = d" "r = Ok (0, out)" using assms(5) by (auto simp: pump_step_def)
  then show ?thesis using assms(2) True by (auto simp: pump_post_def)
next
  case False
  have "remaining (dec_src d) = src_len (dec_src d) - handed (dec_src d)"
    using remaining_eq assms(2) by (auto simp: decoder_wf_def)
  then have "pump_loop L env (Suc (src_len (dec_src d) - handed (dec_src d))) out (g, d) = ((g', d'), r)"
    using False assms(5) by (simp only: pump_step_def prod.case if_False)
  from pump_loop_ok [OF assms(1,2) _ assms(3) _ _ assms(4) this] False show ?thesis by simp
qed

section \<open>The loops of a read\<close>

lemma usize_or_max_le: "usize_or_max n \<le> n" if "n \<le> u64_max"
  using that by (simp add: usize_or_max_def try_usize_def)

lemma usize_or_max_id [simp]: "n \<le> u64_max \<Longrightarrow> usize_or_max n = n"
  by (simp add: usize_or_max_def try_usize_def)

lemma skip_loop_ok:
  assumes sound: "sound_libs L hist decode hashed crc" and "decoder_wf hist decode hashed content d"
    and "honest env (gf_opened g) content" and "offset \<le> u64_max" and "offset - dec_pos d < fuel"
    and "skip_loop L env fuel offset (g, d) = ((g', d'), r)"
  shows "decoder_wf hist decode hashed content d' \<and> same_entry decode content d d' \<and> guard_le g g'
    \<and> r \<noteq> Panic \<and> r \<noteq> Hang \<and> (r = Ok () \<longrightarrow> dec_pos d' = max offset (dec_pos d))"
  using assms(2-)
proof (induction fuel arbitrary: g d)
  case (Suc fuel)
  show ?case
  proof (cases "dec_pos d < offset")
    case False
    then have "g' = g" "d' = d" "r = Ok ()" using Suc.prems(5) by auto
    then show ?thesis using Suc.prems(1) False by simp
  next
    case True
    define want where "want = min (offset - dec_pos d) (length (dec_skip d))"
    have us: "usize_or_max (offset - dec_pos d) = offset - dec_pos d" using Suc.prems(3) by simp
    obtain g1 d1 q where ps: "pump_step L env (take want (dec_skip d)) (g, d) = ((g1, d1), q)" by (metis prod.collapse)
    have wl: "length (take want (dec_skip d)) = want" by (simp add: want_def)
    have "dec_pos d + length (take want (dec_skip d)) \<le> u64_max" using True Suc.prems(3) wl by (simp add: want_def)
    from pump_step_ok [OF sound Suc.prems(1,2) this ps] have post: "pump_post hist decode hashed content d (take want (dec_skip d)) d1 q"
      and gl: "guard_le g g1" by blast+
    show ?thesis
    proof (cases q)
      case (Ok p)
      obtain n out where p: "p = (n, out)" by (cases p)
      let ?d2 = "d1\<lparr>dec_skip := out @ drop want (dec_skip d1)\<rparr>"
      have h: "length out = want" "n \<le> want" "dec_pos d1 = dec_pos d + n" "dec_skip d1 = dec_skip d"
        "decoder_wf hist decode hashed content d1" "same_entry decode content d d1"
        using post wl by (simp_all add: pump_post_def Ok p)
      have sk: "length (dec_skip ?d2) = length (dec_skip d1)" using h(1,4) by (simp add: want_def)
      have e: "decoded decode content ?d2 = decoded decode content d1" "entry_bytes content ?d2 = entry_bytes content d1"
        by (simp_all add: decoded_def entry_bytes_def)
      have wf2: "decoder_wf hist decode hashed content ?d2" using h(5) sk e by (auto simp: decoder_wf_def)
      have se2: "same_entry decode content d ?d2" using h(6) sk by (simp add: same_entry_def entry_bytes_def)
      have eq: "((g', d'), r) = (if n = 0 then ((g1, ?d2), Err truncated) else skip_loop L env fuel offset (g1, ?d2))"
        using Suc.prems(5) True ps us by (simp add: Ok p Let_def flip: want_def)
      show ?thesis
      proof (cases "n = 0")
        case True
        then show ?thesis using eq wf2 se2 gl by simp
      next
        case False
        have "n \<le> offset - dec_pos d" using h(2) by (simp add: want_def)
        then have "offset - dec_pos ?d2 < fuel" using False Suc.prems(4) h(3) True by simp
        moreover have "skip_loop L env fuel offset (g1, ?d2) = ((g', d'), r)" using eq False by simp
        ultimately have ih: "decoder_wf hist decode hashed content d' \<and> same_entry decode content ?d2 d' \<and> guard_le g1 g'
            \<and> r \<noteq> Panic \<and> r \<noteq> Hang \<and> (r = Ok () \<longrightarrow> dec_pos d' = max offset (dec_pos ?d2))"
          by (intro Suc.IH [OF wf2 honest_le [OF Suc.prems(2) gl] Suc.prems(3)])
        have "max offset (dec_pos ?d2) = max offset (dec_pos d)" using h(2,3) True by (auto simp: want_def)
        with ih show ?thesis using gl se2 guard_le_trans same_entry_trans by metis
      qed
    qed (use post Suc.prems(5) True ps us gl in \<open>auto simp: pump_post_def simp flip: want_def\<close>)
  qed
qed simp

text \<open>
  The delivery loop: what stands in the slice below \<open>written\<close> is the decoded entry from \<open>base\<close> on, and
  the loop stops short of the slice and of the declared size only at the end of the stream.
\<close>

lemma deliver_loop_ok:
  assumes sound: "sound_libs L hist decode hashed crc" and "decoder_wf hist decode hashed content d"
    and "honest env (gf_opened g) content" and "declared \<le> u64_max" and "written \<le> length out"
    and "length out - written < fuel" and "dec_pos d = base + written"
    and "take written out = take written (drop base (decoded decode content d))"
    and "deliver_loop L env fuel declared written out (g, d) = ((g', d'), r)"
  shows "decoder_wf hist decode hashed content d' \<and> same_entry decode content d d' \<and> guard_le g g'
    \<and> r \<noteq> Panic \<and> r \<noteq> Hang
    \<and> (\<forall>n out'. r = Ok (n, out') \<longrightarrow> length out' = length out \<and> n \<le> length out \<and> dec_pos d' = base + n
        \<and> take n out' = take n (drop base (decoded decode content d))
        \<and> (n < length out \<longrightarrow> dec_pos d' < declared \<longrightarrow> dec_finished d') \<and> (dec_pos d \<le> declared \<longrightarrow> dec_pos d' \<le> declared))"
  using assms(2-)
proof (induction fuel arbitrary: g d out written)
  case (Suc fuel)
  show ?case
  proof (cases "written < length out \<and> dec_pos d < declared")
    case False
    then have "g' = g" "d' = d" "r = Ok (written, out)" using Suc.prems(8) by auto
    then show ?thesis using Suc.prems(1,4,6,7) False by auto
  next
    case True
    define room where "room = min (declared - dec_pos d) (length out - written)"
    have us: "usize_or_max (declared - dec_pos d) = declared - dec_pos d" using Suc.prems(3) by simp
    obtain g1 d1 q where ps: "pump_step L env (take room (drop written out)) (g, d) = ((g1, d1), q)" by (metis prod.collapse)
    have rl: "length (take room (drop written out)) = room" "room \<noteq> 0" using True by (simp_all add: room_def)
    have "dec_pos d + length (take room (drop written out)) \<le> u64_max"
      using True Suc.prems(3) rl(1) by (auto simp: room_def)
    from pump_step_ok [OF sound Suc.prems(1,2) this ps]
    have post: "pump_post hist decode hashed content d (take room (drop written out)) d1 q" and gl: "guard_le g g1" by blast+
    show ?thesis
    proof (cases q)
      case (Ok p)
      obtain n bs where p: "p = (n, bs)" by (cases p)
      let ?out = "take written out @ bs @ drop (written + room) out"
      have h: "length bs = room" "n \<le> room" "dec_pos d1 = dec_pos d + n" "decoder_wf hist decode hashed content d1"
        "same_entry decode content d d1" "take n bs = take n (drop (dec_pos d) (decoded decode content d))"
        "n = 0 \<Longrightarrow> dec_finished d1"
        using post rl by (auto simp: pump_post_def Ok p)
      have "room \<le> length out - written" by (simp add: room_def)
      then have lo: "length ?out = length out" using True h(1) by auto
      have D1: "decoded decode content d1 = decoded decode content d" by (rule same_entry_decoded [OF h(5)])
      let ?D = "decoded decode content d"
      have tk: "take (written + n) ?out = take (written + n) (drop base (decoded decode content d1))"
      proof -
        have "length (take written out) = written" using Suc.prems(4) by simp
        then have "take (written + n) ?out = take written out @ take n bs" using h(1,2) by simp
        also have "\<dots> = take written (drop base ?D) @ take n (drop written (drop base ?D))"
          using h(6) Suc.prems(6,7) by (simp add: add.commute)
        finally show ?thesis by (simp only: D1 take_add)
      qed
      have eq: "((g', d'), r) = (if n = 0 then ((g1, d1), Ok (written, ?out)) else deliver_loop L env fuel declared (written + n) ?out (g1, d1))"
        using Suc.prems(8) True ps us by (simp add: Ok p Let_def flip: room_def)
      show ?thesis
      proof (cases "n = 0")
        case nz: True
        have "g' = g1" "d' = d1" and r: "r = Ok (written, ?out)" using eq nz by simp_all
        moreover have "take written ?out = take written (drop base ?D)" using tk nz by (simp only: D1 add_0_right)
        ultimately show ?thesis using h gl lo Suc.prems(4,6) True nz
          by (simp only: rust.inject prod.inject rust.distinct, elim conjE, intro conjI allI impI) auto
      next
        case False
        have "n \<le> length out - written" using h(2) by (simp add: room_def)
        then have wn: "written + n \<le> length ?out" "length ?out - (written + n) < fuel" "dec_pos d1 = base + (written + n)"
          unfolding lo using h(3) False True Suc.prems(5,6) by linarith+
        have le: "dec_pos d1 \<le> declared" using h(2,3) True by (auto simp: room_def)
        have "deliver_loop L env fuel declared (written + n) ?out (g1, d1) = ((g', d'), r)" using eq False by simp
        note ih = Suc.IH [OF h(4) honest_le [OF Suc.prems(2) gl] Suc.prems(3) wn tk this, unfolded lo D1]
        have "guard_le g g'" "same_entry decode content d d'"
          using ih guard_le_trans [OF gl] same_entry_trans [OF h(5)] by blast+
        then show ?thesis using ih le by blast
      qed
    qed (use post Suc.prems(8) True ps us gl in \<open>auto simp: pump_post_def simp flip: room_def\<close>)
  qed
qed simp

section \<open>A read\<close>

text \<open>An entry matches its record in the central directory.\<close>

definition entry_matches :: "(bytes \<Rightarrow> u32) \<Rightarrow> 'w entry_meta \<Rightarrow> bytes \<Rightarrow> bool" where
  "entry_matches crc meta bs \<longleftrightarrow> length bs = uncompressed_size meta \<and> crc bs = crc32 meta"

text \<open>
  What \<open>verify\<close> promises: it stays on the entry, keeps the invariant, records nothing but the
  verification state, accepts only what matches, and rejects only what does not match or what the
  codec or the archive's end proved bad.
\<close>

definition verify_post ::
  "(bytes \<Rightarrow> u32) \<Rightarrow> bytes \<Rightarrow> 'w entry_meta \<Rightarrow> 'w entry_meta \<Rightarrow> (io_error, unit) rust \<Rightarrow> bool" where
  "verify_post crc D meta meta' r \<longleftrightarrow> r \<noteq> Panic \<and> r \<noteq> Hang
     \<and> (meta' = meta \<or> (\<exists>e. r = Err e \<and> proves_bad e \<and> meta' = meta\<lparr>verify_state := VERIFY_BAD\<rparr>)
        \<or> r = Ok () \<and> meta' = meta\<lparr>verify_state := VERIFY_OK\<rparr> \<and> entry_matches crc meta D)"

lemma verify_decoder_ok:
  assumes sound: "sound_libs L hist decode hashed crc" and wf: "decoder_wf hist decode hashed content d"
    and hon: "honest env (gf_opened g) content" and small: "uncompressed_size meta < u64_max"
    and eq: "verify_decoder L env (g, d, meta) = ((g', d', meta'), r)"
  shows "decoder_wf hist decode hashed content d' \<and> guard_le g g' \<and> decoded decode content d' = decoded decode content d"
    and "verify_post crc (decoded decode content d) meta meta' r"
proof -
  let ?d1 = "d\<lparr>dec_verified := True\<rparr>" and ?D = "decoded decode content d"
  have D1: "decoded decode content (d\<lparr>dec_verified := b\<rparr>) = decoded decode content d" for b and d :: "('a, 'b, 'c) decoder"
    by (simp add: decoded_def entry_bytes_def)
  have wfv: "decoder_wf hist decode hashed content (d\<lparr>dec_verified := b\<rparr>) = decoder_wf hist decode hashed content d"
    for b and d :: "('a, 'b, 'c) decoder"
    by (simp add: decoder_wf_def decoded_def entry_bytes_def)
  consider (checked) "dec_verified d \<or> (dec_pos d = uncompressed_size meta \<and> dec_crc d = None)"
    | (short) "\<not> dec_verified d" "dec_pos d \<noteq> uncompressed_size meta"
    | (sum) h where "\<not> dec_verified d" "dec_pos d = uncompressed_size meta" "dec_crc d = Some h" by (cases "dec_crc d") blast+
  then have "decoder_wf hist decode hashed content d' \<and> guard_le g g' \<and> decoded decode content d' = ?D
    \<and> verify_post crc ?D meta meta' r"
  proof cases
    case sum
    obtain g1 d2 q where ps: "pump_step L env [0] (g, ?d1) = ((g1, d2), q)" by (metis prod.collapse)
    have wf1: "decoder_wf hist decode hashed content ?d1" using wf by (simp add: wfv)
    have "dec_pos ?d1 + length [0 :: byte] \<le> u64_max" using sum(2) small by simp
    from pump_step_ok [OF sound wf1 hon this ps] have post: "pump_post hist decode hashed content ?d1 [0] d2 q" and gl: "guard_le g g1"
      by blast+
    have D2: "decoded decode content d2 = ?D" and wf2: "decoder_wf hist decode hashed content d2"
      using post same_entry_decoded D1 unfolding pump_post_def by metis+
    have hc: "crc_finalize L h = crc (take (dec_pos d) ?D)"
      using sound wf sum(3) by (simp add: sound_libs_def crc_laws_def decoder_wf_def)
    have fin: "?D = take (dec_pos d) ?D \<and> length ?D = dec_pos d" if "q = Ok (0, x)" for x
      using post that wf2 D2 by (simp add: pump_post_def decoder_wf_def)
    show ?thesis
    proof (cases q)
      case (Ok p)
      obtain n x where p: "p = (n, x)" by (cases p)
      have "entry_matches crc meta ?D" if "n = 0" "crc_finalize L h = crc32 meta"
        using fin [of x] hc sum(2) that by (auto simp: entry_matches_def Ok p)
      then show ?thesis using eq sum ps gl wf2 D2 Ok p
        by (auto simp: verify_decoder_def Let_def verify_post_def proves_bad_def checksum_error_def split: if_splits)
    next
      case (Err e)
      then show ?thesis using eq sum ps gl wf2 D2
        by (auto simp: verify_decoder_def Let_def verify_post_def wfv D1 split: if_splits)
    qed (use post in \<open>simp_all add: pump_post_def\<close>)
  next
    case short
    then show ?thesis using eq wf by (auto simp: verify_decoder_def Let_def verify_post_def proves_bad_def truncated_def wfv D1)
  next
    case checked
    then show ?thesis using eq wf by (auto simp: verify_decoder_def Let_def verify_post_def wfv D1 split: if_splits)
  qed
  then show "decoder_wf hist decode hashed content d' \<and> guard_le g g' \<and> decoded decode content d' = decoded decode content d"
    and "verify_post crc (decoded decode content d) meta meta' r" by blast+
qed

text \<open>What \<open>read_at\<close> promises of the bytes it returns and of the entry.\<close>

definition read_post ::
  "(bytes \<Rightarrow> u32) \<Rightarrow> bytes \<Rightarrow> nat \<Rightarrow> bytes \<Rightarrow> 'w entry_meta \<Rightarrow> 'w entry_meta \<Rightarrow> (io_error, nat \<times> bytes) rust \<Rightarrow> bool" where
  "read_post crc D offset out meta meta' r \<longleftrightarrow> r \<noteq> Panic \<and> r \<noteq> Hang
     \<and> (\<forall>n out'. r = Ok (n, out') \<longrightarrow> length out' = length out \<and> n \<le> length out \<and> slice_at D offset (take n out')
         \<and> (n < length out \<longrightarrow> offset + n < uncompressed_size meta \<longrightarrow> offset + n = length D)
         \<and> (offset \<le> uncompressed_size meta \<longrightarrow> offset + n \<le> uncompressed_size meta))
     \<and> (meta' = meta \<or> (\<exists>e. r = Err e \<and> proves_bad e \<and> meta' = meta\<lparr>verify_state := VERIFY_BAD\<rparr>)
        \<or> meta' = meta\<lparr>verify_state := VERIFY_OK\<rparr> \<and> entry_matches crc meta D)"

lemma decoder_read_at_ok:
  assumes sound: "sound_libs L hist decode hashed crc" and wf: "decoder_wf hist decode hashed content d"
    and hon: "honest env (gf_opened g) content" and small: "uncompressed_size meta < u64_max" "offset \<le> u64_max"
    and eq: "decoder_read_at L env offset out (g, d, meta) = ((g', d', meta'), r)"
  shows "decoder_wf hist decode hashed content d' \<and> guard_le g g' \<and> decoded decode content d' = decoded decode content d"
    and "read_post crc (decoded decode content d) offset out meta meta' r"
proof -
  let ?D = "decoded decode content d" and ?total = "uncompressed_size meta"
  obtain g1 d1 q1 where sk: "skip_loop L env (Suc (offset - dec_pos d)) offset (g, d) = ((g1, d1), q1)" by (metis prod.collapse)
  from skip_loop_ok [OF sound wf hon small(2) _ sk]
  have s1: "decoder_wf hist decode hashed content d1" "same_entry decode content d d1" "guard_le g g1" "q1 \<noteq> Panic" "q1 \<noteq> Hang"
    "q1 = Ok () \<Longrightarrow> dec_pos d1 = max offset (dec_pos d)" by simp_all
  note D1 = same_entry_decoded [OF s1(2)]
  obtain g2 d2 q2 where dl: "deliver_loop L env (Suc (length out)) ?total 0 out (g1, d1) = ((g2, d2), q2)" by (metis prod.collapse)
  have "?total \<le> u64_max" using small(1) by simp
  from deliver_loop_ok [OF sound s1(1) honest_le [OF hon s1(3)] this _ _ _ _ dl, of "dec_pos d1"]
  have s2: "decoder_wf hist decode hashed content d2" "same_entry decode content d1 d2" "guard_le g1 g2" "q2 \<noteq> Panic" "q2 \<noteq> Hang"
    and res: "\<And>n out'. q2 = Ok (n, out') \<Longrightarrow> length out' = length out \<and> n \<le> length out \<and> dec_pos d2 = dec_pos d1 + n
        \<and> take n out' = take n (drop (dec_pos d1) (decoded decode content d1))
        \<and> (n < length out \<longrightarrow> dec_pos d2 < ?total \<longrightarrow> dec_finished d2) \<and> (dec_pos d1 \<le> ?total \<longrightarrow> dec_pos d2 \<le> ?total)"
    by auto
  note D2 = same_entry_decoded [OF s2(2), unfolded D1]
  have gl: "guard_le g g2" using s1(3) s2(3) guard_le_trans by blast
  obtain g3 d3 m3 q3 where vd: "verify_decoder L env (g2, d2, meta) = ((g3, d3, m3), q3)" by (metis prod.collapse)
  note v = verify_decoder_ok [OF sound s2(1) honest_le [OF hon gl] small(1) vd, unfolded D2]
  have data: "length out' = length out \<and> n \<le> length out \<and> slice_at ?D offset (take n out')
         \<and> (n < length out \<longrightarrow> offset + n < ?total \<longrightarrow> offset + n = length ?D)
         \<and> (offset \<le> ?total \<longrightarrow> offset + n \<le> ?total)"
    if "dec_pos d \<le> offset" "q1 = Ok ()" "q2 = Ok (n, out')" for n out'
  proof -
    have off: "dec_pos d1 = offset" using s1(6) that(1,2) by simp
    have "dec_pos d2 \<le> length ?D" "dec_finished d2 \<Longrightarrow> dec_pos d2 = length ?D" using s2(1) by (simp_all add: decoder_wf_def D2)
    then show ?thesis using res [OF that(3)] by (auto simp: off D1 slice_at_def min_def)
  qed
  consider (behind) "dec_pos d > offset" | (skip) "dec_pos d \<le> offset" "q1 \<noteq> Ok ()"
    | (deliver) "dec_pos d \<le> offset" "q1 = Ok ()" "\<nexists>p. q2 = Ok p"
    | (got) n out' where "dec_pos d \<le> offset" "q1 = Ok ()" "q2 = Ok (n, out')" by (metis linorder_not_le surj_pair)
  then have "decoder_wf hist decode hashed content d' \<and> guard_le g g' \<and> decoded decode content d' = ?D \<and> read_post crc ?D offset out meta meta' r"
  proof cases
    case behind
    then have "g' = g" "d' = d" "meta' = meta" "r = Err past_offset_error" using eq by (simp_all add: decoder_read_at_def)
    then show ?thesis using wf by (simp add: read_post_def)
  next
    case skip
    then obtain e where "q1 = Err e" using s1(4,5) by (cases q1) simp_all
    then have "g' = g1" "d' = d1" "meta' = meta" "r = Err e" using eq skip(1) sk by (simp_all add: decoder_read_at_def)
    then show ?thesis using s1 D1 by (simp add: read_post_def)
  next
    case deliver
    then obtain e where "q2 = Err e" using s2(4,5) by (cases q2) simp_all
    then have "g' = g2" "d' = d2" "meta' = meta" "r = Err e" using eq deliver(1,2) sk dl by (simp_all add: decoder_read_at_def)
    then show ?thesis using s2 D2 gl by (simp add: read_post_def)
  next
    case got
    note dt = data [OF got]
    show ?thesis
    proof (cases "?total \<le> dec_pos d2")
      case False
      then have "g' = g2" "d' = d2" "meta' = meta" "r = Ok (n, out')" using eq got sk dl by (simp_all add: decoder_read_at_def)
      then show ?thesis using s2 D2 gl dt by (simp add: read_post_def)
    next
      case True
      then have "((g', d', meta'), r) = ((g3, d3, m3), case q3 of Ok u \<Rightarrow> Ok (n, out') | Err e \<Rightarrow> Err e | Panic \<Rightarrow> Panic | Hang \<Rightarrow> Hang)"
        using eq got sk dl vd by (cases q3) (simp_all add: decoder_read_at_def)
      then have e: "g' = g3" "d' = d3" "meta' = m3"
        "r = (case q3 of Ok u \<Rightarrow> Ok (n, out') | Err e \<Rightarrow> Err e | Panic \<Rightarrow> Panic | Hang \<Rightarrow> Hang)" by simp_all
      have "read_post crc ?D offset out meta m3 (case q3 of Ok u \<Rightarrow> Ok (n, out') | Err e \<Rightarrow> Err e | Panic \<Rightarrow> Panic | Hang \<Rightarrow> Hang)"
        using v(2) dt by (cases q3) (auto simp: read_post_def verify_post_def)
      then show ?thesis using v(1) guard_le_trans [OF gl] by (simp add: e)
    qed
  qed
  then show "decoder_wf hist decode hashed content d' \<and> guard_le g g' \<and> decoded decode content d' = decoded decode content d"
    and "read_post crc (decoded decode content d) offset out meta meta' r" by blast+
qed

end
