(* ===== verification/Decode_Reads.thy ===== *)
theory Decode_Reads
  imports Decode_Correct
begin

text \<open>
  The reads of one decoder, one after the other, over the promises of the crates: what they return,
  that they return, and what a verified entry is.
\<close>

definition entry_raw :: "bytes \<Rightarrow> entry_location \<Rightarrow> bytes" where
  "entry_raw content loc = take (loc_compressed_size loc) (drop (loc_data_start loc) content)"

text \<open>The content of an entry: its bytes in the archive, decoded by its method.\<close>

definition entry_content :: "(bytes \<Rightarrow> bytes) \<Rightarrow> (bytes \<Rightarrow> bytes) \<Rightarrow> bytes \<Rightarrow> entry_location \<Rightarrow> bytes" where
  "entry_content inflate unzstd content loc =
     (case loc_method loc of Store \<Rightarrow> entry_raw content loc | Deflate \<Rightarrow> inflate (entry_raw content loc)
      | Zstd \<Rightarrow> unzstd (entry_raw content loc))"

fun decoder_reads ::
  "('d, 'z, 'h) libs \<Rightarrow> environment \<Rightarrow> (nat \<times> nat) list \<Rightarrow> guarded_file \<times> ('d, 'z, 'h) decoder \<times> 'w entry_meta
     \<Rightarrow> (guarded_file \<times> ('d, 'z, 'h) decoder \<times> 'w entry_meta) \<times> (nat \<times> (io_error, nat \<times> bytes) rust) list" where
  "decoder_reads L env [] s = (s, [])"
| "decoder_reads L env ((offset, len) # rs) s =
     (case decoder_read_at L env offset (replicate len 0) s of
        (s, r) \<Rightarrow> case decoder_reads L env rs s of (s, out) \<Rightarrow> (s, (offset, r) # out))"

lemma sound_crates:
  assumes "flate2_laws L hist_d inflate" and "zstd_laws L hist_z unzstd" and "crc_laws L hashed crc"
  shows "sound_libs L (codec_hist hist_d hist_z) (codec_decode inflate unzstd) hashed crc"
  using codec_decompressor [OF assms(1,2)] assms(3) by (simp add: sound_libs_def)

lemma decoder_new_content:
  assumes "codec_method (cp_codec parts) = loc_method loc"
  shows "decoded (codec_decode inflate unzstd) content (decoder_new L loc parts v) = entry_content inflate unzstd content loc"
  using assms
  by (cases "loc_method loc") (simp_all add: decoded_def entry_bytes_def decoder_new_def Let_def codec_decode_def
      entry_content_def range_of_def entry_raw_def source_new_def)

text \<open>What a sequence of reads keeps and returns.\<close>

lemma decoder_reads_ok:
  assumes sound: "sound_libs L hist decode hashed crc" and "decoder_wf hist decode hashed content d"
    and "honest env (gf_opened g) content" and "uncompressed_size meta < u64_max"
    and "\<forall>(off, len) \<in> set rs. off \<le> u64_max" and "decoder_reads L env rs (g, d, meta) = ((g', d', meta'), out)"
  shows "(\<forall>(off, r) \<in> set out. r \<noteq> Panic \<and> r \<noteq> Hang
        \<and> (\<forall>n bs. r = Ok (n, bs) \<longrightarrow> n \<le> length bs \<and> slice_at (decoded decode content d) off (take n bs)))
     \<and> (\<exists>vs. meta' = meta\<lparr>verify_state := vs\<rparr>
          \<and> (vs \<noteq> verify_state meta \<longrightarrow> vs = VERIFY_BAD \<or> vs = VERIFY_OK \<and> entry_matches crc meta (decoded decode content d)))"
  using assms(2-)
proof (induction rs arbitrary: g d meta out)
  case Nil
  then show ?case by (auto intro: exI [of _ "verify_state meta"])
next
  case (Cons p rs)
  obtain off len where p: "p = (off, len)" by (cases p)
  obtain g1 d1 m1 r where r: "decoder_read_at L env off (replicate len 0) (g, d, meta) = ((g1, d1, m1), r)" by (metis prod.collapse)
  obtain rest where rest: "decoder_reads L env rs (g1, d1, m1) = ((g', d', meta'), rest)" and out: "out = (off, r) # rest"
    using Cons.prems(5) r by (auto simp: p split: prod.splits)
  have "off \<le> u64_max" using Cons.prems(4) p by auto
  note h = decoder_read_at_ok [OF sound Cons.prems(1-3) this r]
  let ?D = "decoded decode content d"
  have D1: "decoded decode content d1 = ?D" using h(1) by simp
  obtain vs where m1: "m1 = meta\<lparr>verify_state := vs\<rparr>"
    and vs: "vs \<noteq> verify_state meta \<longrightarrow> vs = VERIFY_BAD \<or> vs = VERIFY_OK \<and> entry_matches crc meta ?D"
  proof -
    have "m1 = meta \<or> m1 = meta\<lparr>verify_state := VERIFY_BAD\<rparr> \<or> m1 = meta\<lparr>verify_state := VERIFY_OK\<rparr> \<and> entry_matches crc meta ?D"
      using h(2) unfolding read_post_def by blast
    then show thesis using that [of "verify_state meta"] that by fastforce
  qed
  have "entry_matches crc m1 ?D = entry_matches crc meta ?D" by (simp add: entry_matches_def m1)
  with Cons.IH [OF _ _ _ _ rest] h(1) Cons.prems m1 have ih:
    "(\<forall>(off, r) \<in> set rest. r \<noteq> Panic \<and> r \<noteq> Hang \<and> (\<forall>n bs. r = Ok (n, bs) \<longrightarrow> n \<le> length bs \<and> slice_at ?D off (take n bs)))"
    "(\<exists>vs'. meta' = m1\<lparr>verify_state := vs'\<rparr>
          \<and> (vs' \<noteq> verify_state m1 \<longrightarrow> vs' = VERIFY_BAD \<or> vs' = VERIFY_OK \<and> entry_matches crc meta ?D))"
    by (simp_all add: guard_le_def D1)
  have one: "r \<noteq> Panic \<and> r \<noteq> Hang \<and> (\<forall>n bs. r = Ok (n, bs) \<longrightarrow> n \<le> length bs \<and> slice_at ?D off (take n bs))"
    using h(2) unfolding read_post_def by auto
  from ih(2) obtain vs' where "meta' = meta\<lparr>verify_state := vs'\<rparr>"
    "vs' \<noteq> verify_state meta \<longrightarrow> vs' = VERIFY_BAD \<or> vs' = VERIFY_OK \<and> entry_matches crc meta ?D"
    using vs by (auto simp: m1)
  then show ?case using one ih(1) by (auto simp: out)
qed

section \<open>Theorems\<close>

text \<open>Parts a decoder can be made of for an entry.\<close>

definition parts_for :: "entry_location \<Rightarrow> ('d, 'z) core_parts \<Rightarrow> bool" where
  "parts_for loc parts \<longleftrightarrow> cp_buf parts \<noteq> [] \<and> cp_skip parts \<noteq> [] \<and> codec_method (cp_codec parts) = loc_method loc
     \<and> loc_data_start loc + loc_compressed_size loc \<le> u64_max"

lemma new_decoder_reads:
  assumes crates: "flate2_laws L hist_d inflate" "zstd_laws L hist_z unzstd" "crc_laws L hashed crc"
    and "honest env (gf_opened g) content" and parts: "parts_for loc parts" and "uncompressed_size meta < u64_max"
    and "\<forall>(off, len) \<in> set rs. off \<le> u64_max"
    and "decoder_reads L env rs (g, decoder_new L loc parts v, meta) = ((g', d', meta'), out)"
  shows "(\<forall>(off, r) \<in> set out. r \<noteq> Panic \<and> r \<noteq> Hang
        \<and> (\<forall>n bs. r = Ok (n, bs) \<longrightarrow> n \<le> length bs \<and> slice_at (entry_content inflate unzstd content loc) off (take n bs)))
     \<and> (\<exists>vs. meta' = meta\<lparr>verify_state := vs\<rparr> \<and> (vs \<noteq> verify_state meta \<longrightarrow> vs = VERIFY_BAD
          \<or> vs = VERIFY_OK \<and> entry_matches crc meta (entry_content inflate unzstd content loc)))"
proof -
  note sound = sound_crates [OF crates]
  have "decoder_wf (codec_hist hist_d hist_z) (codec_decode inflate unzstd) hashed content (decoder_new L loc parts v)"
    using decoder_new_wf [OF sound] parts by (simp add: parts_for_def)
  note reads = decoder_reads_ok [OF sound this assms(4,6,7,8)]
  have "codec_method (cp_codec parts) = loc_method loc" using parts by (simp add: parts_for_def)
  from reads [unfolded decoder_new_content [OF this]] show ?thesis .
qed


definition sample_loc :: entry_location where
  "sample_loc = \<lparr> loc_data_start = 1, loc_compressed_size = 3, loc_method = Deflate \<rparr>"

definition sample_parts :: "(nat, unit) core_parts" where
  "sample_parts = \<lparr> cp_codec = DeflateCodec 7, cp_buf = [0, 0], cp_skip = [0] \<rparr>"

definition sample_meta :: "unit entry_meta" where
  "sample_meta = \<lparr> wayfinder = (), uncompressed_size = 3, compressed_size = 3, mtime_sec = 0, mtime_nsec = 0,
     crc32 = 9, method_raw = 8, mode = 0, encrypted = False, data_start = 1, verify_state = VERIFY_UNKNOWN,
     symlink_slot = u32_max \<rparr>"

lemma sample_parts_for: "parts_for sample_loc sample_parts"
  by (simp add: parts_for_def sample_loc_def sample_parts_def codec_method_def)

lemma sample_honest: "honest (quiet_env sample_stamp content) (gf_opened sample_guard) content"
  by (simp add: sample_guard_def)


end
