(* ===== verification/Decode_Live.thy ===== *)
theory Decode_Live
  imports Decode_Reads
begin

text \<open>
  Reads succeed: when the archive is left alone, the entry is what the central directory says, and
  the codec accepts it, a read returns every byte that was asked for, and verification accepts.
\<close>

definition live_libs ::
  "('d, 'z, 'h) libs \<Rightarrow> (('d, 'z) codec \<Rightarrow> bytes \<Rightarrow> bytes \<Rightarrow> bool) \<Rightarrow> (('d, 'z) codec \<Rightarrow> bytes \<Rightarrow> bytes)
     \<Rightarrow> (('d, 'z) codec \<Rightarrow> bytes \<Rightarrow> bool) \<Rightarrow> bool" where
  "live_libs L hist decode accepts \<longleftrightarrow> live_decompressor (codec_reinit L) (codec_step L) hist decode accepts"

text \<open>The file is as it was opened, and no change was found.\<close>

definition calm :: "stamp \<Rightarrow> guarded_file \<Rightarrow> bool" where
  "calm opened g \<longleftrightarrow> gf_opened g = opened \<and> \<not> gf_stale g"

lemma calm_read_exact:
  assumes "calm opened g" and "off + len \<le> length content"
  obtains g' where "read_exact_at (quiet_env opened content) off len g = (g', Ok (take len (drop off content)))" and "calm opened g'"
  using quiet_read_exact [of g content off len] assms by (auto simp: calm_def)

lemma fill_buf_quiet:
  assumes wf: "source_wf content s" and calm: "calm opened g" and "src_start s + src_len s \<le> length content"
  obtains g' s' bs where "fill_buf (quiet_env opened content) (g, s) = ((g', s'), Ok bs)" and "calm opened g'"
proof -
  consider (full) "src_pos s < src_filled s" | (drained) "src_pos s = src_filled s" "handed s = src_len s"
    | (refill) "src_pos s = src_filled s" "handed s < src_len s"
    using wf by (fastforce simp: source_wf_def handed_def)
  then show thesis
  proof cases
    case full
    then show ?thesis using that calm wf by (simp add: fill_buf_def source_wf_def)
  next
    case drained
    then show ?thesis using that calm wf
      by (simp add: fill_buf_def Let_def source_wf_def handed_def wrapping_add_u64_def wrapping_sub_u64_def)
  next
    case refill
    let ?want = "min (src_len s - handed s) (length (src_buf s))"
    have "src_start s + handed s + ?want \<le> length content" using assms(3) refill(2) by linarith
    from calm_read_exact [OF calm this] obtain g' where r: "read_exact_at (quiet_env opened content) (src_start s + handed s) ?want g
        = (g', Ok (take ?want (drop (src_start s + handed s) content)))" and "calm opened g'" by blast
    moreover have "length (take ?want (drop (src_start s + handed s) content)) = ?want"
      using \<open>src_start s + handed s + ?want \<le> length content\<close> by simp
    ultimately show ?thesis using that fill_buf_refill [OF wf refill, of "quiet_env opened content" g] by simp
  qed
qed

text \<open>A decoder on an accepted entry that lies inside a calm archive.\<close>

definition ready ::
  "(('d, 'z) codec \<Rightarrow> bytes \<Rightarrow> bool) \<Rightarrow> stamp \<Rightarrow> bytes \<Rightarrow> guarded_file \<Rightarrow> ('d, 'z, 'h) decoder \<Rightarrow> bool" where
  "ready accepts opened content g d \<longleftrightarrow> calm opened g \<and> accepts (dec_codec d) (entry_bytes content d)
     \<and> src_start (dec_src d) + src_len (dec_src d) \<le> length content"

lemma ready_finished [simp]: "ready accepts opened content g (d\<lparr>dec_finished := b\<rparr>) = ready accepts opened content g d"
  "ready accepts opened content g (d\<lparr>dec_verified := b\<rparr>) = ready accepts opened content g d"
  "ready accepts opened content g (d\<lparr>dec_skip := x\<rparr>) = ready accepts opened content g d"
  by (simp_all add: ready_def entry_bytes_def)

lemma pump_loop_live:
  assumes sound: "sound_libs L hist decode hashed crc" and live: "live_libs L hist decode accepts"
    and "decoder_wf hist decode hashed content d" and "\<not> dec_finished d" and "ready accepts opened content g d" and "out \<noteq> []"
    and "src_len (dec_src d) - handed (dec_src d) < fuel" and "dec_pos d + length out \<le> u64_max"
  shows "\<exists>g' d' n bs. pump_loop L (quiet_env opened content) fuel out (g, d) = ((g', d'), Ok (n, bs)) \<and> ready accepts opened content g' d'"
  using assms(3-)
proof (induction fuel arbitrary: g d out)
  case (Suc fuel)
  let ?env = "quiet_env opened content" and ?full = "entry_bytes content d"
  have ld: "live_decompressor (codec_reinit L) (codec_step L) hist decode accepts" using live by (simp add: live_libs_def)
  have sw: "source_wf content (dec_src d)" and in_file: "src_start (dec_src d) + src_len (dec_src d) \<le> length content"
    and calm: "calm opened g" and acc: "accepts (dec_codec d) ?full"
    and h: "hist (dec_codec d) (take (handed (dec_src d)) ?full) (take (dec_pos d) (decoded decode content d))"
    using Suc.prems(1,3) by (simp_all add: ready_def decoder_wf_def)
  have hon: "honest ?env (gf_opened g) content" using calm by (simp add: calm_def)
  obtain g1 src input where fb: "fill_buf ?env (g, dec_src d) = ((g1, src), Ok input)" and calm1: "calm opened g1"
    by (rule fill_buf_quiet [OF sw calm in_file])
  have fill: "slice_at ?full (handed (dec_src d)) input"
    using fill_buf_ok(2,3,7) [OF sw hon fb] by (simp add: filled_with_def entry_bytes_def)
  have "take (handed (dec_src d)) ?full @ input = take (handed (dec_src d) + length input) ?full"
    using slice_at_take_append [OF fill, of "length input"] by simp
  then have "prefix (take (handed (dec_src d)) ?full @ input) ?full" by (simp add: take_is_prefix)
  from live_decompressor.step_accepts [OF ld h acc this] obtain c out1 stp
    where st: "codec_step L (dec_codec d) input out = (c, out1, Inr stp)" by blast
  note nr = next_round [OF sound Suc.prems(1,2) hon fb st]
  let ?d2 = "after_call L c stp out1 (d\<lparr>dec_src := src\<rparr>)" and ?n = "step_produced stp"
  have "dec_codec ?d2 = c" by (simp add: after_call_def)
  then have ready2: "ready accepts opened content g1 ?d2"
    using nr(2,12,13) calm1 acc in_file live_decompressor.step_keeps_accepts [OF ld h st] by (simp add: ready_def same_entry_def)
  have "dec_pos d + ?n \<le> u64_max" using nr(4,5) Suc.prems(6) by simp
  note round = pump_round [OF fb st wf_crc_cases [OF sound Suc.prems(1)] nr(5) this, of fuel]
  have go: "0 < step_consumed stp \<or> 0 < ?n \<or> step_done stp" if "input \<noteq> []"
    by (rule live_decompressor.step_progress [OF ld h st that Suc.prems(4)])
  show ?case
  proof (cases "?n = 0 \<and> \<not> step_done stp \<and> step_consumed stp \<noteq> 0")
    case False
    then show ?thesis using round ready2 go by auto
  next
    case True
    have "src_len (dec_src ?d2) - handed (dec_src ?d2) < fuel" using nr(10-12) Suc.prems(5) True by linarith
    moreover have "out1 \<noteq> []" "\<not> dec_finished ?d2" "dec_pos ?d2 + length out1 \<le> u64_max"
      using nr(4,7,9) Suc.prems(2,4,6) True by auto
    ultimately show ?thesis using Suc.IH [OF nr(1) _ ready2, of out1] round True by simp
  qed
qed simp

lemma pump_step_live:
  assumes "sound_libs L hist decode hashed crc" and "live_libs L hist decode accepts"
    and "decoder_wf hist decode hashed content d" and "ready accepts opened content g d" and "dec_pos d + length out \<le> u64_max"
  obtains g' d' n bs where "pump_step L (quiet_env opened content) out (g, d) = ((g', d'), Ok (n, bs))"
    and "ready accepts opened content g' d'" and "pump_post hist decode hashed content d out d' (Ok (n, bs))"
proof -
  have hon: "honest (quiet_env opened content) (gf_opened g) content" using assms(4) by (simp add: ready_def calm_def)
  have "\<exists>g' d' n bs. pump_step L (quiet_env opened content) out (g, d) = ((g', d'), Ok (n, bs)) \<and> ready accepts opened content g' d'"
  proof (cases "out = [] \<or> dec_finished d")
    case False
    have "remaining (dec_src d) = src_len (dec_src d) - handed (dec_src d)"
      using remaining_eq assms(3) by (auto simp: decoder_wf_def)
    then have eq: "pump_step L (quiet_env opened content) out (g, d)
        = pump_loop L (quiet_env opened content) (Suc (src_len (dec_src d) - handed (dec_src d))) out (g, d)"
      using False by (simp only: pump_step_def prod.case if_False)
    show ?thesis unfolding eq by (rule pump_loop_live [OF assms(1-3) _ assms(4) _ _ assms(5)]) (use False in simp_all)
  qed (use assms(4) in \<open>auto simp: pump_step_def\<close>)
  then show thesis using that pump_step_ok [OF assms(1,3) hon assms(5)] by blast
qed

lemma skip_loop_live:
  assumes sound: "sound_libs L hist decode hashed crc" and live: "live_libs L hist decode accepts"
    and "decoder_wf hist decode hashed content d" and "ready accepts opened content g d" and "offset \<le> u64_max"
    and "offset - dec_pos d < fuel" and "offset \<le> length (decoded decode content d)"
  shows "\<exists>g' d'. skip_loop L (quiet_env opened content) fuel offset (g, d) = ((g', d'), Ok ()) \<and> ready accepts opened content g' d'"
  using assms(3-)
proof (induction fuel arbitrary: g d)
  case (Suc fuel)
  show ?case
  proof (cases "dec_pos d < offset")
    case True
    define want where "want = min (offset - dec_pos d) (length (dec_skip d))"
    have us: "usize_or_max (offset - dec_pos d) = offset - dec_pos d" using Suc.prems(3) by simp
    have wl: "length (take want (dec_skip d)) = want" by (simp add: want_def)
    have sk: "dec_skip d \<noteq> []" using Suc.prems(1) by (simp add: decoder_wf_def)
    then have w0: "want \<noteq> 0" "want \<le> offset - dec_pos d" using True by (simp_all add: want_def)
    have "dec_pos d + length (take want (dec_skip d)) \<le> u64_max" using True Suc.prems(3) wl w0 by linarith
    from pump_step_live [OF sound live Suc.prems(1,2) this] obtain g1 d1 n bs
      where ps: "pump_step L (quiet_env opened content) (take want (dec_skip d)) (g, d) = ((g1, d1), Ok (n, bs))"
        and rd: "ready accepts opened content g1 d1"
        and post: "pump_post hist decode hashed content d (take want (dec_skip d)) d1 (Ok (n, bs))" by blast
    let ?d2 = "d1\<lparr>dec_skip := bs @ drop want (dec_skip d1)\<rparr>"
    have h: "length bs = want" "n \<le> want" "dec_pos d1 = dec_pos d + n" "decoder_wf hist decode hashed content d1"
      "same_entry decode content d d1" "n = 0 \<Longrightarrow> dec_finished d1"
      using post wl w0 by (auto simp: pump_post_def)
    have D1: "decoded decode content d1 = decoded decode content d" by (rule same_entry_decoded [OF h(5)])
    have "n \<noteq> 0"
    proof
      assume "n = 0"
      then have "dec_pos d1 = length (decoded decode content d)" using h(4,6) D1 by (simp add: decoder_wf_def)
      then show False using \<open>n = 0\<close> h(3) True Suc.prems(5) by simp
    qed
    have D2: "decoded decode content ?d2 = decoded decode content d" "entry_bytes content ?d2 = entry_bytes content d1"
      using D1 by (simp_all add: decoded_def entry_bytes_def)
    have wf2: "decoder_wf hist decode hashed content ?d2" using h(1,4) w0 D2 D1 by (auto simp: decoder_wf_def)
    have "offset - dec_pos ?d2 < fuel" using \<open>n \<noteq> 0\<close> h(2,3) w0 True Suc.prems(4) by simp
    with Suc.IH [OF wf2, of g1] rd Suc.prems(3,5) D2(1) obtain g' d'
      where "skip_loop L (quiet_env opened content) fuel offset (g1, ?d2) = ((g', d'), Ok ())" "ready accepts opened content g' d'" by auto
    then show ?thesis using True ps us \<open>n \<noteq> 0\<close> by (simp add: Let_def flip: want_def)
  qed (use Suc.prems(2) in simp)
qed simp

lemma deliver_loop_live:
  assumes sound: "sound_libs L hist decode hashed crc" and live: "live_libs L hist decode accepts"
    and "decoder_wf hist decode hashed content d" and "ready accepts opened content g d" and "declared \<le> u64_max"
    and "written \<le> length out" and "length out - written < fuel"
  shows "\<exists>g' d' n bs. deliver_loop L (quiet_env opened content) fuel declared written out (g, d) = ((g', d'), Ok (n, bs))
    \<and> ready accepts opened content g' d'"
  using assms(3-)
proof (induction fuel arbitrary: g d out written)
  case (Suc fuel)
  show ?case
  proof (cases "written < length out \<and> dec_pos d < declared")
    case True
    define room where "room = min (declared - dec_pos d) (length out - written)"
    have us: "usize_or_max (declared - dec_pos d) = declared - dec_pos d" using Suc.prems(3) by simp
    have rl: "length (take room (drop written out)) = room" "room \<noteq> 0" "room \<le> length out - written" "room \<le> declared - dec_pos d"
      using True by (simp_all add: room_def)
    have "dec_pos d + length (take room (drop written out)) \<le> u64_max" using True Suc.prems(3) rl by linarith
    from pump_step_live [OF sound live Suc.prems(1,2) this] obtain g1 d1 n bs
      where ps: "pump_step L (quiet_env opened content) (take room (drop written out)) (g, d) = ((g1, d1), Ok (n, bs))"
        and rd: "ready accepts opened content g1 d1"
        and post: "pump_post hist decode hashed content d (take room (drop written out)) d1 (Ok (n, bs))" by blast
    define out2 where "out2 = take written out @ bs @ drop (written + room) out"
    have h: "length bs = room" "n \<le> room" "decoder_wf hist decode hashed content d1" using post rl by (auto simp: pump_post_def)
    have lo: "length out2 = length out" using True h(1) rl by (auto simp: out2_def)
    show ?thesis
    proof (cases "n = 0")
      case nz: True
      then show ?thesis using True ps us rd by (simp add: Let_def flip: room_def out2_def)
    next
      case False
      have "written + n \<le> length out2" "length out2 - (written + n) < fuel" unfolding lo using h(2) rl True Suc.prems(5) False by linarith+
      from Suc.IH [OF h(3) rd Suc.prems(3) this] show ?thesis
        using True ps us False by (simp add: Let_def flip: room_def out2_def)
    qed
  qed (use Suc.prems(2) in auto)
qed simp

lemma verify_decoder_live:
  assumes sound: "sound_libs L hist decode hashed crc" and live: "live_libs L hist decode accepts"
    and wf: "decoder_wf hist decode hashed content d" and rd: "ready accepts opened content g d"
    and small: "uncompressed_size meta < u64_max" and pos: "uncompressed_size meta \<le> dec_pos d"
    and match: "entry_matches crc meta (decoded decode content d)"
  shows "\<exists>g' d'. verify_decoder L (quiet_env opened content) (g, d, meta)
      = ((g', d', if dec_verified d \<or> dec_crc d = None then meta else meta\<lparr>verify_state := VERIFY_OK\<rparr>), Ok ())"
proof (cases "dec_verified d \<or> dec_crc d = None")
  case True
  have "dec_pos d = uncompressed_size meta" using wf pos match by (simp add: decoder_wf_def entry_matches_def)
  then show ?thesis using True by (auto simp: verify_decoder_def Let_def)
next
  case False
  then obtain h where h: "dec_crc d = Some h" "\<not> dec_verified d" by auto
  let ?D = "decoded decode content d" and ?d1 = "d\<lparr>dec_verified := True\<rparr>"
  have D1: "decoded decode content ?d1 = ?D" "entry_bytes content ?d1 = entry_bytes content d" by (simp_all add: decoded_def entry_bytes_def)
  have p: "dec_pos d = uncompressed_size meta" "dec_pos d = length ?D" using wf pos match by (simp_all add: decoder_wf_def entry_matches_def)
  have wf1: "decoder_wf hist decode hashed content ?d1" using wf D1 by (simp add: decoder_wf_def)
  have fits: "dec_pos ?d1 + length [0 :: byte] \<le> u64_max" using p small by simp
  have rd1: "ready accepts opened content g ?d1" using rd by simp
  obtain g1 d2 n x
    where ps: "pump_step L (quiet_env opened content) [0] (g, ?d1) = ((g1, d2), Ok (n, x))"
      and post: "pump_post hist decode hashed content ?d1 [0] d2 (Ok (n, x))"
    by (rule pump_step_live [OF sound live wf1 rd1 fits])
  have "decoded decode content d2 = ?D" using post same_entry_decoded D1(1) unfolding pump_post_def by metis
  then have "n = 0" using post p(2) by (simp add: pump_post_def decoder_wf_def)
  have "crc_finalize L h = crc (take (dec_pos d) ?D)"
    using sound wf h(1) by (simp add: sound_libs_def crc_laws_def decoder_wf_def)
  then have "crc_finalize L h = crc32 meta" using p(2) match by (simp add: entry_matches_def)
  then show ?thesis using ps h p(1) \<open>n = 0\<close> by (simp add: verify_decoder_def Let_def)
qed

lemma decoder_read_at_live:
  assumes sound: "sound_libs L hist decode hashed crc" and live: "live_libs L hist decode accepts"
    and wf: "decoder_wf hist decode hashed content d" and rd: "ready accepts opened content g d"
    and small: "uncompressed_size meta < u64_max" and match: "entry_matches crc meta (decoded decode content d)"
    and off: "dec_pos d \<le> offset" "offset \<le> uncompressed_size meta"
  obtains g' d' meta' buf where
      "decoder_read_at L (quiet_env opened content) offset out (g, d, meta)
         = ((g', d', meta'), Ok (min (length out) (uncompressed_size meta - offset), buf))"
    and "take (min (length out) (uncompressed_size meta - offset)) buf = take (length out) (drop offset (decoded decode content d))"
    and "uncompressed_size meta \<le> offset + length out \<Longrightarrow> \<not> dec_verified d \<Longrightarrow> dec_crc d \<noteq> None \<Longrightarrow>
           verify_state meta' = VERIFY_OK"
proof -
  let ?env = "quiet_env opened content" and ?D = "decoded decode content d" and ?total = "uncompressed_size meta"
  have hon: "honest ?env (gf_opened g) content" using rd by (simp add: ready_def calm_def)
  have lD: "length ?D = ?total" using match by (simp add: entry_matches_def)
  have u: "offset \<le> u64_max" "?total \<le> u64_max" "offset \<le> length ?D" using small off lD by simp_all
  obtain g1 d1 where sk: "skip_loop L ?env (Suc (offset - dec_pos d)) offset (g, d) = ((g1, d1), Ok ())"
    and rd1: "ready accepts opened content g1 d1"
    using skip_loop_live [OF sound live wf rd u(1) _ u(3)] by blast
  from skip_loop_ok [OF sound wf hon u(1) _ sk]
  have s1: "decoder_wf hist decode hashed content d1" "same_entry decode content d d1" "guard_le g g1" "dec_pos d1 = offset"
    using off(1) by simp_all
  obtain g2 d2 n buf where dl: "deliver_loop L ?env (Suc (length out)) ?total 0 out (g1, d1) = ((g2, d2), Ok (n, buf))"
    and rd2: "ready accepts opened content g2 d2"
    using deliver_loop_live [OF sound live s1(1) rd1 u(2), of 0 out "Suc (length out)"] by auto
  from deliver_loop_ok [OF sound s1(1) honest_le [OF hon s1(3)] u(2) _ _ _ _ dl, of offset]
  have s2: "decoder_wf hist decode hashed content d2" "same_entry decode content d1 d2" "n \<le> length out" "dec_pos d2 = offset + n"
    "take n buf = take n (drop offset ?D)" "n < length out \<longrightarrow> dec_pos d2 < ?total \<longrightarrow> dec_finished d2" "dec_pos d2 \<le> ?total"
    using s1(4) off(2) same_entry_decoded [OF s1(2)] by auto
  have D2: "decoded decode content d2 = ?D" using same_entry_decoded [OF s2(2)] same_entry_decoded [OF s1(2)] by simp
  have n: "n = min (length out) (?total - offset)"
    using s2(1,3,4,6,7) D2 lD by (auto simp: decoder_wf_def min_def)
  have same: "dec_verified d2 = dec_verified d" "dec_crc d2 = None \<longleftrightarrow> dec_crc d = None"
    using s1(2) s2(2) by (auto simp: same_entry_def)
  have bytes: "take n buf = take (length out) (drop offset ?D)"
    unfolding s2(5) using n lD by (simp add: min_def)
  show thesis
  proof (cases "?total \<le> dec_pos d2")
    case False
    have "decoder_read_at L ?env offset out (g, d, meta) = ((g2, d2, meta), Ok (n, buf))"
      using off(1) sk dl False by (simp add: decoder_read_at_def)
    then show ?thesis using that [of g2 d2 meta buf] bytes False s2(4) unfolding n by (auto simp: min_def split: if_splits)
  next
    case True
    from verify_decoder_live [OF sound live s2(1) rd2 small True] match D2
    obtain g3 d3 where "verify_decoder L ?env (g2, d2, meta)
        = ((g3, d3, if dec_verified d2 \<or> dec_crc d2 = None then meta else meta\<lparr>verify_state := VERIFY_OK\<rparr>), Ok ())" by auto
    then have "decoder_read_at L ?env offset out (g, d, meta)
        = ((g3, d3, if dec_verified d2 \<or> dec_crc d2 = None then meta else meta\<lparr>verify_state := VERIFY_OK\<rparr>), Ok (n, buf))"
      using off(1) sk dl True by (simp add: decoder_read_at_def)
    then show ?thesis using that [OF _ bytes [unfolded n]] same unfolding n by auto
  qed
qed

section \<open>Crates that accept valid streams\<close>

text \<open>
  What a valid stream adds to the laws: the crates report no error on it, and a call with input and
  room for output takes input, delivers output or reports the end.
\<close>

definition flate2_live :: "('d, 'z, 'h) libs \<Rightarrow> ('d \<Rightarrow> bytes \<Rightarrow> bytes \<Rightarrow> bool) \<Rightarrow> (bytes \<Rightarrow> bool) \<Rightarrow> bool" where
  "flate2_live L hist deflated \<longleftrightarrow>
     (\<forall>d x y input out full. hist d x y \<longrightarrow> deflated full \<longrightarrow> prefix (x @ input) full \<longrightarrow>
        (\<exists>d' out' stream_end. flate_decompress L d input out = (d', out', Inr stream_end)))
     \<and> (\<forall>d x y input out d' out' stream_end. hist d x y \<longrightarrow>
        flate_decompress L d input out = (d', out', Inr stream_end) \<longrightarrow> input \<noteq> [] \<longrightarrow> out \<noteq> [] \<longrightarrow>
        flate_total_in L d < flate_total_in L d' \<or> flate_total_out L d < flate_total_out L d' \<or> stream_end)"

definition zstd_live :: "('d, 'z, 'h) libs \<Rightarrow> ('z \<Rightarrow> bytes \<Rightarrow> bytes \<Rightarrow> bool) \<Rightarrow> (bytes \<Rightarrow> bool) \<Rightarrow> bool" where
  "zstd_live L hist zstded \<longleftrightarrow>
     (\<forall>z x y input out full. hist z x y \<longrightarrow> zstded full \<longrightarrow> prefix (x @ input) full \<longrightarrow>
        (\<exists>z' out' s. zstd_run L z input out = (z', out', Inr s)))
     \<and> (\<forall>z x y input out z' out' c p left. hist z x y \<longrightarrow>
        zstd_run L z input out = (z', out', Inr (c, p, left)) \<longrightarrow> input \<noteq> [] \<longrightarrow> out \<noteq> [] \<longrightarrow> 0 < c \<or> 0 < p \<or> left = 0)"

definition codec_accepts :: "(bytes \<Rightarrow> bool) \<Rightarrow> (bytes \<Rightarrow> bool) \<Rightarrow> ('d, 'z) codec \<Rightarrow> bytes \<Rightarrow> bool" where
  "codec_accepts deflated zstded c x = (case codec_method c of Store \<Rightarrow> True | Deflate \<Rightarrow> deflated x | Zstd \<Rightarrow> zstded x)"

lemma deflate_step_live:
  assumes laws: "flate2_laws L hist inflate" and live: "flate2_live L hist deflated" and h: "hist d x y"
  shows "deflated full \<Longrightarrow> prefix (x @ input) full \<Longrightarrow> \<exists>d' out' s. deflate_step L d input out = (d', out', Inr s)"
    and "deflate_step L d input out = (d', out', Inr s) \<Longrightarrow> input \<noteq> [] \<Longrightarrow> out \<noteq> [] \<Longrightarrow>
      0 < step_consumed s \<or> 0 < step_produced s \<or> step_done s"
proof -
  assume "deflated full" "prefix (x @ input) full"
  then obtain d1 out1 se where fd: "flate_decompress L d input out = (d1, out1, Inr se)" using live h unfolding flate2_live_def by blast
  obtain c p where "flate_total_in L d1 = flate_total_in L d + c" "flate_total_in L d1 \<le> u64_max"
      "flate_total_out L d1 = flate_total_out L d + p" "flate_total_out L d1 \<le> u64_max"
    using flate2_call(3) [OF laws h fd refl] by blast
  then have "try_usize (wrapping_sub_u64 (flate_total_in L d1) (flate_total_in L d)) = Some c"
      "try_usize (wrapping_sub_u64 (flate_total_out L d1) (flate_total_out L d)) = Some p"
    by (simp_all add: wrapping_sub_u64_def)
  then show "\<exists>d' out' s. deflate_step L d input out = (d', out', Inr s)"
    unfolding deflate_step_def Let_def fd prod.case sum.case by (simp only: option.case prod.inject sum.inject) blast
next
  assume st: "deflate_step L d input out = (d', out', Inr s)" and ne: "input \<noteq> []" "out \<noteq> []"
  obtain se where fd: "flate_decompress L d input out = (d', out', Inr se)" and se: "step_done s = se"
    and cp: "try_usize (wrapping_sub_u64 (flate_total_in L d') (flate_total_in L d)) = Some (step_consumed s)"
      "try_usize (wrapping_sub_u64 (flate_total_out L d') (flate_total_out L d)) = Some (step_produced s)"
    using st unfolding deflate_step_def Let_def by (auto split: prod.splits sum.splits option.splits simp del: try_usize_eq_Some)
  have "flate_total_in L d < flate_total_in L d' \<or> flate_total_out L d < flate_total_out L d' \<or> se"
    using live h fd ne unfolding flate2_live_def by blast
  then show "0 < step_consumed s \<or> 0 < step_produced s \<or> step_done s"
    using cp se by (auto simp: wrapping_sub_u64_def)
qed

lemma codec_step_accepts:
  assumes laws: "flate2_laws L hist_d inflate" and live: "flate2_live L hist_d deflated" "zstd_live L hist_z zstded"
    and h: "codec_hist hist_d hist_z c x y" and acc: "codec_accepts deflated zstded c full" "prefix (x @ input) full"
  shows "\<exists>c' out' s. codec_step L c input out = (c', out', Inr s)"
proof (cases c)
  case (StoreCodec u)
  then show ?thesis by (simp add: codec_step_def store_step_def Let_def)
next
  case (DeflateCodec d)
  then show ?thesis using deflate_step_live(1) [OF laws live(1), of d x y full input out] h acc
    by (auto simp: codec_step_def codec_hist_def codec_accepts_def codec_method_def)
next
  case (ZstdCodec z)
  then have "hist_z z x y" "zstded full" using h acc by (simp_all add: codec_hist_def codec_accepts_def codec_method_def)
  then obtain z' out' t where "zstd_run L z input out = (z', out', Inr t)" using live(2) acc(2) unfolding zstd_live_def by blast
  then show ?thesis using ZstdCodec by (cases t) (simp add: codec_step_def zstd_step_def)
qed

lemma codec_step_progress:
  assumes laws: "flate2_laws L hist_d inflate" and live: "flate2_live L hist_d deflated" "zstd_live L hist_z zstded"
    and h: "codec_hist hist_d hist_z c x y" and st: "codec_step L c input out = (c', out', Inr s)" and ne: "input \<noteq> []" "out \<noteq> []"
  shows "0 < step_consumed s \<or> 0 < step_produced s \<or> step_done s"
proof (cases c)
  case (StoreCodec u)
  have "step_consumed s = min (length input) (length out)" using StoreCodec st by (auto simp: codec_step_def store_step_def Let_def)
  then show ?thesis using ne by simp
next
  case (DeflateCodec d)
  then show ?thesis using deflate_step_live(2) [OF laws live(1), of d x y input out] h st ne
    by (auto simp: codec_step_def codec_hist_def split: prod.splits)
next
  case (ZstdCodec z)
  then show ?thesis using live(2) h st ne unfolding zstd_live_def
    by (fastforce simp: codec_step_def codec_hist_def zstd_step_def split: prod.splits sum.splits)
qed

lemma live_crates:
  assumes "flate2_laws L hist_d inflate" and "zstd_laws L hist_z unzstd"
    and "flate2_live L hist_d deflated" and "zstd_live L hist_z zstded"
  shows "live_libs L (codec_hist hist_d hist_z) (codec_decode inflate unzstd) (codec_accepts deflated zstded)"
  unfolding live_libs_def
proof (intro live_decompressor.intro live_decompressor_axioms.intro codec_decompressor [OF assms(1,2)])
  fix c :: "('a, 'b) codec" and x y input out c' out' r
  show "codec_accepts deflated zstded (codec_reinit L c) = codec_accepts deflated zstded c"
    by (rule ext) (simp add: codec_accepts_def)
  show "codec_accepts deflated zstded c' = codec_accepts deflated zstded c" if "codec_step L c input out = (c', out', r)"
    by (rule ext) (simp add: codec_accepts_def codec_step_method [OF that])
qed (use codec_step_accepts [OF assms(1,3,4)] codec_step_progress [OF assms(1,3,4)] in blast)+

section \<open>Theorems\<close>

lemma fresh_read_whole:
  assumes "flate2_laws L hist_d inflate" and "zstd_laws L hist_z unzstd" and "crc_laws L hashed crc"
    and "flate2_live L hist_d deflated" and "zstd_live L hist_z zstded"
    and "parts_for loc parts" and "codec_accepts deflated zstded (cp_codec parts) (entry_raw content loc)"
    and "loc_data_start loc + loc_compressed_size loc \<le> length content"
    and "entry_matches crc meta (entry_content inflate unzstd content loc)" and "uncompressed_size meta < u64_max"
    and "\<not> is_stale g" and "offset \<le> uncompressed_size meta"
  shows "\<exists>g' d' meta' n buf.
      decoder_read_at L (quiet_env (gf_opened g) content) offset (replicate len 0) (g, decoder_new L loc parts True, meta)
        = ((g', d', meta'), Ok (n, buf))
      \<and> n = min len (uncompressed_size meta - offset)
      \<and> take n buf = take len (drop offset (entry_content inflate unzstd content loc))
      \<and> (uncompressed_size meta \<le> offset + len \<longrightarrow> verify_state meta' = VERIFY_OK)"
proof -
  let ?d = "decoder_new L loc parts True"
  note sound = sound_crates [OF assms(1-3)] and live = live_crates [OF assms(1,2,4,5)]
  have D: "decoded (codec_decode inflate unzstd) content ?d = entry_content inflate unzstd content loc"
    using assms(6) by (intro decoder_new_content) (simp add: parts_for_def)
  have wf: "decoder_wf (codec_hist hist_d hist_z) (codec_decode inflate unzstd) hashed content ?d"
    using decoder_new_wf [OF sound] assms(6) by (simp add: parts_for_def)
  have rd: "ready (codec_accepts deflated zstded) (gf_opened g) content g ?d"
    using assms(7,8,11)
    by (simp add: ready_def calm_def is_stale_def entry_bytes_def decoder_new_def Let_def range_of_def source_new_def
        entry_raw_def codec_accepts_def)
  have d: "dec_pos ?d \<le> offset" "\<not> dec_verified ?d" "dec_crc ?d \<noteq> None" by (simp_all add: decoder_new_def Let_def)
  have m: "entry_matches crc meta (decoded (codec_decode inflate unzstd) content ?d)" using assms(9) D by simp
  obtain g' d' meta' buf where
      "decoder_read_at L (quiet_env (gf_opened g) content) offset (replicate len 0) (g, ?d, meta)
         = ((g', d', meta'), Ok (min len (uncompressed_size meta - offset), buf))"
      "take (min len (uncompressed_size meta - offset)) buf = take len (drop offset (entry_content inflate unzstd content loc))"
      "uncompressed_size meta \<le> offset + len \<Longrightarrow> verify_state meta' = VERIFY_OK"
    by (rule decoder_read_at_live [OF sound live wf rd assms(10) m d(1) assms(12), of "replicate len 0", unfolded D length_replicate])
      (use d in blast)
  then show ?thesis by blast
qed

text \<open>
  C5. A fresh decoder serves any read of a good entry in full: with the archive left alone, an entry
  inside it that its codec accepts and that has the size and checksum of the central directory, a
  read at \<open>offset\<close> returns as many bytes as fit and exist, namely the content from \<open>offset\<close> on, and a
  read that reaches the end records the entry as verified.
\<close>

theorem decoder_reads_whole:
  assumes "flate2_laws L hist_d inflate" and "zstd_laws L hist_z unzstd" and "crc_laws L hashed crc"
    and "flate2_live L hist_d deflated" and "zstd_live L hist_z zstded"
    and "parts_for loc parts" and "codec_accepts deflated zstded (cp_codec parts) (entry_raw content loc)"
    and "loc_data_start loc + loc_compressed_size loc \<le> length content"
    and "entry_matches crc meta (entry_content inflate unzstd content loc)" and "uncompressed_size meta < u64_max"
    and "\<not> is_stale g" and "offset \<le> uncompressed_size meta"
  shows "\<exists>g' d' meta' n buf.
      decoder_read_at L (quiet_env (gf_opened g) content) offset (replicate len 0) (g, decoder_new L loc parts True, meta)
        = ((g', d', meta'), Ok (n, buf))
      \<and> n = min len (uncompressed_size meta - offset)
      \<and> take n buf = take len (drop offset (entry_content inflate unzstd content loc))
      \<and> (uncompressed_size meta \<le> offset + len \<longrightarrow> verify_state meta' = VERIFY_OK)"
  using fresh_read_whole [OF assms] .

text \<open>C22 on a deflated entry of three bytes, read from its second byte on.\<close>

lemma copy_flate2_live: "flate2_live copy_libs (\<lambda>d x y. x = y \<and> d = length x) (\<lambda>x. length x \<le> u64_max)"
proof -
  have "d + min (length input) (length out) \<le> u64_max" if "d = length x" "length full \<le> u64_max" "prefix (x @ input) full"
    for d and x input out full :: bytes
  proof -
    have "length x + length input \<le> length full" using prefix_length_le [OF that(3)] by simp
    then show ?thesis using that(1,2) by simp
  qed
  then show ?thesis by (auto simp: flate2_live_def copy_libs_def Let_def split: if_splits)
qed

lemma copy_zstd_live: "zstd_live copy_libs (\<lambda>z x y. x = y) (\<lambda>x. True)"
  by (auto simp: zstd_live_def copy_libs_def Let_def)

lemma sample_matches:
  "entry_content (\<lambda>x. x) (\<lambda>x. x) [1, 2, 3, 4, 5] sample_loc = [2, 3, 4]" "entry_matches byte_sum sample_meta [2, 3, 4]"
  by (simp_all add: entry_content_def entry_raw_def sample_loc_def entry_matches_def sample_meta_def)

lemma sample_accepts:
  "codec_accepts (\<lambda>x. length x \<le> u64_max) (\<lambda>x. True) (cp_codec sample_parts) (entry_raw [1, 2, 3, 4, 5] sample_loc)"
  by (simp add: codec_accepts_def codec_method_def sample_parts_def entry_raw_def)

lemma sample_guard_fresh: "\<not> is_stale sample_guard" "gf_opened sample_guard = sample_stamp"
  by (simp_all add: is_stale_def sample_guard_def)

lemma sample_range:
  "loc_data_start sample_loc + loc_compressed_size sample_loc \<le> length [1, 2, 3, 4, 5 :: byte]"
  "uncompressed_size sample_meta = 3"
  by (simp_all add: sample_loc_def sample_meta_def)

lemmas sample_crates = copy_flate2 copy_zstd copy_crc copy_flate2_live copy_zstd_live

theorem decoder_reads_whole_witness:
  "\<exists>g' d' meta' buf.
      decoder_read_at copy_libs (quiet_env sample_stamp [1, 2, 3, 4, 5]) 1 (replicate 7 0)
        (sample_guard, decoder_new copy_libs sample_loc sample_parts True, sample_meta) = ((g', d', meta'), Ok (2, buf))
      \<and> take 2 buf = [3, 4] \<and> verify_state meta' = VERIFY_OK"
  using decoder_reads_whole [OF sample_crates sample_parts_for sample_accepts sample_range(1),
      unfolded sample_matches(1), OF sample_matches(2) _ sample_guard_fresh(1), of 1 7]
  unfolding sample_guard_fresh(2) sample_range(2) by simp



end
