(* ===== verification/Pool.thy ===== *)
theory Pool
  imports Config Decode_Live
begin

text \<open>
  \<^verbatim>\<open>src/pool.rs\<close>: the idle decoders of an open file, and the mount-wide budget that bounds them.

  The budget is shared (\<open>Arc\<close>), so the operations of a pool thread it beside the pool. The codecs
  kept for recycling are an array indexed by the method. \<open>fetch_sub\<close> wraps around.
\<close>

record ('d, 'z) core_store =
  cs_codecs :: "cmethod \<Rightarrow> ('d, 'z) codec list"
  cs_buffers :: "bytes list"
  cs_skips :: "bytes list"

record ('d, 'z) budget =
  bg_retained :: nat
  bg_max_retained :: nat
  bg_cores :: "('d, 'z) core_store"
  bg_max_cores :: nat
  bg_source_buffer :: nat
  bg_skip_buffer :: nat
  bg_verify :: bool

definition budget_new :: "config \<Rightarrow> ('d, 'z) budget" where
  "budget_new c = \<lparr> bg_retained = 0, bg_max_retained = max_retained_decoders c,
     bg_cores = \<lparr> cs_codecs = (\<lambda>m. []), cs_buffers = [], cs_skips = [] \<rparr>, bg_max_cores = max_cores c,
     bg_source_buffer = source_buffer c, bg_skip_buffer = SKIP_BUFFER, bg_verify = verify c \<rparr>"

definition try_retain :: "('d, 'z) budget \<Rightarrow> ('d, 'z) budget \<times> bool" where
  "try_retain b = (if bg_retained b < bg_max_retained b then (b\<lparr>bg_retained := bg_retained b + 1\<rparr>, True) else (b, False))"

definition release_retain :: "('d, 'z) budget \<Rightarrow> ('d, 'z) budget" where
  "release_retain b = b\<lparr>bg_retained := wrapping_sub_u64 (bg_retained b) 1\<rparr>"

text \<open>\<open>Vec::pop\<close>\<close>

definition pop :: "'a list \<Rightarrow> ('a \<times> 'a list) option" where
  "pop xs = (if xs = [] then None else Some (last xs, butlast xs))"

definition take_core ::
  "('d, 'z, 'h) libs \<Rightarrow> cmethod \<Rightarrow> (('d, 'z) budget, io_error, ('d, 'z) core_parts) act" where
  "take_core L m b =
     (let st = bg_cores b;
          (codec, st) = (case pop (cs_codecs st m) of
             Some (c, rest) \<Rightarrow> (Ok c, st\<lparr>cs_codecs := (cs_codecs st)(m := rest)\<rparr>)
           | None \<Rightarrow> (codec_new L m, st))
      in case codec of
           Ok codec \<Rightarrow>
             (let (buf, st) = (case pop (cs_buffers st) of
                     Some (x, rest) \<Rightarrow> (x, st\<lparr>cs_buffers := rest\<rparr>)
                   | None \<Rightarrow> (replicate (bg_source_buffer b) 0, st));
                  (skip, st) = (case pop (cs_skips st) of
                     Some (x, rest) \<Rightarrow> (x, st\<lparr>cs_skips := rest\<rparr>)
                   | None \<Rightarrow> (replicate (bg_skip_buffer b) 0, st))
              in (b\<lparr>bg_cores := st\<rparr>, Ok \<lparr> cp_codec = codec, cp_buf = buf, cp_skip = skip \<rparr>))
         | Err e \<Rightarrow> (b, Err e) | Panic \<Rightarrow> (b, Panic) | Hang \<Rightarrow> (b, Hang))"

definition recycle_core :: "('d, 'z) core_parts \<Rightarrow> ('d, 'z) budget \<Rightarrow> ('d, 'z) budget" where
  "recycle_core parts b =
     (let st = bg_cores b; slot = codec_method (cp_codec parts);
          st = (if length (cs_codecs st slot) < bg_max_cores b
                then st\<lparr>cs_codecs := (cs_codecs st)(slot := cs_codecs st slot @ [cp_codec parts])\<rparr> else st);
          st = (if length (cs_buffers st) < bg_max_cores b then st\<lparr>cs_buffers := cs_buffers st @ [cp_buf parts]\<rparr> else st);
          st = (if length (cs_skips st) < bg_max_cores b then st\<lparr>cs_skips := cs_skips st @ [cp_skip parts]\<rparr> else st)
      in b\<lparr>bg_cores := st\<rparr>)"

section \<open>Pools\<close>

record ('d, 'z, 'h) entry_pool =
  pl_idle :: "('d, 'z, 'h) decoder list"
  pl_cap :: nat
  pl_loc :: entry_location

definition pool_new :: "entry_location \<Rightarrow> nat \<Rightarrow> ('d, 'z, 'h) entry_pool" where
  "pool_new loc cap = \<lparr> pl_idle = [], pl_cap = cap, pl_loc = loc \<rparr>"

text \<open>\<open>iter().position\<close>, \<open>enumerate().filter(..).max_by_key(..)\<close> (the last of the largest) and \<open>swap_remove\<close>.\<close>

fun position_from :: "nat \<Rightarrow> ('a \<Rightarrow> bool) \<Rightarrow> 'a list \<Rightarrow> nat option" where
  "position_from i p [] = None"
| "position_from i p (x # xs) = (if p x then Some i else position_from (i + 1) p xs)"

fun furthest :: "nat \<Rightarrow> (('d, 'z, 'h) decoder \<Rightarrow> bool) \<Rightarrow> (nat \<times> nat) option \<Rightarrow> ('d, 'z, 'h) decoder list \<Rightarrow> nat option" where
  "furthest i p best [] = map_option fst best"
| "furthest i p best (d # ds) =
     furthest (i + 1) p
       (if p d \<and> (case best of None \<Rightarrow> True | Some (j, k) \<Rightarrow> k \<le> dec_pos d) then Some (i, dec_pos d) else best) ds"

definition swap_remove :: "'a list \<Rightarrow> nat \<Rightarrow> 'a \<times> 'a list" where
  "swap_remove xs i = (xs ! i, butlast (xs[i := last xs]))"

text \<open>The part of \<open>checkout\<close> under the lock: the decoder, whether to rewind it, and what stays idle.\<close>

definition pick ::
  "nat \<Rightarrow> ('d, 'z, 'h) decoder list \<Rightarrow> (('d, 'z, 'h) decoder \<times> bool \<times> ('d, 'z, 'h) decoder list) option" where
  "pick offset idle =
     (let exact = position_from 0 (\<lambda>d. dec_pos d = offset \<and> \<not> dec_finished d) idle;
          usable = (case exact of Some i \<Rightarrow> Some i
                    | None \<Rightarrow> furthest 0 (\<lambda>d. dec_pos d \<le> offset \<and> \<not> dec_finished d) None idle)
      in case usable of
           Some i \<Rightarrow> (case swap_remove idle i of (d, rest) \<Rightarrow> Some (d, False, rest))
         | None \<Rightarrow> map_option (\<lambda>i. case swap_remove idle i of (d, rest) \<Rightarrow> (d, True, rest))
                     (furthest 0 (\<lambda>d. True) None idle))"

definition checkout ::
  "('d, 'z, 'h) libs \<Rightarrow> nat \<Rightarrow> (('d, 'z) budget \<times> ('d, 'z, 'h) entry_pool, io_error, ('d, 'z, 'h) decoder) act" where
  "checkout L offset = (\<lambda>(b, p).
     case pick offset (pl_idle p) of
       Some (d, again, rest) \<Rightarrow>
         let p = p\<lparr>pl_idle := rest\<rparr>; b = release_retain b
         in ((b, p), Ok (if again then decoder_reinit L (pl_loc p) d else d))
     | None \<Rightarrow>
         (case take_core L (loc_method (pl_loc p)) b of
            (b, Ok parts) \<Rightarrow> ((b, p), Ok (decoder_new L (pl_loc p) parts (bg_verify b)))
          | (b, Err e) \<Rightarrow> ((b, p), Err e) | (b, Panic) \<Rightarrow> ((b, p), Panic) | (b, Hang) \<Rightarrow> ((b, p), Hang)))"

definition give_back ::
  "('d, 'z, 'h) decoder \<Rightarrow> ('d, 'z) budget \<times> ('d, 'z, 'h) entry_pool \<Rightarrow> ('d, 'z) budget \<times> ('d, 'z, 'h) entry_pool" where
  "give_back d = (\<lambda>(b, p).
     if length (pl_idle p) < pl_cap p then
       (case try_retain b of
          (b, True) \<Rightarrow> (b, p\<lparr>pl_idle := pl_idle p @ [d]\<rparr>)
        | (b, False) \<Rightarrow> (recycle_core (into_parts d) b, p))
     else (recycle_core (into_parts d) b, p))"

text \<open>\<open>Drop\<close> of a pool: every idle decoder is released and recycled.\<close>

definition pool_drop :: "('d, 'z, 'h) entry_pool \<Rightarrow> ('d, 'z) budget \<Rightarrow> ('d, 'z) budget" where
  "pool_drop p b = fold (\<lambda>d b. recycle_core (into_parts d) (release_retain b)) (pl_idle p) b"

end
