(* ===== verification/Pool_Correct.thy ===== *)
theory Pool_Correct
  imports Pool "HOL-Library.Multiset"
begin

text \<open>
  Pools hand out decoders that can serve the offset, on the right entry, and the budget counts the
  idle decoders of the mount exactly.
\<close>

section \<open>Picking a decoder\<close>

lemma position_from_Some: "position_from k p xs = Some i \<Longrightarrow> k \<le> i \<and> i < k + length xs \<and> p (xs ! (i - k))"
proof (induction xs arbitrary: k)
  case (Cons x xs)
  then show ?case by (fastforce simp: nth_Cons' split: if_splits)
qed simp

lemma position_from_None: "position_from k p xs = None \<Longrightarrow> x \<in> set xs \<Longrightarrow> \<not> p x"
  by (induction xs arbitrary: k) (auto split: if_splits)

text \<open>The best so far is the furthest decoder of the prefix that was looked at.\<close>

definition best_of :: "(('d, 'z, 'h) decoder \<Rightarrow> bool) \<Rightarrow> ('d, 'z, 'h) decoder list \<Rightarrow> nat option \<Rightarrow> bool" where
  "best_of p xs r \<longleftrightarrow>
     (case r of None \<Rightarrow> \<forall>x \<in> set xs. \<not> p x
      | Some i \<Rightarrow> i < length xs \<and> p (xs ! i) \<and> (\<forall>x \<in> set xs. p x \<longrightarrow> dec_pos x \<le> dec_pos (xs ! i)))"

lemma furthest_best:
  assumes "best_of p xs (map_option fst best)" and "\<And>j k. best = Some (j, k) \<Longrightarrow> k = dec_pos (xs ! j)"
  shows "best_of p (xs @ ds) (furthest (length xs) p best ds)"
  using assms
proof (induction ds arbitrary: xs best)
  case (Cons d ds)
  let ?best = "if p d \<and> (case best of None \<Rightarrow> True | Some (j, k) \<Rightarrow> k \<le> dec_pos d) then Some (length xs, dec_pos d) else best"
  have "best_of p (xs @ [d]) (map_option fst ?best)"
    using Cons.prems by (cases best) (fastforce simp: best_of_def nth_append split: prod.splits)+
  moreover have "k = dec_pos ((xs @ [d]) ! j)" if "?best = Some (j, k)" for j k
    using that Cons.prems by (auto simp: nth_append best_of_def split: if_splits option.splits)
  ultimately have "best_of p ((xs @ [d]) @ ds) (furthest (length (xs @ [d])) p ?best ds)" by (rule Cons.IH)
  then show ?case by simp
qed simp

lemma furthest_ok: "best_of p ds (furthest 0 p None ds)"
  using furthest_best [of p "[]" None ds] by (simp add: best_of_def)

lemma swap_remove_mset:
  assumes "i < length xs" and "swap_remove xs i = (x, ys)"
  shows "x = xs ! i" and "mset xs = add_mset x (mset ys)" and "length xs = Suc (length ys)"
proof -
  have x: "x = xs ! i" and ys: "ys = butlast (xs[i := last xs])" using assms(2) by (simp_all add: swap_remove_def)
  show "x = xs ! i" by (rule x)
  have ne: "xs[i := last xs] \<noteq> []" using assms(1) by auto
  have "xs \<noteq> []" using assms(1) by auto
  then have "last (xs[i := last xs]) = last xs" by (simp add: last_list_update)
  then have "mset (xs[i := last xs]) = add_mset (last xs) (mset ys)"
    using ne by (metis append_butlast_last_id mset_append union_mset_add_mset_right mset.simps add.right_neutral ys)
  moreover have "mset (xs[i := last xs]) = add_mset (last xs) (mset xs - {#xs ! i#})" using assms(1) by (simp add: mset_update)
  ultimately have "mset xs - {#xs ! i#} = mset ys" by simp
  then show "mset xs = add_mset x (mset ys)" using assms(1) x by (metis insert_DiffM nth_mem_mset)
  show "length xs = Suc (length ys)" using ys assms(1) by simp
qed

text \<open>What \<open>pick\<close> promises.\<close>

lemma pick_None: "pick offset idle = None \<longleftrightarrow> idle = []"
proof
  assume none: "pick offset idle = None"
  then have "furthest 0 (\<lambda>d. True) None idle = None"
    by (auto simp: pick_def Let_def split: option.splits prod.splits)
  with furthest_ok [of "\<lambda>d. True" idle] show "idle = []" by (simp add: best_of_def)
qed (simp add: pick_def)

lemma pick_Some:
  assumes "pick offset idle = Some (d, again, rest)"
  shows "mset idle = add_mset d (mset rest)" and "length idle = Suc (length rest)"
    and "\<not> again \<Longrightarrow> dec_pos d \<le> offset \<and> \<not> dec_finished d
      \<and> (\<forall>x \<in> set idle. dec_pos x \<le> offset \<and> \<not> dec_finished x \<longrightarrow> dec_pos x \<le> dec_pos d)"
    and "again \<Longrightarrow> (\<forall>x \<in> set idle. dec_finished x \<or> offset < dec_pos x) \<and> (\<forall>x \<in> set idle. dec_pos x \<le> dec_pos d)"
proof -
  let ?exact = "position_from 0 (\<lambda>d. dec_pos d = offset \<and> \<not> dec_finished d) idle"
  let ?fit = "\<lambda>d :: ('a, 'b, 'c) decoder. dec_pos d \<le> offset \<and> \<not> dec_finished d"
  let ?usable = "furthest 0 ?fit None idle" and ?far = "furthest 0 (\<lambda>d. True) None idle"
  consider (exact) i where "?exact = Some i" "swap_remove idle i = (d, rest)" "\<not> again"
    | (usable) i where "?exact = None" "?usable = Some i" "swap_remove idle i = (d, rest)" "\<not> again"
    | (far) i where "?exact = None" "?usable = None" "?far = Some i" "swap_remove idle i = (d, rest)" "again"
    using assms by (auto simp: pick_def split: option.splits prod.splits)
  then have "\<exists>i < length idle. swap_remove idle i = (d, rest) \<and>
     (\<not> again \<longrightarrow> ?fit (idle ! i) \<and> (\<forall>x \<in> set idle. ?fit x \<longrightarrow> dec_pos x \<le> dec_pos (idle ! i)))
     \<and> (again \<longrightarrow> (\<forall>x \<in> set idle. \<not> ?fit x) \<and> (\<forall>x \<in> set idle. dec_pos x \<le> dec_pos (idle ! i)))"
  proof cases
    case exact
    then show ?thesis using position_from_Some [OF exact(1)] by auto
  next
    case usable
    then show ?thesis using furthest_ok [of ?fit idle] by (auto simp: best_of_def)
  next
    case far
    then show ?thesis using furthest_ok [of ?fit idle] furthest_ok [of "\<lambda>d. True" idle] by (auto simp: best_of_def)
  qed
  then obtain i where i: "i < length idle" "swap_remove idle i = (d, rest)"
    "\<not> again \<longrightarrow> ?fit (idle ! i) \<and> (\<forall>x \<in> set idle. ?fit x \<longrightarrow> dec_pos x \<le> dec_pos (idle ! i))"
    "again \<longrightarrow> (\<forall>x \<in> set idle. \<not> ?fit x) \<and> (\<forall>x \<in> set idle. dec_pos x \<le> dec_pos (idle ! i))" by blast
  note sr = swap_remove_mset [OF i(1,2)]
  show "mset idle = add_mset d (mset rest)" "length idle = Suc (length rest)" by (rule sr(2,3))+
  show "\<not> again \<Longrightarrow> dec_pos d \<le> offset \<and> \<not> dec_finished d
      \<and> (\<forall>x \<in> set idle. dec_pos x \<le> offset \<and> \<not> dec_finished x \<longrightarrow> dec_pos x \<le> dec_pos d)" using i(3) sr(1) by blast
  show "again \<Longrightarrow> (\<forall>x \<in> set idle. dec_finished x \<or> offset < dec_pos x) \<and> (\<forall>x \<in> set idle. dec_pos x \<le> dec_pos d)"
    using i(4) sr(1) by (metis not_le)
qed

section \<open>A decoder stays on its entry\<close>

definition same_place :: "('d, 'z, 'h) decoder \<Rightarrow> ('d, 'z, 'h) decoder \<Rightarrow> bool" where
  "same_place d d' \<longleftrightarrow> src_start (dec_src d') = src_start (dec_src d) \<and> src_len (dec_src d') = src_len (dec_src d)
     \<and> codec_method (dec_codec d') = codec_method (dec_codec d)"

lemma same_place_refl [simp]: "same_place d d"
  by (simp add: same_place_def)

lemma same_place_trans: "same_place a b \<Longrightarrow> same_place b c \<Longrightarrow> same_place a c"
  by (simp add: same_place_def)

lemma produced_step_place:
  "produced_step L st out d = Ok d' \<Longrightarrow> same_place d d'"
  by (auto simp: produced_step_def same_place_def Let_def split: option.splits if_splits)

lemma round_place:
  assumes "fill_buf env (g, dec_src d) = ((g1, src), q)" and "codec_step L (dec_codec d) input out = (c, out', r)"
  shows "same_place d (d\<lparr>dec_src := consume n src, dec_codec := c\<rparr>)" and "same_place d (d\<lparr>dec_src := src, dec_codec := c\<rparr>)"
  using fill_buf_len [OF assms(1)] codec_step_method [OF assms(2)] by (simp_all add: same_place_def consume_def)

lemma pump_loop_place: "pump_loop L env fuel out (g, d) = ((g', d'), r) \<Longrightarrow> same_place d d'"
proof (induction fuel arbitrary: g d out)
  case (Suc fuel)
  obtain g1 src q where fb: "fill_buf env (g, dec_src d) = ((g1, src), q)" by (metis prod.collapse)
  have src: "same_place d (d\<lparr>dec_src := src\<rparr>)" using fill_buf_len [OF fb] by (simp add: same_place_def)
  show ?case
  proof (cases q)
    case (Ok input)
    obtain c out1 q2 where st: "codec_step L (dec_codec d) input out = (c, out1, q2)" by (metis prod.collapse)
    note rp = round_place [OF fb st]
    show ?thesis
    proof (cases q2)
      case (Inl e)
      then show ?thesis using Suc.prems fb Ok st rp(2) by simp
    next
      case (Inr stp)
      let ?d = "d\<lparr>dec_src := consume (step_consumed stp) src, dec_codec := c\<rparr>"
      have "same_place d ?d" by (rule rp(1))
      moreover have "same_place ?d d'"
      proof (cases "0 < step_produced stp")
        case True
        then show ?thesis using Suc.prems fb Ok st Inr produced_step_place [of L stp out1 ?d]
          by (cases "produced_step L stp out1 ?d") (simp_all add: Let_def)
      next
        case False
        have "same_place ?d (?d\<lparr>dec_finished := True\<rparr>)" by (simp add: same_place_def)
        then show ?thesis using Suc.prems fb Ok st Inr False Suc.IH [of out1 g1 ?d]
          by (auto simp: Let_def split: if_splits)
      qed
      ultimately show ?thesis by (rule same_place_trans)
    qed
  qed (use Suc.prems fb src in simp_all)
qed simp

lemma pump_step_place: "pump_step L env out (g, d) = ((g', d'), r) \<Longrightarrow> same_place d d'"
  unfolding pump_step_def prod.case by (metis pump_loop_place prod.inject same_place_refl)

lemma skip_loop_place: "skip_loop L env fuel offset (g, d) = ((g', d'), r) \<Longrightarrow> same_place d d'"
proof (induction fuel arbitrary: g d)
  case (Suc fuel)
  let ?want = "min (usize_or_max (offset - dec_pos d)) (length (dec_skip d))"
  obtain g1 d1 q where ps: "pump_step L env (take ?want (dec_skip d)) (g, d) = ((g1, d1), q)" by (metis prod.collapse)
  note p1 = pump_step_place [OF ps]
  have skip: "same_place d (d1\<lparr>dec_skip := x\<rparr>)" for x using p1 by (simp add: same_place_def)
  show ?case using Suc.prems ps p1 skip Suc.IH same_place_trans
    by (cases q) (fastforce simp: Let_def split: if_splits prod.splits)+
qed simp

lemma deliver_loop_place: "deliver_loop L env fuel declared written out (g, d) = ((g', d'), r) \<Longrightarrow> same_place d d'"
proof (induction fuel arbitrary: g d written out)
  case (Suc fuel)
  let ?room = "min (usize_or_max (declared - dec_pos d)) (length out - written)"
  obtain g1 d1 q where ps: "pump_step L env (take ?room (drop written out)) (g, d) = ((g1, d1), q)" by (metis prod.collapse)
  note p1 = pump_step_place [OF ps]
  show ?case using Suc.prems ps p1 Suc.IH same_place_trans
    by (cases q) (fastforce simp: Let_def split: if_splits prod.splits)+
qed simp

lemma verify_decoder_place:
  assumes "verify_decoder L env (g, d, meta) = ((g', d', meta'), r)"
  shows "same_place d d'"
proof -
  obtain g1 d1 q where ps: "pump_step L env [0] (g, d\<lparr>dec_verified := True\<rparr>) = ((g1, d1), q)" by (metis prod.collapse)
  have "same_place d d1" using pump_step_place [OF ps] by (simp add: same_place_def)
  then show ?thesis using assms ps
    by (cases q) (auto simp: verify_decoder_def Let_def same_place_def split: if_splits option.splits prod.splits)
qed

lemma decoder_read_at_place:
  assumes "decoder_read_at L env offset out (g, d, meta) = ((g', d', meta'), r)"
  shows "same_place d d'"
proof -
  obtain g1 d1 q1 where sk: "skip_loop L env (Suc (offset - dec_pos d)) offset (g, d) = ((g1, d1), q1)" by (metis prod.collapse)
  obtain g2 d2 q2 where dl: "deliver_loop L env (Suc (length out)) (uncompressed_size meta) 0 out (g1, d1) = ((g2, d2), q2)" by (metis prod.collapse)
  obtain g3 d3 m3 q3 where vd: "verify_decoder L env (g2, d2, meta) = ((g3, d3, m3), q3)" by (metis prod.collapse)
  have p: "same_place d d1" "same_place d d2" "same_place d d3"
    using skip_loop_place [OF sk] deliver_loop_place [OF dl] verify_decoder_place [OF vd] same_place_trans by blast+
  show ?thesis
  proof (cases "dec_pos d > offset \<or> q1 \<noteq> Ok ()")
    case True
    then show ?thesis using assms sk p(1) by (cases q1) (auto simp: decoder_read_at_def split: if_splits)
  next
    case False
    then show ?thesis using assms sk dl vd p
      by (cases q2; cases q3) (auto simp: decoder_read_at_def Let_def split: if_splits)
  qed
qed

section \<open>Invariants\<close>

definition decoder_for ::
  "(('d, 'z) codec \<Rightarrow> bytes \<Rightarrow> bytes \<Rightarrow> bool) \<Rightarrow> (('d, 'z) codec \<Rightarrow> bytes \<Rightarrow> bytes) \<Rightarrow> (bytes \<Rightarrow> 'h)
     \<Rightarrow> bytes \<Rightarrow> entry_location \<Rightarrow> ('d, 'z, 'h) decoder \<Rightarrow> bool" where
  "decoder_for hist decode hashed content loc d \<longleftrightarrow> decoder_wf hist decode hashed content d
     \<and> src_start (dec_src d) = loc_data_start loc \<and> src_len (dec_src d) = loc_compressed_size loc
     \<and> codec_method (dec_codec d) = loc_method loc"

text \<open>Recycled codecs are filed under their method, and no buffer is empty.\<close>

definition budget_wf :: "('d, 'z) budget \<Rightarrow> bool" where
  "budget_wf b \<longleftrightarrow> (\<forall>m. \<forall>c \<in> set (cs_codecs (bg_cores b) m). codec_method c = m)
     \<and> [] \<notin> set (cs_buffers (bg_cores b)) \<and> [] \<notin> set (cs_skips (bg_cores b))
     \<and> 0 < bg_source_buffer b \<and> 0 < bg_skip_buffer b \<and> bg_retained b \<le> bg_max_retained b"

definition pool_wf ::
  "(('d, 'z) codec \<Rightarrow> bytes \<Rightarrow> bytes \<Rightarrow> bool) \<Rightarrow> (('d, 'z) codec \<Rightarrow> bytes \<Rightarrow> bytes) \<Rightarrow> (bytes \<Rightarrow> 'h)
     \<Rightarrow> bytes \<Rightarrow> ('d, 'z, 'h) entry_pool \<Rightarrow> bool" where
  "pool_wf hist decode hashed content p \<longleftrightarrow>
     loc_data_start (pl_loc p) + loc_compressed_size (pl_loc p) \<le> u64_max \<and> length (pl_idle p) \<le> pl_cap p
     \<and> (\<forall>d \<in> set (pl_idle p). decoder_for hist decode hashed content (pl_loc p) d)"

lemma budget_new_wf: "config_wf c \<Longrightarrow> budget_wf (budget_new c)"
  by (simp add: budget_wf_def budget_new_def config_wf_def MIN_SOURCE_BUFFER_def SKIP_BUFFER_def)

lemma pool_new_wf:
  "loc_data_start loc + loc_compressed_size loc \<le> u64_max \<Longrightarrow> pool_wf hist decode hashed content (pool_new loc cap)"
  by (simp add: pool_wf_def pool_new_def)

lemma decoder_for_content:
  "decoder_for hist (codec_decode inflate unzstd) hashed content loc d \<Longrightarrow>
     decoded (codec_decode inflate unzstd) content d = entry_content inflate unzstd content loc"
  by (cases "loc_method loc") (simp_all add: decoder_for_def decoded_def entry_bytes_def codec_decode_def entry_content_def
      range_of_def entry_raw_def)

lemma decoder_reinit_for:
  assumes "sound_libs L hist decode hashed crc" and "loc_data_start loc + loc_compressed_size loc \<le> u64_max"
    and "decoder_for hist decode hashed content loc d"
  shows "decoder_for hist decode hashed content loc (decoder_reinit L loc d)" and "dec_pos (decoder_reinit L loc d) = 0"
  using decoder_reinit_wf [OF assms(1,2), of content d] assms(3)
  by (simp_all add: decoder_for_def decoder_reinit_def Let_def retarget_def rewind_def)

lemma decoder_new_for:
  assumes "sound_libs L hist decode hashed crc" and "parts_for loc parts"
  shows "decoder_for hist decode hashed content loc (decoder_new L loc parts v)" and "dec_pos (decoder_new L loc parts v) = 0"
  using decoder_new_wf [OF assms(1), of loc parts content v] assms(2)
  by (simp_all add: decoder_for_def parts_for_def decoder_new_def Let_def source_new_def)

lemma pop_Some: "pop xs = Some (x, ys) \<Longrightarrow> x \<in> set xs \<and> set ys \<subseteq> set xs"
  by (auto simp: pop_def dest: in_set_butlastD split: if_splits)

lemma codec_new_method: "codec_new L m = Ok c \<Longrightarrow> codec_method c = m"
  by (auto simp: codec_new_def codec_method_def split: cmethod.splits)

lemma codec_new_succeeds: "zstd_new L \<noteq> None \<Longrightarrow> \<exists>c. codec_new L m = Ok c"
  by (auto simp: codec_new_def zstd_codec_new_def split: cmethod.splits)

text \<open>Parts are complete and fit the method, and taking them changes no counter.\<close>

lemma take_core_ok:
  assumes "budget_wf b" and "zstd_new L \<noteq> None"
  obtains b' parts where "take_core L m b = (b', Ok parts)" and "budget_wf b'" and "bg_retained b' = bg_retained b"
    and "bg_max_retained b' = bg_max_retained b" and "bg_verify b' = bg_verify b"
    and "codec_method (cp_codec parts) = m" and "cp_buf parts \<noteq> []" and "cp_skip parts \<noteq> []"
proof -
  let ?st = "bg_cores b"
  obtain c st1 where c: "(case pop (cs_codecs ?st m) of Some (c, rest) \<Rightarrow> (Ok c, ?st\<lparr>cs_codecs := (cs_codecs ?st)(m := rest)\<rparr>)
       | None \<Rightarrow> (codec_new L m, ?st)) = (Ok c :: (io_error, _) rust, st1)"
    and cm: "codec_method c = m" and st1: "\<forall>k. set (cs_codecs st1 k) \<subseteq> set (cs_codecs ?st k)"
      "cs_buffers st1 = cs_buffers ?st" "cs_skips st1 = cs_skips ?st"
  proof (cases "pop (cs_codecs ?st m)")
    case None
    obtain c where c: "codec_new L m = (Ok c :: (io_error, _) rust)" using codec_new_succeeds [OF assms(2)] by blast
    then show ?thesis using that [of c ?st] None codec_new_method [OF c] by simp
  next
    case (Some p)
    obtain c rest where p: "p = (c, rest)" by (cases p)
    from pop_Some [OF Some [unfolded p]] have "codec_method c = m" "set rest \<subseteq> set (cs_codecs ?st m)"
      using assms(1) by (auto simp: budget_wf_def)
    then show ?thesis using that [of c "?st\<lparr>cs_codecs := (cs_codecs ?st)(m := rest)\<rparr>"] Some p by simp
  qed
  define bf where "bf = (case pop (cs_buffers st1) of Some (x, rest) \<Rightarrow> (x, st1\<lparr>cs_buffers := rest\<rparr>)
       | None \<Rightarrow> (replicate (bg_source_buffer b) 0, st1))"
  have bf: "fst bf \<noteq> []" "cs_codecs (snd bf) = cs_codecs st1" "set (cs_buffers (snd bf)) \<subseteq> set (cs_buffers ?st)"
    "cs_skips (snd bf) = cs_skips ?st"
    using assms(1) st1(2,3) by (auto simp: bf_def budget_wf_def split: option.splits dest: pop_Some)
  define sk where "sk = (case pop (cs_skips (snd bf)) of Some (x, rest) \<Rightarrow> (x, (snd bf)\<lparr>cs_skips := rest\<rparr>)
       | None \<Rightarrow> (replicate (bg_skip_buffer b) 0, snd bf))"
  have sk: "fst sk \<noteq> []" "cs_codecs (snd sk) = cs_codecs st1" "set (cs_buffers (snd sk)) \<subseteq> set (cs_buffers ?st)"
    "set (cs_skips (snd sk)) \<subseteq> set (cs_skips ?st)"
    using assms(1) bf by (auto simp: sk_def budget_wf_def split: option.splits dest: pop_Some)
  have eq: "take_core L m b = (b\<lparr>bg_cores := snd sk\<rparr>, Ok \<lparr> cp_codec = c, cp_buf = fst bf, cp_skip = fst sk \<rparr>)"
    unfolding take_core_def Let_def c prod.case rust.case bf_def [symmetric]
    by (simp add: case_prod_beta flip: sk_def)
  have "\<forall>m. \<forall>c \<in> set (cs_codecs st1 m). codec_method c = m" using assms(1) st1(1) unfolding budget_wf_def by blast
  then have "budget_wf (b\<lparr>bg_cores := snd sk\<rparr>)" using assms(1) sk by (auto simp: budget_wf_def)
  then show thesis using that [OF eq] cm bf(1) sk(1) by simp
qed

text \<open>
  The counter follows the idle list: an operation of a pool changes both by the same amount, and the
  counter never wraps around while it is at least the length of the list.
\<close>

definition counted :: "('d, 'z) budget \<times> ('d, 'z, 'h) entry_pool \<Rightarrow> ('d, 'z) budget \<times> ('d, 'z, 'h) entry_pool \<Rightarrow> bool" where
  "counted = (\<lambda>(b, p) (b', p'). bg_retained b' + length (pl_idle p) = bg_retained b + length (pl_idle p')
     \<and> bg_max_retained b' = bg_max_retained b \<and> bg_verify b' = bg_verify b \<and> pl_loc p' = pl_loc p \<and> pl_cap p' = pl_cap p)"

lemma checkout_ok:
  assumes sound: "sound_libs L hist decode hashed crc" and zn: "zstd_new L \<noteq> None"
    and bw: "budget_wf b" and pw: "pool_wf hist decode hashed content p" and n: "length (pl_idle p) \<le> bg_retained b"
  obtains b' p' d where "checkout L offset (b, p) = ((b', p'), Ok d)" and "budget_wf b'"
    and "pool_wf hist decode hashed content p'" and "decoder_for hist decode hashed content (pl_loc p) d"
    and "dec_pos d \<le> offset" and "counted (b, p) (b', p')" and "length (pl_idle p') < pl_cap p \<or> pl_idle p' = []"
proof (cases "pick offset (pl_idle p)")
  case None
  let ?loc = "pl_loc p"
  obtain b' parts where tc: "take_core L (loc_method ?loc) b = (b', Ok parts :: (io_error, _) rust)" and b': "budget_wf b'" "bg_retained b' = bg_retained b"
      "bg_max_retained b' = bg_max_retained b" "bg_verify b' = bg_verify b"
    and parts: "codec_method (cp_codec parts) = loc_method ?loc" "cp_buf parts \<noteq> []" "cp_skip parts \<noteq> []"
    by (rule take_core_ok [OF bw zn])
  have "parts_for ?loc parts" using parts pw by (simp add: parts_for_def pool_wf_def)
  note dn = decoder_new_for [OF sound this]
  have "checkout L offset (b, p) = ((b', p), Ok (decoder_new L ?loc parts (bg_verify b')))" using None tc by (simp add: checkout_def)
  then show ?thesis using that [OF _ b'(1) pw dn(1)] b' dn(2) None pick_None by (auto simp: counted_def)
next
  case (Some t)
  obtain d again rest where t: "t = (d, again, rest)" by (cases t)
  note ps = pick_Some [OF Some [unfolded t]]
  have d: "decoder_for hist decode hashed content (pl_loc p) d" and sub: "set rest \<subseteq> set (pl_idle p)"
    using ps(1) pw by (auto simp: pool_wf_def dest: union_single_eq_member arg_cong [of _ _ set_mset])
  have range: "loc_data_start (pl_loc p) + loc_compressed_size (pl_loc p) \<le> u64_max" using pw by (simp add: pool_wf_def)
  note re = decoder_reinit_for [OF sound range d]
  let ?p = "p\<lparr>pl_idle := rest\<rparr>"
  have eq: "checkout L offset (b, p) = ((release_retain b, ?p), Ok (if again then decoder_reinit L (pl_loc p) d else d))"
    using Some t by (simp add: checkout_def Let_def)
  have r: "bg_retained (release_retain b) = bg_retained b - 1" "1 \<le> bg_retained b"
    using n ps(2) by (simp_all add: release_retain_def wrapping_sub_u64_def)
  have "budget_wf (release_retain b)" using bw r by (auto simp: budget_wf_def release_retain_def)
  moreover have "pool_wf hist decode hashed content ?p" using pw sub ps(2) by (auto simp: pool_wf_def)
  moreover have "counted (b, p) (release_retain b, ?p)" using r ps(2) by (simp add: counted_def release_retain_def)
  ultimately show ?thesis using that [OF eq] re d ps(2,3) pw by (auto simp: pool_wf_def)
qed

lemma recycle_core_ok:
  assumes "budget_wf b" and "cp_buf parts \<noteq> []" and "cp_skip parts \<noteq> []"
  shows "budget_wf (recycle_core parts b)" and "bg_retained (recycle_core parts b) = bg_retained b"
    and "bg_max_retained (recycle_core parts b) = bg_max_retained b" and "bg_verify (recycle_core parts b) = bg_verify b"
  using assms by (auto simp: recycle_core_def Let_def budget_wf_def)

lemma into_parts_ok:
  "decoder_wf hist decode hashed content d \<Longrightarrow> cp_buf (into_parts d) \<noteq> [] \<and> cp_skip (into_parts d) \<noteq> []"
  by (auto simp: decoder_wf_def into_parts_def into_buf_def source_wf_def)

lemma give_back_ok:
  assumes bw: "budget_wf b" and pw: "pool_wf hist decode hashed content p"
    and d: "decoder_for hist decode hashed content (pl_loc p) d" and eq: "give_back d (b, p) = (b', p')"
  shows "budget_wf b'" and "pool_wf hist decode hashed content p'" and "counted (b, p) (b', p')"
proof -
  have "cp_buf (into_parts d) \<noteq> []" "cp_skip (into_parts d) \<noteq> []" using into_parts_ok [of hist decode hashed content d] d by (simp_all add: decoder_for_def)
  note rc = recycle_core_ok [OF bw this]
  have "budget_wf b' \<and> pool_wf hist decode hashed content p' \<and> counted (b, p) (b', p')"
  proof (cases "length (pl_idle p) < pl_cap p \<and> bg_retained b < bg_max_retained b")
    case True
    then have "b' = b\<lparr>bg_retained := bg_retained b + 1\<rparr>" "p' = p\<lparr>pl_idle := pl_idle p @ [d]\<rparr>"
      using eq by (simp_all add: give_back_def try_retain_def)
    then show ?thesis using bw pw d True by (auto simp: budget_wf_def pool_wf_def counted_def)
  next
    case False
    then have "b' = recycle_core (into_parts d) b" "p' = p" using eq by (auto simp: give_back_def try_retain_def split: if_splits)
    then show ?thesis using rc pw by (simp add: counted_def)
  qed
  then show "budget_wf b'" and "pool_wf hist decode hashed content p'" and "counted (b, p) (b', p')" by blast+
qed

lemma pool_drop_ok:
  assumes "budget_wf b" and "pool_wf hist decode hashed content p" and "length (pl_idle p) \<le> bg_retained b"
  shows "budget_wf (pool_drop p b)" and "bg_retained (pool_drop p b) + length (pl_idle p) = bg_retained b"
    and "bg_max_retained (pool_drop p b) = bg_max_retained b"
proof -
  have "budget_wf (fold (\<lambda>d b. recycle_core (into_parts d) (release_retain b)) ds b)
      \<and> bg_retained (fold (\<lambda>d b. recycle_core (into_parts d) (release_retain b)) ds b) + length ds = bg_retained b
      \<and> bg_max_retained (fold (\<lambda>d b. recycle_core (into_parts d) (release_retain b)) ds b) = bg_max_retained b"
    if "\<forall>d \<in> set ds. decoder_wf hist decode hashed content d" "length ds \<le> bg_retained b" "budget_wf b"
    for ds :: "('a, 'b, 'c) decoder list" and b :: "('a, 'b) budget"
    using that
  proof (induction ds arbitrary: b)
    case (Cons d ds)
    have r: "bg_retained (release_retain b) = bg_retained b - 1" "bg_max_retained (release_retain b) = bg_max_retained b"
      using Cons.prems(2) by (simp_all add: release_retain_def wrapping_sub_u64_def)
    have "budget_wf (release_retain b)" using Cons.prems(3) r by (auto simp: budget_wf_def release_retain_def)
    note rc = recycle_core_ok [OF this, of "into_parts d"]
    have "cp_buf (into_parts d) \<noteq> []" "cp_skip (into_parts d) \<noteq> []" using into_parts_ok [of hist decode hashed content d] Cons.prems(1) by simp_all
    with Cons.IH [of "recycle_core (into_parts d) (release_retain b)"] rc r Cons.prems show ?case by simp
  qed simp
  with assms show "budget_wf (pool_drop p b)" and "bg_retained (pool_drop p b) + length (pl_idle p) = bg_retained b"
    and "bg_max_retained (pool_drop p b) = bg_max_retained b"
    by (auto simp: pool_drop_def pool_wf_def decoder_for_def)
qed

end
