(* ===== verification/Pool_Steps.thy ===== *)
theory Pool_Steps
  imports Pool_Correct
begin

text \<open>
  The pools of a mount under the interleaving of its worker threads. A step is one atomic action of
  some thread: what happens under the lock of a pool, or one update of the shared counter. A decoder
  that has left an idle list but whose slot is not released yet is in transit. \<open>give_back\<close> is one step:
  it holds the lock of the pool, and between its update of the counter and its push the other
  threads touch only other pools and the counter.
\<close>

record ('d, 'z, 'h) mount_pools =
  mp_budget :: "('d, 'z) budget"
  mp_pools :: "('d, 'z, 'h) entry_pool list"
  mp_transit :: nat

definition mount_init :: "config \<Rightarrow> ('d, 'z, 'h) mount_pools" where
  "mount_init c = \<lparr> mp_budget = budget_new c, mp_pools = [], mp_transit = 0 \<rparr>"

inductive pool_step :: "('d, 'z, 'h) libs \<Rightarrow> ('d, 'z, 'h) mount_pools \<Rightarrow> ('d, 'z, 'h) mount_pools \<Rightarrow> bool"
  for L where
  Opened: "pool_step L s (s\<lparr>mp_pools := mp_pools s @ [pool_new loc cap]\<rparr>)"
| Picked: "i < length (mp_pools s) \<Longrightarrow> pick offset (pl_idle (mp_pools s ! i)) = Some (d, again, rest) \<Longrightarrow>
    pool_step L s (s\<lparr>mp_pools := (mp_pools s)[i := (mp_pools s ! i)\<lparr>pl_idle := rest\<rparr>], mp_transit := mp_transit s + 1\<rparr>)"
| Released: "mp_transit s = Suc n \<Longrightarrow>
    pool_step L s (s\<lparr>mp_budget := release_retain (mp_budget s), mp_transit := n\<rparr>)"
| Taken: "take_core L m (mp_budget s) = (b, r) \<Longrightarrow> pool_step L s (s\<lparr>mp_budget := b\<rparr>)"
| Given: "i < length (mp_pools s) \<Longrightarrow> give_back d (mp_budget s, mp_pools s ! i) = (b, p) \<Longrightarrow>
    pool_step L s (s\<lparr>mp_budget := b, mp_pools := (mp_pools s)[i := p]\<rparr>)"
| Dropped: "mp_pools s = ps @ p # qs \<Longrightarrow>
    pool_step L s (s\<lparr>mp_pools := ps @ qs, mp_transit := mp_transit s + length (pl_idle p)\<rparr>)"
| Recycled: "pool_step L s (s\<lparr>mp_budget := recycle_core parts (mp_budget s)\<rparr>)"

text \<open>The counter is the number of idle decoders of all pools and of those in transit.\<close>

definition idle_count :: "('d, 'z, 'h) entry_pool list \<Rightarrow> nat" where
  "idle_count ps = sum_list (map (\<lambda>p. length (pl_idle p)) ps)"

definition mount_inv :: "nat \<Rightarrow> ('d, 'z, 'h) mount_pools \<Rightarrow> bool" where
  "mount_inv limit s \<longleftrightarrow> bg_retained (mp_budget s) = idle_count (mp_pools s) + mp_transit s
     \<and> bg_retained (mp_budget s) \<le> limit \<and> bg_max_retained (mp_budget s) = limit
     \<and> (\<forall>p \<in> set (mp_pools s). length (pl_idle p) \<le> pl_cap p)"

lemma idle_count_update:
  "i < length ps \<Longrightarrow> idle_count (ps[i := p]) + length (pl_idle (ps ! i)) = idle_count ps + length (pl_idle p)"
proof (induction ps arbitrary: i)
  case (Cons q ps)
  then show ?case by (cases i) (auto simp: idle_count_def)
qed simp

lemma take_core_count: "take_core L m b = (b', r) \<Longrightarrow> bg_retained b' = bg_retained b \<and> bg_max_retained b' = bg_max_retained b"
  by (auto simp: take_core_def Let_def case_prod_beta split: rust.splits)

lemma recycle_core_count [simp]:
  "bg_retained (recycle_core parts b) = bg_retained b" "bg_max_retained (recycle_core parts b) = bg_max_retained b"
  by (simp_all add: recycle_core_def Let_def)

lemma give_back_count:
  assumes "give_back d (b, p) = (b', p')" and "bg_retained b \<le> bg_max_retained b" and "length (pl_idle p) \<le> pl_cap p"
  shows "bg_retained b' + length (pl_idle p) = bg_retained b + length (pl_idle p')" and "bg_max_retained b' = bg_max_retained b"
    and "bg_retained b' \<le> bg_max_retained b'" and "length (pl_idle p') \<le> pl_cap p'"
  using assms by (auto simp: give_back_def try_retain_def split: if_splits)

lemma pool_step_inv: "pool_step L s s' \<Longrightarrow> mount_inv limit s \<Longrightarrow> mount_inv limit s'"
proof (induction rule: pool_step.induct)
  case (Picked i s offset d again rest)
  let ?p = "(mp_pools s ! i)\<lparr>pl_idle := rest\<rparr>"
  have "length (pl_idle (mp_pools s ! i)) = Suc (length rest)" by (rule pick_Some(2) [OF Picked.hyps(2)])
  moreover have "length (pl_idle (mp_pools s ! i)) \<le> pl_cap (mp_pools s ! i)" using Picked by (simp add: mount_inv_def)
  ultimately show ?case using idle_count_update [OF Picked.hyps(1), of ?p] Picked.prems
    by (auto simp: mount_inv_def dest!: set_update_subset_insert [THEN subsetD])
next
  case (Given i s d b p)
  have "length (pl_idle (mp_pools s ! i)) \<le> pl_cap (mp_pools s ! i)" "bg_retained (mp_budget s) \<le> bg_max_retained (mp_budget s)"
    using Given by (simp_all add: mount_inv_def)
  note gb = give_back_count [OF Given.hyps(2) this(2,1)]
  show ?case using gb idle_count_update [OF Given.hyps(1), of p] Given.prems
    by (auto simp: mount_inv_def dest!: set_update_subset_insert [THEN subsetD])
next
  case (Taken m s b r)
  then show ?case using take_core_count [OF Taken.hyps] by (simp add: mount_inv_def)
qed (auto simp: mount_inv_def idle_count_def pool_new_def release_retain_def wrapping_sub_u64_def)

lemma mount_init_inv: "mount_inv (max_retained_decoders c) (mount_init c)"
  by (simp add: mount_inv_def mount_init_def budget_new_def idle_count_def)


text \<open>C23 after a file was opened and a decoder was given back to it.\<close>

definition sample_mount :: "(nat, unit, bytes) mount_pools" where
  "sample_mount = \<lparr> mp_budget = (budget_new (config_default None 0 0))\<lparr>bg_retained := 1\<rparr>,
     mp_pools = [(pool_new sample_loc 4)\<lparr>pl_idle := [decoder_new copy_libs sample_loc sample_parts True]\<rparr>], mp_transit = 0 \<rparr>"


end
