(* ===== verification/Handle.thy ===== *)
theory Handle
  imports Pool_Correct Index_Tree "HOL-Library.AList"
begin

text \<open>
  \<^verbatim>\<open>src/handle.rs\<close>: open files and the table of their handles.

  The table maps 64-bit handles to open files; it is an association list with at most one entry for
  a handle. The state an open file changes, its running checksum or its pool, is kept in the table.
\<close>

section \<open>The checksum of a stored entry\<close>

record 'h store_verify =
  sv_crc :: 'h
  sv_pos :: nat
  sv_disabled :: bool

definition store_verify_new :: "('d, 'z, 'h) libs \<Rightarrow> 'h store_verify" where
  "store_verify_new L = \<lparr> sv_crc = crc_new L, sv_pos = 0, sv_disabled = False \<rparr>"

definition observe ::
  "('d, 'z, 'h) libs \<Rightarrow> nat \<Rightarrow> bytes \<Rightarrow> 'h store_verify \<times> 'w entry_meta \<Rightarrow> ('h store_verify \<times> 'w entry_meta) \<times> bool" where
  "observe L offset data = (\<lambda>(v, meta).
     if sv_disabled v \<or> offset \<noteq> sv_pos v then ((v\<lparr>sv_disabled := True\<rparr>, meta), True)
     else
       let v = v\<lparr>sv_crc := crc_update L (sv_crc v) data, sv_pos := wrapping_add_u64 (sv_pos v) (length data)\<rparr> in
       if sv_pos v < uncompressed_size meta then ((v, meta), True)
       else
         let matches = (crc_finalize L (sv_crc v) = crc32 meta)
         in ((v\<lparr>sv_disabled := True\<rparr>, meta\<lparr>verify_state := (if matches then VERIFY_OK else VERIFY_BAD)\<rparr>), matches))"

section \<open>Open files\<close>

datatype ('d, 'z, 'h) open_kind =
    EmptyFile
  | StoreFile nat nat "'h store_verify option"   \<comment> \<open>\<open>data_start\<close>, \<open>compressed_size\<close>, \<open>verify\<close>\<close>
  | CodedFile "('d, 'z, 'h) entry_pool"

record ('d, 'z, 'h) open_file =
  of_ino :: nat
  of_meta_idx :: nat
  of_size :: nat
  of_kind :: "('d, 'z, 'h) open_kind"

definition open_file_new ::
  "('d, 'z, 'h) libs \<Rightarrow> 'w index \<Rightarrow> ('d, 'z) budget \<Rightarrow> nat \<Rightarrow> nat \<Rightarrow> entry_location \<Rightarrow> config
     \<Rightarrow> ('e, ('d, 'z, 'h) open_file) rust" where
  "open_file_new L idx b ino mi loc c =
     rbind (at (metas idx) mi) (\<lambda>meta.
       let sz = uncompressed_size meta;
           kd = (if sz = 0 then EmptyFile
                 else if loc_method loc = Store
                 then StoreFile (loc_data_start loc) (loc_compressed_size loc)
                        (if bg_verify b then Some (store_verify_new L) else None)
                 else CodedFile (pool_new loc (decoders_per_file c)))
       in Ok \<lparr> of_ino = ino, of_meta_idx = mi, of_size = sz, of_kind = kd \<rparr>)"

definition open_meta :: "'w index \<Rightarrow> ('d, 'z, 'h) open_file \<Rightarrow> ('e, 'w entry_meta) rust" where
  "open_meta idx f = at (metas idx) (of_meta_idx f)"

definition observe_store ::
  "('d, 'z, 'h) libs \<Rightarrow> nat \<Rightarrow> bytes \<Rightarrow> ('d, 'z, 'h) open_file \<times> 'w entry_meta \<Rightarrow> (('d, 'z, 'h) open_file \<times> 'w entry_meta) \<times> bool" where
  "observe_store L offset data = (\<lambda>(f, meta).
     case of_kind f of
       StoreFile start n (Some v) \<Rightarrow>
         (case observe L offset data (v, meta) of
            ((v, meta), b) \<Rightarrow> ((f\<lparr>of_kind := StoreFile start n (Some v)\<rparr>, meta), b))
     | _ \<Rightarrow> ((f, meta), True))"

section \<open>The table of handles\<close>

record ('d, 'z, 'h) handle_table =
  ht_map :: "(nat \<times> ('d, 'z, 'h) open_file) list"
  ht_next :: nat

definition handle_table_new :: "('d, 'z, 'h) handle_table" where
  "handle_table_new = \<lparr> ht_map = [], ht_next = 1 \<rparr>"

definition handle_insert :: "('d, 'z, 'h) open_file \<Rightarrow> ('d, 'z, 'h) handle_table \<Rightarrow> ('d, 'z, 'h) handle_table \<times> nat" where
  "handle_insert f t =
     (let fh = ht_next t; t = t\<lparr>ht_next := wrapping_add_u64 (ht_next t) 1\<rparr>
      in (t\<lparr>ht_map := AList.update fh f (ht_map t)\<rparr>, fh))"

definition handle_get :: "nat \<Rightarrow> ('d, 'z, 'h) handle_table \<Rightarrow> ('d, 'z, 'h) open_file option" where
  "handle_get fh t = map_of (ht_map t) fh"

definition handle_remove :: "nat \<Rightarrow> ('d, 'z, 'h) handle_table \<Rightarrow> ('d, 'z, 'h) handle_table \<times> ('d, 'z, 'h) open_file option" where
  "handle_remove fh t = (t\<lparr>ht_map := AList.delete fh (ht_map t)\<rparr>, map_of (ht_map t) fh)"

definition handle_len :: "('d, 'z, 'h) handle_table \<Rightarrow> nat" where
  "handle_len t = length (ht_map t)"

definition handle_is_empty :: "('d, 'z, 'h) handle_table \<Rightarrow> bool" where
  "handle_is_empty t \<longleftrightarrow> handle_len t = 0"

text \<open>The file behind a handle after one of its operations changed its state.\<close>

definition handle_put :: "nat \<Rightarrow> ('d, 'z, 'h) open_file \<Rightarrow> ('d, 'z, 'h) handle_table \<Rightarrow> ('d, 'z, 'h) handle_table" where
  "handle_put fh f t = t\<lparr>ht_map := AList.update fh f (ht_map t)\<rparr>"

end
