(* ===== verification/Attr.thy ===== *)
theory Attr
  imports Config Index_Tree
begin

text \<open>
  \<^verbatim>\<open>src/attr.rs\<close>: the attributes of an inode. A \<open>SystemTime\<close> is its distance from the epoch in
  nanoseconds; it holds the seconds in 64 signed bits, and the checked operations fail outside.
\<close>

definition BLOCK_SIZE :: nat where "BLOCK_SIZE = 4096"

datatype file_type = Directory | RegularFile | SymlinkType

record file_attr =
  fa_ino :: nat
  fa_size :: nat
  fa_blocks :: nat
  fa_atime :: int
  fa_mtime :: int
  fa_ctime :: int
  fa_crtime :: int
  fa_kind :: file_type
  fa_perm :: u16
  fa_nlink :: nat
  fa_uid :: nat
  fa_gid :: nat
  fa_rdev :: nat
  fa_blksize :: nat
  fa_flags :: nat

section \<open>Times\<close>

definition time_ok :: "int \<Rightarrow> bool" where
  "time_ok t \<longleftrightarrow> - (2 ^ 63) \<le> t div 10 ^ 9 \<and> t div 10 ^ 9 < 2 ^ 63"

definition time_checked_add :: "int \<Rightarrow> int \<Rightarrow> int option" where
  "time_checked_add t d = (if time_ok (t + d) then Some (t + d) else None)"

definition time_checked_sub :: "int \<Rightarrow> int \<Rightarrow> int option" where
  "time_checked_sub t d = (if time_ok (t - d) then Some (t - d) else None)"

definition UNIX_EPOCH :: int where "UNIX_EPOCH = 0"

definition to_system_time :: "int \<Rightarrow> nat \<Rightarrow> int" where
  "to_system_time secs nanos0 =
     (let nanos = int (min nanos0 999999999);
          whole = \<bar>secs\<bar> * 10 ^ 9;
          base = (if secs < 0 then time_checked_sub UNIX_EPOCH whole else time_checked_add UNIX_EPOCH whole)
      in case Option.bind base (\<lambda>t. time_checked_add t nanos) of None \<Rightarrow> UNIX_EPOCH | Some t \<Rightarrow> t)"

section \<open>Attributes\<close>

definition permissions :: "node \<Rightarrow> 'w entry_meta option \<Rightarrow> config \<Rightarrow> u16" where
  "permissions nd meta c =
     (let recorded = (case meta of None \<Rightarrow> 0 | Some m \<Rightarrow> mode m) AND 0x1FF;
          md = (if recorded \<noteq> 0 then recorded else if kind nd = Dir then dir_mode c else file_mode c)
      in md AND 0x1FF)"

definition file_type_of :: "node_kind \<Rightarrow> file_type" where
  "file_type_of k = (case k of Dir \<Rightarrow> Directory | File \<Rightarrow> RegularFile | Symlink \<Rightarrow> SymlinkType)"

definition div_ceil :: "nat \<Rightarrow> nat \<Rightarrow> nat" where
  "div_ceil a b = (if 0 < a mod b then a div b + 1 else a div b)"

definition file_attr :: "'w index \<Rightarrow> nat \<Rightarrow> node \<Rightarrow> config \<Rightarrow> file_attr" where
  "file_attr idx ino nd c =
     (let meta = meta_of idx nd;
          sz = (if kind nd = Dir then 0 else case meta of None \<Rightarrow> 0 | Some m \<Rightarrow> uncompressed_size m);
          perm = permissions nd meta c;
          mtime = (case meta of None \<Rightarrow> UNIX_EPOCH | Some m \<Rightarrow> to_system_time (mtime_sec m) (mtime_nsec m));
          nlink = (if kind nd = Dir then wrapping_add_u32 2 (subdir_count nd) else 1)
      in \<lparr> fa_ino = ino, fa_size = sz, fa_blocks = div_ceil sz 512, fa_atime = mtime, fa_mtime = mtime,
           fa_ctime = mtime, fa_crtime = mtime, fa_kind = file_type_of (kind nd), fa_perm = perm,
           fa_nlink = nlink, fa_uid = uid c, fa_gid = gid c, fa_rdev = 0, fa_blksize = BLOCK_SIZE,
           fa_flags = 0 \<rparr>)"

section \<open>Theorems\<close>

lemma time_ok_i64:
  assumes "- (2 ^ 63) \<le> s" and "s < 2 ^ 63" and "0 \<le> n" and "n < 10 ^ 9"
  shows "time_ok (s * 10 ^ 9 + n)"
proof -
  have "(s * 10 ^ 9 + n) div 10 ^ 9 = s" using assms(3,4) by simp
  with assms(1,2) show ?thesis by (simp add: time_ok_def)
qed

text \<open>
  C38. A modification time converts exactly, before the epoch too: for every 64-bit number of
  seconds the result is that many seconds plus the nanoseconds (below a second), and the fallback
  to the epoch is never taken.
\<close>

theorem to_system_time_exact:
  assumes "- (2 ^ 63) \<le> secs" and "secs < 2 ^ 63"
  shows "to_system_time secs nanos = secs * 10 ^ 9 + int (min nanos 999999999)"
proof -
  have ok: "time_ok (secs * 10 ^ 9 + 0)" "time_ok (secs * 10 ^ 9 + int (min nanos 999999999))"
    using assms by (intro time_ok_i64; simp)+
  have "(if secs < 0 then time_checked_sub UNIX_EPOCH (\<bar>secs\<bar> * 10 ^ 9) else time_checked_add UNIX_EPOCH (\<bar>secs\<bar> * 10 ^ 9))
      = Some (secs * 10 ^ 9)"
    using ok(1) by (simp add: time_checked_sub_def time_checked_add_def UNIX_EPOCH_def)
  then show ?thesis using ok(2) unfolding to_system_time_def Let_def by (simp add: time_checked_add_def)
qed

text \<open>C38 half a second before the epoch, as in the test of the code.\<close>

theorem to_system_time_exact_witness: "to_system_time (- 1) 500000000 = - 500000000"
  using to_system_time_exact [of "- 1" 500000000] by simp

text \<open>
  Set-user-id, set-group-id and sticky bits never reach the kernel: whatever the archive or
  the configuration says, the permissions are the nine permission bits only.
\<close>

lemma permissions_masked: "fa_perm (file_attr idx ino nd c) \<le> 0x1FF"
  by (simp add: file_attr_def Let_def permissions_def word_and_le1)

text \<open>
  C40. The link count of a directory of a well-formed tree is two plus the number of its
  subdirectories, without wrapping around, and a directory has size zero.
\<close>

theorem directory_attr:
  assumes wf: "index_wf idx" and i: "node_of idx i = Some nd" and dir: "kind nd = Dir"
  shows "fa_nlink (file_attr idx i nd c)
      = 2 + length (filter (\<lambda>j. kind (nodes idx ! j) = Dir) (child_inos nd))
    \<and> fa_size (file_attr idx i nd c) = 0 \<and> fa_kind (file_attr idx i nd c) = Directory"
proof -
  have i': "0 < i" "i < length (nodes idx)" and nd: "nd = nodes idx ! i" using node_of_Some [OF wf] i by auto
  have kw: "kids_wf idx i" by (rule index_wfD(1) [OF wf i'])
  let ?n = "length (filter (\<lambda>j. kind (nodes idx ! j) = Dir) (child_inos nd))"
  have sub: "subdir_count nd = ?n" and fit: "first_child nd + child_len nd \<le> length (nodes idx)"
    using kw nd by (auto simp: kids_wf_def Let_def)
  have "?n + 2 \<le> u32_max"
  proof (cases "child_len nd = 0")
    case False
    then have "i < first_child nd" using kids_wf_kid [OF kw, of "first_child nd"] nd by simp
    with i'(1) have "2 \<le> first_child nd" by simp
    moreover have "?n \<le> child_len nd" using length_filter_le [of _ "child_inos nd"] by simp
    ultimately show ?thesis using fit wf by (simp add: index_wf_def)
  qed simp
  then show ?thesis using sub dir by (simp add: file_attr_def Let_def wrapping_add_u32_def file_type_of_def)
qed

definition tiny_index :: "unit index" where
  "tiny_index = \<lparr> nodes = replicate 2 \<lparr> name_off = 0, name_len = 0, kind = Dir, flags = FLAG_SYNTHETIC,
       parent = 1, first_child = 2, child_len = 0, subdir_count = 0, meta_idx = NO_META \<rparr>,
     metas = [], names = [], symlinks = [], total_uncompressed = 0 \<rparr>"

lemma tiny_index_wf: "index_wf tiny_index"
  by (simp add: index_wf_def tiny_index_def kids_wf_def place_wf_def entry_wf_def ROOT_INO_def numeral_2_eq_2)

text \<open>C40 on the index of an empty archive.\<close>

theorem directory_attr_witness:
  "index_wf tiny_index
     \<and> fa_nlink (file_attr tiny_index 1 (nodes tiny_index ! 1) (config_default None 0 0)) = 2"
  using directory_attr [OF tiny_index_wf, of 1 "nodes tiny_index ! 1" "config_default None 0 0"] tiny_index_wf
  by (simp add: node_of_Some [OF tiny_index_wf]) (simp add: tiny_index_def)

end
