(* ===== verification/Fs.thy ===== *)
theory Fs
  imports Handle Attr Finish
begin

text \<open>
  \<^verbatim>\<open>src/fs.rs\<close>: the file system and the FUSE operations.

  A handler is a function of the mount's state; its result is what it replies, \<open>Err\<close> for
  \<open>reply.error\<close>. The requests of several worker threads are served one after the other here; the
  interleaving of the pools is in \<open>Pool_Steps\<close>. The crates, the system and \<open>rawzip\<close>'s reader are
  the fields of \<open>system\<close>. \<open>Index::meta\<close> gives a reference into the table of entries, so what a handler
  writes to an entry is written back at its index. The reply buffer of a worker is fresh.
\<close>

record ('d, 'z, 'h, 'w) system =
  sys_libs :: "('d, 'z, 'h) libs"
  sys_env :: environment
  sys_get_entry :: "'w get_entry"
  sys_consts :: ext_consts

record ('d, 'z, 'h, 'w) zipfs =
  fs_index :: "'w index"
  fs_reader :: guarded_file
  fs_handles :: "('d, 'z, 'h) handle_table"
  fs_budget :: "('d, 'z) budget"
  fs_config :: config
  fs_stats :: build_stats
  fs_max_io :: nat

type_synonym ('d, 'z, 'h, 'w, 'a) fs_act = "(('d, 'z, 'h, 'w) zipfs, errno, 'a) act"

definition zipfs_new ::
  "ext_consts \<Rightarrow> nat \<Rightarrow> (zip_error + 'w zip_record) list \<Rightarrow> guarded_file \<Rightarrow> config \<Rightarrow> ('d, 'z, 'h, 'w) zipfs result" where
  "zipfs_new xc hint records reader c =
     (let c = clamp c in
      rbind (build xc hint records) (\<lambda>(idx, stats).
        Ok \<lparr> fs_index = idx, fs_reader = reader, fs_handles = handle_table_new, fs_budget = budget_new c,
             fs_config = c, fs_stats = stats, fs_max_io = MAX_IO \<rparr>))"

section \<open>Helpers\<close>

text \<open>The accessors of the index return no error; only a panic of theirs is one here.\<close>

definition no_error :: "('e, 'a) rust \<Rightarrow> ('f, 'a) rust" where
  "no_error m = (case m of Ok x \<Rightarrow> Ok x | Err e \<Rightarrow> Panic | Panic \<Rightarrow> Panic | Hang \<Rightarrow> Hang)"

definition put_meta :: "nat \<Rightarrow> 'w entry_meta \<Rightarrow> 'w index \<Rightarrow> 'w index" where
  "put_meta mi meta idx = idx\<lparr>metas := (metas idx)[mi := meta]\<rparr>"

definition io_errno :: "io_error \<Rightarrow> errno" where
  "io_errno e = (case raw_os_error e of Some n \<Rightarrow> n | None \<Rightarrow> EIO)"

definition readable :: "ext_consts \<Rightarrow> 'w entry_meta \<Rightarrow> errno + cmethod" where
  "readable xc meta =
     (if encrypted meta then Inl EACCES
      else case entry_method xc meta of None \<Rightarrow> Inl EOPNOTSUPP | Some m \<Rightarrow> Inr m)"

definition diagnose ::
  "('d, 'z, 'h, 'w) system \<Rightarrow> errno \<Rightarrow> ('d, 'z, 'h, 'w) zipfs \<Rightarrow> ('d, 'z, 'h, 'w) zipfs \<times> errno" where
  "diagnose S e s =
     (if e = EIO then
        (case archive_check (sys_env S) (fs_reader s) of
           (g, fresh) \<Rightarrow> (s\<lparr>fs_reader := g\<rparr>, if fresh = Stale then ESTALE else e))
      else (s, e))"

definition reply_error :: "('d, 'z, 'h, 'w) system \<Rightarrow> errno \<Rightarrow> ('d, 'z, 'h, 'w, 'a) fs_act" where
  "reply_error S e s = (case diagnose S e s of (s, e) \<Rightarrow> (s, Err e))"

definition locate :: "('d, 'z, 'h, 'w) system \<Rightarrow> nat \<Rightarrow> ('d, 'z, 'h, 'w, entry_location) fs_act" where
  "locate S mi = (\<lambda>s.
     let meta = metas (fs_index s) ! mi in
     if is_stale (fs_reader s) then (s, Err ESTALE)
     else case readable (sys_consts S) meta of
       Inl e \<Rightarrow> (s, Err e)
     | Inr m \<Rightarrow>
         if m = Store \<and> compressed_size meta \<noteq> uncompressed_size meta then (s, Err EIO)
         else case resolve_start (sys_get_entry S) (fs_reader s, meta) of
           ((g, meta'), r) \<Rightarrow>
             let s = s\<lparr>fs_reader := g, fs_index := put_meta mi meta' (fs_index s)\<rparr> in
             case r of
               Ok start \<Rightarrow> (s, Ok \<lparr> loc_data_start = start, loc_compressed_size = compressed_size meta, loc_method = m \<rparr>)
             | Err e \<Rightarrow> (s, Err (error_errno e)) | Panic \<Rightarrow> (s, Panic) | Hang \<Rightarrow> (s, Hang))"

definition overflow_error :: io_error where
  "overflow_error = \<lparr> io_kind_of = InvalidInput, raw_os_error = None \<rparr>"

definition read_direct :: "environment \<Rightarrow> entry_location \<Rightarrow> nat \<Rightarrow> nat \<Rightarrow> bytes guard_act" where
  "read_direct env loc offset n = (\<lambda>g.
     case checked_add_u64 offset n of
       None \<Rightarrow> (g, Err overflow_error)
     | Some stop \<Rightarrow>
         if stop > loc_compressed_size loc then (g, Err overflow_error)
         else case checked_add_u64 (loc_data_start loc) offset of
           None \<Rightarrow> (g, Err overflow_error)
         | Some absolute \<Rightarrow>
             (case checked_add_u64 absolute n of
                None \<Rightarrow> (g, Err overflow_error)
              | Some _ \<Rightarrow> archive_read_at env n absolute g))"

text \<open>Check a decoder out of a pool, read, and let the guard give it back.\<close>

definition pool_read ::
  "('d, 'z, 'h) libs \<Rightarrow> environment \<Rightarrow> nat \<Rightarrow> bytes
     \<Rightarrow> (guarded_file \<times> ('d, 'z) budget \<times> ('d, 'z, 'h) entry_pool \<times> 'w entry_meta, io_error, nat \<times> bytes) act" where
  "pool_read L env offset out = (\<lambda>(g, b, p, meta).
     case checkout L offset (b, p) of
       ((b, p), Ok d) \<Rightarrow>
         (case decoder_read_at L env offset out (g, d, meta) of
            ((g, d, meta), r) \<Rightarrow> (case give_back d (b, p) of (b, p) \<Rightarrow> ((g, b, p, meta), r)))
     | ((b, p), Err e) \<Rightarrow> ((g, b, p, meta), Err e)
     | ((b, p), Panic) \<Rightarrow> ((g, b, p, meta), Panic)
     | ((b, p), Hang) \<Rightarrow> ((g, b, p, meta), Hang))"

definition verify_stored :: "('d, 'z, 'h, 'w) system \<Rightarrow> nat \<Rightarrow> bytes \<Rightarrow> ('d, 'z, 'h, 'w, unit) fs_act" where
  "verify_stored S mi data s =
     (if \<not> bg_verify (fs_budget s) then (s, Ok ())
      else
        let L = sys_libs S; meta = metas (fs_index s) ! mi;
            matches = (crc_finalize L (crc_update L (crc_new L) data) = crc32 meta);
            s = s\<lparr>fs_index := put_meta mi (meta\<lparr>verify_state := (if matches then VERIFY_OK else VERIFY_BAD)\<rparr>) (fs_index s)\<rparr>
        in if matches then (s, Ok ()) else (s, Err EIO))"

text \<open>A pool for one read of a whole entry, dropped after it.\<close>

definition read_once ::
  "('d, 'z, 'h, 'w) system \<Rightarrow> nat \<Rightarrow> entry_location \<Rightarrow> bytes \<Rightarrow> ('d, 'z, 'h, 'w, nat \<times> bytes) fs_act" where
  "read_once S mi loc out s =
     (case pool_read (sys_libs S) (sys_env S) 0 out (fs_reader s, fs_budget s, pool_new loc 1, metas (fs_index s) ! mi) of
        ((g, b, p, meta), r) \<Rightarrow>
          (s\<lparr>fs_reader := g, fs_budget := pool_drop p b, fs_index := put_meta mi meta (fs_index s)\<rparr>,
           case r of Ok x \<Rightarrow> Ok x | Err e \<Rightarrow> Err (io_errno e) | Panic \<Rightarrow> Panic | Hang \<Rightarrow> Hang))"

definition read_all :: "('d, 'z, 'h, 'w) system \<Rightarrow> nat \<Rightarrow> nat \<Rightarrow> ('d, 'z, 'h, 'w, bytes) fs_act" where
  "read_all S mi limit = (\<lambda>s.
     if verify_state (metas (fs_index s) ! mi) = VERIFY_BAD then (s, Err EIO)
     else sbind (locate S mi) (\<lambda>loc s.
       let meta = metas (fs_index s) ! mi in
       case try_usize (uncompressed_size meta) of
         None \<Rightarrow> (s, Err EIO)
       | Some sz \<Rightarrow>
           if sz > limit then (s, Err EIO)
           else
             let out = replicate sz 0 in
             if sz = 0 then
               (if loc_method loc = Store
                then sbind (verify_stored S mi out) (\<lambda>u s. (s, Ok out)) s
                else sbind (read_once S mi loc out) (\<lambda>r s. (s, Ok (snd r))) s)
             else if loc_method loc = Store then
               (case read_direct (sys_env S) loc 0 sz (fs_reader s) of
                  (g, Ok out) \<Rightarrow> sbind (verify_stored S mi out) (\<lambda>u s. (s, Ok out)) (s\<lparr>fs_reader := g\<rparr>)
                | (g, Err e) \<Rightarrow> (s\<lparr>fs_reader := g\<rparr>, Err EIO)
                | (g, Panic) \<Rightarrow> (s\<lparr>fs_reader := g\<rparr>, Panic)
                | (g, Hang) \<Rightarrow> (s\<lparr>fs_reader := g\<rparr>, Hang))
             else sbind (read_once S mi loc out) (\<lambda>(n, out) s. (s, if n \<noteq> sz then Err EIO else Ok out)) s) s)"

definition attr_of :: "('d, 'z, 'h, 'w) zipfs \<Rightarrow> nat \<Rightarrow> file_attr option" where
  "attr_of s ino = map_option (\<lambda>nd. file_attr (fs_index s) ino nd (fs_config s)) (node_of (fs_index s) ino)"

section \<open>Replies\<close>

record dirent =
  de_ino :: nat
  de_offset :: nat
  de_kind :: file_type
  de_name :: bytes

record direntplus =
  dp_ino :: nat
  dp_offset :: nat
  dp_name :: bytes
  dp_ttl :: nat
  dp_attr :: file_attr

datatype open_flag = FOPEN_KEEP_CACHE | FOPEN_CACHE_DIR

datatype reply =
    ReplyOk
  | ReplyEntry nat file_attr                 \<comment> \<open>time to live and attributes; the generation is zero\<close>
  | ReplyAttr nat file_attr
  | ReplyData bytes
  | ReplyOpened nat open_flag
  | ReplyDirectory "dirent list"
  | ReplyDirectoryPlus "direntplus list"
  | ReplyStatfs nat nat nat nat nat nat nat nat

section \<open>Handlers\<close>

text \<open>\<open>init\<close>: the capabilities to ask for are those wanted that the kernel has.\<close>

datatype init_flag =
    FUSE_ASYNC_READ | FUSE_PARALLEL_DIROPS | FUSE_DO_READDIRPLUS | FUSE_READDIRPLUS_AUTO | FUSE_MAX_PAGES
  | FUSE_BIG_WRITES | FUSE_CACHE_SYMLINKS

definition WANTED :: "init_flag list" where
  "WANTED = [FUSE_ASYNC_READ, FUSE_PARALLEL_DIROPS, FUSE_DO_READDIRPLUS, FUSE_READDIRPLUS_AUTO, FUSE_MAX_PAGES,
     FUSE_BIG_WRITES, FUSE_CACHE_SYMLINKS]"

text \<open>
  \<open>set_max_write\<close> is the answer of \<open>KernelConfig::set_max_write(MAX_IO)\<close>: the old value, or the
  nearest value it accepts.
\<close>

definition fs_init ::
  "init_flag list \<Rightarrow> nat + nat \<Rightarrow> ('d, 'z, 'h, 'w) zipfs \<Rightarrow> ('d, 'z, 'h, 'w) zipfs \<times> init_flag list" where
  "fs_init available set_max_write s =
     (let added = filter (\<lambda>f. f \<in> set available) WANTED;
          max_write = (case set_max_write of Inr v \<Rightarrow> v | Inl v \<Rightarrow> v)
      in (s\<lparr>fs_max_io := max max_write MAX_IO\<rparr>, added))"

definition fs_lookup :: "nat \<Rightarrow> bytes \<Rightarrow> ('d, 'z, 'h, 'w, reply) fs_act" where
  "fs_lookup par nm s =
     (s, rbind (no_error (lookup (fs_index s) par nm)) (\<lambda>found.
        case found of
          Some ino \<Rightarrow> (case attr_of s ino of Some a \<Rightarrow> Ok (ReplyEntry (attr_ttl (fs_config s)) a) | None \<Rightarrow> Err ENOENT)
        | None \<Rightarrow> Err ENOENT))"

definition fs_getattr :: "nat \<Rightarrow> ('d, 'z, 'h, 'w, reply) fs_act" where
  "fs_getattr ino s =
     (s, case attr_of s ino of Some a \<Rightarrow> Ok (ReplyAttr (attr_ttl (fs_config s)) a) | None \<Rightarrow> Err ENOENT)"

definition fs_readlink :: "('d, 'z, 'h, 'w) system \<Rightarrow> nat \<Rightarrow> ('d, 'z, 'h, 'w, reply) fs_act" where
  "fs_readlink S ino s =
     (case node_of (fs_index s) ino of
        None \<Rightarrow> (s, Err ENOENT)
      | Some nd \<Rightarrow>
          if kind nd \<noteq> Symlink then (s, Err EINVAL)
          else case meta_of (fs_index s) nd of
            None \<Rightarrow> (s, Err EIO)
          | Some meta \<Rightarrow>
              (case symlink (fs_index s) (symlink_slot meta) of
                 Some target \<Rightarrow> (s, Ok (ReplyData target))
               | None \<Rightarrow>
                   (case read_all S (meta_idx nd) MAX_SYMLINK s of
                      (s, Ok target) \<Rightarrow>
                        (case set_symlink (fs_index s) (symlink_slot meta) target of
                           (idx, Some target) \<Rightarrow> (s\<lparr>fs_index := idx\<rparr>, Ok (ReplyData target))
                         | (idx, None) \<Rightarrow> (s\<lparr>fs_index := idx\<rparr>, Err EIO))
                    | (s, Err e) \<Rightarrow> reply_error S e s
                    | (s, Panic) \<Rightarrow> (s, Panic)
                    | (s, Hang) \<Rightarrow> (s, Hang))))"

text \<open>The access mode of the open flags.\<close>

datatype acc_mode = O_RDONLY | O_WRONLY | O_RDWR

definition fs_open :: "('d, 'z, 'h, 'w) system \<Rightarrow> nat \<Rightarrow> acc_mode \<Rightarrow> ('d, 'z, 'h, 'w, reply) fs_act" where
  "fs_open S ino acc s =
     (case node_of (fs_index s) ino of
        None \<Rightarrow> (s, Err ENOENT)
      | Some nd \<Rightarrow>
          if kind nd = Dir then (s, Err EISDIR)
          else if acc \<noteq> O_RDONLY then (s, Err EROFS)
          else case meta_of (fs_index s) nd of
            None \<Rightarrow> (s, Err EIO)
          | Some meta \<Rightarrow>
              (case locate S (meta_idx nd) s of
                 (s, Ok loc) \<Rightarrow>
                   (case open_file_new (sys_libs S) (fs_index s) (fs_budget s) ino (meta_idx nd) loc (fs_config s) of
                      Ok f \<Rightarrow>
                        (case handle_insert f (fs_handles s) of
                           (t, fh) \<Rightarrow> (s\<lparr>fs_handles := t\<rparr>, Ok (ReplyOpened fh FOPEN_KEEP_CACHE)))
                    | Err e \<Rightarrow> (s, Err e) | Panic \<Rightarrow> (s, Panic) | Hang \<Rightarrow> (s, Hang))
               | (s, Err e) \<Rightarrow> reply_error S e s
               | (s, Panic) \<Rightarrow> (s, Panic)
               | (s, Hang) \<Rightarrow> (s, Hang)))"

text \<open>The three ways to read an open file; the result is the number of bytes and the buffer.\<close>

definition read_store_file ::
  "('d, 'z, 'h, 'w) system \<Rightarrow> nat \<Rightarrow> ('d, 'z, 'h) open_file \<Rightarrow> nat \<Rightarrow> nat \<Rightarrow> nat \<Rightarrow> nat
     \<Rightarrow> ('d, 'z, 'h, 'w, nat \<times> bytes) fs_act" where
  "read_store_file S fh f start csize offset want s =
     (let loc = \<lparr> loc_data_start = start, loc_compressed_size = csize, loc_method = Store \<rparr>;
          mi = of_meta_idx f in
      case read_direct (sys_env S) loc offset want (fs_reader s) of
        (g, Ok buf) \<Rightarrow>
          (case observe_store (sys_libs S) offset buf (f, metas (fs_index s) ! mi) of
             ((f, meta), good) \<Rightarrow>
               (s\<lparr>fs_reader := g, fs_handles := handle_put fh f (fs_handles s), fs_index := put_meta mi meta (fs_index s)\<rparr>,
                if good then Ok (length buf, buf) else Err EIO))
      | (g, Err e) \<Rightarrow> (s\<lparr>fs_reader := g\<rparr>, Err (io_errno e))
      | (g, Panic) \<Rightarrow> (s\<lparr>fs_reader := g\<rparr>, Panic)
      | (g, Hang) \<Rightarrow> (s\<lparr>fs_reader := g\<rparr>, Hang))"

definition read_coded_file ::
  "('d, 'z, 'h, 'w) system \<Rightarrow> nat \<Rightarrow> ('d, 'z, 'h) open_file \<Rightarrow> ('d, 'z, 'h) entry_pool \<Rightarrow> nat \<Rightarrow> nat
     \<Rightarrow> ('d, 'z, 'h, 'w, nat \<times> bytes) fs_act" where
  "read_coded_file S fh f p offset want s =
     (case pool_read (sys_libs S) (sys_env S) offset (replicate want 0)
             (fs_reader s, fs_budget s, p, metas (fs_index s) ! of_meta_idx f) of
        ((g, b, p, meta), r) \<Rightarrow>
          (s\<lparr>fs_reader := g, fs_budget := b, fs_handles := handle_put fh (f\<lparr>of_kind := CodedFile p\<rparr>) (fs_handles s),
             fs_index := put_meta (of_meta_idx f) meta (fs_index s)\<rparr>,
           case r of Ok x \<Rightarrow> Ok x | Err e \<Rightarrow> Err (io_errno e) | Panic \<Rightarrow> Panic | Hang \<Rightarrow> Hang))"

definition fs_read :: "('d, 'z, 'h, 'w) system \<Rightarrow> nat \<Rightarrow> nat \<Rightarrow> nat \<Rightarrow> ('d, 'z, 'h, 'w, reply) fs_act" where
  "fs_read S fh offset sz s =
     (case handle_get fh (fs_handles s) of
        None \<Rightarrow> (s, Err EBADF)
      | Some f \<Rightarrow>
          if is_stale (fs_reader s) then (s, Err ESTALE)
          else case open_meta (fs_index s) f of
            Ok meta \<Rightarrow>
              if verify_state meta = VERIFY_BAD then reply_error S EIO s
              else
                let available = of_size f - offset; want = min sz available in
                if want = 0 then (s, Ok (ReplyData []))
                else (case try_usize want of
                    None \<Rightarrow> (s, Err EOVERFLOW)
                  | Some want \<Rightarrow>
                      (case (case of_kind f of
                               EmptyFile \<Rightarrow> (s, Ok (0, replicate want 0))
                             | StoreFile start csize v \<Rightarrow> read_store_file S fh f start csize offset want s
                             | CodedFile p \<Rightarrow> read_coded_file S fh f p offset want s) of
                         (s, Ok (n, buf)) \<Rightarrow> (s, rbind (sub_slice buf 0 n) (\<lambda>bs. Ok (ReplyData bs)))
                       | (s, Err e) \<Rightarrow> reply_error S e s
                       | (s, Panic) \<Rightarrow> (s, Panic)
                       | (s, Hang) \<Rightarrow> (s, Hang)))
          | Err e \<Rightarrow> (s, Err e) | Panic \<Rightarrow> (s, Panic) | Hang \<Rightarrow> (s, Hang))"

text \<open>Removing the file drops it, and with it its pool.\<close>

definition fs_release :: "nat \<Rightarrow> ('d, 'z, 'h, 'w, reply) fs_act" where
  "fs_release fh s =
     (case handle_remove fh (fs_handles s) of
        (t, f) \<Rightarrow>
          (s\<lparr>fs_handles := t,
             fs_budget := (case map_option of_kind f of Some (CodedFile p) \<Rightarrow> pool_drop p (fs_budget s) | _ \<Rightarrow> fs_budget s)\<rparr>,
           Ok ReplyOk))"

definition fs_opendir :: "nat \<Rightarrow> ('d, 'z, 'h, 'w, reply) fs_act" where
  "fs_opendir ino s =
     (s, case node_of (fs_index s) ino of
           Some nd \<Rightarrow> if kind nd = Dir then Ok (ReplyOpened 0 FOPEN_CACHE_DIR) else Err ENOTDIR
         | None \<Rightarrow> Err ENOENT)"

text \<open>
  Directory listings. \<open>full es e\<close> is the answer of \<open>reply.add\<close> for the entry \<open>e\<close> when \<open>es\<close> were added
  before: true when the buffer has no room for it. \<open>add_children\<close> is the loop over the children.
\<close>

fun add_children ::
  "('e list \<Rightarrow> 'e \<Rightarrow> bool) \<Rightarrow> (nat \<Rightarrow> node \<Rightarrow> (errno, 'e) rust) \<Rightarrow> nat \<Rightarrow> node list \<Rightarrow> 'e list \<Rightarrow> (errno, 'e list) rust" where
  "add_children full mk i [] es = Ok es"
| "add_children full mk i (child # rest) es =
     rbind (mk i child) (\<lambda>e. if full es e then Ok es else add_children full mk (i + 1) rest (es @ [e]))"

definition DOT :: bytes where "DOT = [0x2E]"
definition DOTDOT :: bytes where "DOTDOT = [0x2E, 0x2E]"

text \<open>The first two cursors, then the children from \<open>offset - 2\<close> on.\<close>

definition list_dir ::
  "('e list \<Rightarrow> 'e \<Rightarrow> bool) \<Rightarrow> (nat \<Rightarrow> node \<Rightarrow> (errno, 'e) rust) \<Rightarrow> 'e \<Rightarrow> 'e \<Rightarrow> node list \<Rightarrow> nat \<Rightarrow> (errno, 'e list) rust" where
  "list_dir full mk dot dotdot kids offset =
     (if offset < 1 \<and> full [] dot then Ok []
      else
        let es = (if offset < 1 then [dot] else []) in
        if offset < 2 \<and> full es dotdot then Ok es
        else
          let es = (if offset < 2 then es @ [dotdot] else es);
              start = (case try_usize (offset - 2) of None \<Rightarrow> usize_max | Some n \<Rightarrow> n)
          in add_children full mk start (drop start kids) es)"

definition fs_readdir ::
  "(dirent list \<Rightarrow> dirent \<Rightarrow> bool) \<Rightarrow> nat \<Rightarrow> nat \<Rightarrow> ('d, 'z, 'h, 'w, reply) fs_act" where
  "fs_readdir full ino offset s =
     (s, case node_of (fs_index s) ino of
           None \<Rightarrow> Err ENOENT
         | Some nd \<Rightarrow>
             if kind nd \<noteq> Dir then Err ENOTDIR
             else
               let idx = fs_index s;
                   dot = \<lparr> de_ino = ino, de_offset = 1, de_kind = Directory, de_name = DOT \<rparr>;
                   dotdot = \<lparr> de_ino = parent nd, de_offset = 2, de_kind = Directory, de_name = DOTDOT \<rparr>;
                   mk = (\<lambda>i child. rbind (no_error (name_of idx child)) (\<lambda>nm.
                      Ok \<lparr> de_ino = first_child nd + i, de_offset = 3 + i, de_kind = file_type_of (kind child), de_name = nm \<rparr>))
               in rbind (no_error (children idx nd)) (\<lambda>kids.
                  rbind (list_dir full mk dot dotdot kids offset) (\<lambda>es. Ok (ReplyDirectory es))))"

definition fs_readdirplus ::
  "(direntplus list \<Rightarrow> direntplus \<Rightarrow> bool) \<Rightarrow> nat \<Rightarrow> nat \<Rightarrow> ('d, 'z, 'h, 'w, reply) fs_act" where
  "fs_readdirplus full ino offset s =
     (s, case node_of (fs_index s) ino of
           None \<Rightarrow> Err ENOENT
         | Some nd \<Rightarrow>
             if kind nd \<noteq> Dir then Err ENOTDIR
             else
               let idx = fs_index s; ttl = attr_ttl (fs_config s);
                   entry = (\<lambda>ino cursor nm node. \<lparr> dp_ino = ino, dp_offset = cursor, dp_name = nm, dp_ttl = ttl,
                      dp_attr = file_attr idx ino node (fs_config s) \<rparr>);
                   pnode = (case node_of idx (parent nd) of Some n \<Rightarrow> n | None \<Rightarrow> nd);
                   mk = (\<lambda>i child. rbind (no_error (name_of idx child)) (\<lambda>nm.
                      Ok (entry (first_child nd + i) (3 + i) nm child)))
               in rbind (no_error (children idx nd)) (\<lambda>kids.
                  rbind (list_dir full mk (entry ino 1 DOT nd) (entry (parent nd) 2 DOTDOT pnode) kids offset) (\<lambda>es.
                  Ok (ReplyDirectoryPlus es))))"

definition fs_releasedir :: "('d, 'z, 'h, 'w, reply) fs_act" where
  "fs_releasedir s = (s, Ok ReplyOk)"

definition fs_access :: "nat \<Rightarrow> ('d, 'z, 'h, 'w, reply) fs_act" where
  "fs_access ino s = (s, case node_of (fs_index s) ino of Some nd \<Rightarrow> Ok ReplyOk | None \<Rightarrow> Err ENOENT)"

definition fs_getxattr :: "('d, 'z, 'h, 'w, reply) fs_act" where
  "fs_getxattr s = (s, Err ENOSYS)"

definition fs_listxattr :: "('d, 'z, 'h, 'w, reply) fs_act" where
  "fs_listxattr s = (s, Err ENOSYS)"

definition fs_flush :: "('d, 'z, 'h, 'w, reply) fs_act" where
  "fs_flush s = (s, Ok ReplyOk)"

definition fs_fsync :: "('d, 'z, 'h, 'w, reply) fs_act" where
  "fs_fsync s = (s, Ok ReplyOk)"

definition fs_fsyncdir :: "('d, 'z, 'h, 'w, reply) fs_act" where
  "fs_fsyncdir s = (s, Ok ReplyOk)"

definition fs_statfs :: "('d, 'z, 'h, 'w, reply) fs_act" where
  "fs_statfs s =
     (s, Ok (ReplyStatfs (div_ceil (total_uncompressed (fs_index s)) 512) 0 0 (len (fs_index s)) 0 512 255 0))"

section \<open>Requests\<close>

text \<open>What the kernel can ask, and the dispatch of \<open>fuser\<close> to the handlers.\<close>

datatype request =
    Lookup nat bytes | Getattr nat | Readlink nat | Open nat acc_mode | Read nat nat nat | Release nat
  | Opendir nat | Readdir "dirent list \<Rightarrow> dirent \<Rightarrow> bool" nat nat
  | Readdirplus "direntplus list \<Rightarrow> direntplus \<Rightarrow> bool" nat nat
  | Releasedir | Access nat | Getxattr | Listxattr | Flush | Fsync | Fsyncdir | Statfs

fun serve :: "('d, 'z, 'h, 'w) system \<Rightarrow> request \<Rightarrow> ('d, 'z, 'h, 'w, reply) fs_act" where
  "serve S (Lookup par nm) = fs_lookup par nm"
| "serve S (Getattr ino) = fs_getattr ino"
| "serve S (Readlink ino) = fs_readlink S ino"
| "serve S (Open ino acc) = fs_open S ino acc"
| "serve S (Read fh offset sz) = fs_read S fh offset sz"
| "serve S (Release fh) = fs_release fh"
| "serve S (Opendir ino) = fs_opendir ino"
| "serve S (Readdir full ino offset) = fs_readdir full ino offset"
| "serve S (Readdirplus full ino offset) = fs_readdirplus full ino offset"
| "serve S Releasedir = fs_releasedir"
| "serve S (Access ino) = fs_access ino"
| "serve S Getxattr = fs_getxattr"
| "serve S Listxattr = fs_listxattr"
| "serve S Flush = fs_flush"
| "serve S Fsync = fs_fsync"
| "serve S Fsyncdir = fs_fsyncdir"
| "serve S Statfs = fs_statfs"

fun serve_all :: "('d, 'z, 'h, 'w) system \<Rightarrow> request list \<Rightarrow> ('d, 'z, 'h, 'w) zipfs \<Rightarrow> ('d, 'z, 'h, 'w) zipfs \<times> (errno, reply) rust list" where
  "serve_all S [] s = (s, [])"
| "serve_all S (q # qs) s =
     (case serve S q s of (s, r) \<Rightarrow> case serve_all S qs s of (s, rs) \<Rightarrow> (s, r # rs))"

end
