(* ===== verification/Handle_Correct.thy ===== *)
theory Handle_Correct
  imports Handle
begin

text \<open>
  The handle table keeps every open file until it is released, and the running checksum of a stored
  entry judges it only after seeing all of it in order.
\<close>

section \<open>The interface of the table\<close>

text \<open>
  \<open>room\<close> is the number of handles that can be handed out before the counter wraps around.
\<close>

locale handle_store =
  fixes insert :: "'f \<Rightarrow> 't \<Rightarrow> 't \<times> nat" and lookup :: "nat \<Rightarrow> 't \<Rightarrow> 'f option"
    and remove :: "nat \<Rightarrow> 't \<Rightarrow> 't \<times> 'f option" and wf :: "'t \<Rightarrow> bool" and room :: "'t \<Rightarrow> nat"
  assumes lookup_insert: "insert f t = (t', fh) \<Longrightarrow> lookup x t' = (if x = fh then Some f else lookup x t)"
    and insert_fresh: "wf t \<Longrightarrow> insert f t = (t', fh) \<Longrightarrow> lookup fh t = None \<and> fh \<noteq> 0"
    and insert_wf: "wf t \<Longrightarrow> insert f t = (t', fh) \<Longrightarrow> 0 < room t \<Longrightarrow> wf t' \<and> room t = Suc (room t')"
    and lookup_remove: "remove fh t = (t', r) \<Longrightarrow> r = lookup fh t \<and> lookup x t' = (if x = fh then None else lookup x t)"
    and remove_wf: "wf t \<Longrightarrow> remove fh t = (t', r) \<Longrightarrow> wf t' \<and> room t' = room t"

datatype 'f handle_op = OpenHandle 'f | ReleaseHandle nat

fun run_handles :: "('f \<Rightarrow> 't \<Rightarrow> 't \<times> nat) \<Rightarrow> (nat \<Rightarrow> 't \<Rightarrow> 't \<times> 'f option) \<Rightarrow> 'f handle_op list \<Rightarrow> 't \<Rightarrow> 't" where
  "run_handles ins rem [] t = t"
| "run_handles ins rem (OpenHandle f # xs) t = run_handles ins rem xs (fst (ins f t))"
| "run_handles ins rem (ReleaseHandle fh # xs) t = run_handles ins rem xs (fst (rem fh t))"

fun opens :: "'f handle_op list \<Rightarrow> nat" where
  "opens [] = 0"
| "opens (OpenHandle f # xs) = Suc (opens xs)"
| "opens (ReleaseHandle fh # xs) = opens xs"

context handle_store
begin

lemma run_keeps:
  assumes "wf t" and "lookup fh t = Some f" and "opens xs \<le> room t" and "ReleaseHandle fh \<notin> set xs"
  shows "lookup fh (run_handles insert remove xs t) = Some f"
  using assms
proof (induction xs arbitrary: t)
  case (Cons x xs)
  show ?case
  proof (cases x)
    case (OpenHandle h)
    obtain t' fh' where i: "insert h t = (t', fh')" by (cases "insert h t")
    from Cons.prems OpenHandle insert_wf [OF _ i] have "wf t'" "opens xs \<le> room t'" by auto
    moreover have "lookup fh t' = Some f" using insert_fresh [OF Cons.prems(1) i] lookup_insert [OF i] Cons.prems(2) by auto
    ultimately show ?thesis using Cons.IH [of t'] Cons.prems(4) OpenHandle i by simp
  next
    case (ReleaseHandle k)
    obtain t' r where r: "remove k t = (t', r)" by (cases "remove k t")
    from remove_wf [OF Cons.prems(1) r] have "wf t'" "room t' = room t" by auto
    moreover have "lookup fh t' = Some f" using lookup_remove [OF r] Cons.prems(2,4) ReleaseHandle by auto
    ultimately show ?thesis using Cons.IH [of t'] Cons.prems(3,4) ReleaseHandle r by simp
  qed
qed simp

lemma open_stays:
  assumes "wf t" and "insert f t = (t', fh)" and "opens xs < room t" and "ReleaseHandle fh \<notin> set xs"
  shows "fh \<noteq> 0 \<and> lookup fh t = None \<and> lookup fh (run_handles insert remove xs t') = Some f"
proof -
  from insert_wf [OF assms(1,2)] assms(3) have "wf t'" "opens xs \<le> room t'" by auto
  moreover have "lookup fh t' = Some f" using lookup_insert [OF assms(2)] by simp
  ultimately show ?thesis using run_keeps [of t'] insert_fresh [OF assms(1,2)] assms(4) by blast
qed

end

definition table_wf :: "('d, 'z, 'h) handle_table \<Rightarrow> bool" where
  "table_wf t \<longleftrightarrow> 0 < ht_next t \<and> ht_next t \<le> u64_max \<and> (\<forall>fh \<in> fst ` set (ht_map t). fh < ht_next t)
     \<and> distinct (map fst (ht_map t))"

definition table_room :: "('d, 'z, 'h) handle_table \<Rightarrow> nat" where
  "table_room t = u64_max - ht_next t"

interpretation table: handle_store handle_insert handle_get handle_remove table_wf table_room
proof
  fix f t t' fh x
  assume i: "handle_insert f t = (t', fh)"
  then show "handle_get x t' = (if x = fh then Some f else handle_get x t)"
    by (auto simp: handle_insert_def handle_get_def Let_def update_conv')
  assume wf: "table_wf t"
  show "handle_get fh t = None \<and> fh \<noteq> 0"
    using i wf by (auto simp: handle_insert_def handle_get_def Let_def table_wf_def map_of_eq_None_iff)
  show "table_wf t' \<and> table_room t = Suc (table_room t')" if "0 < table_room t"
  proof -
    have n: "wrapping_add_u64 (ht_next t) 1 = ht_next t + 1" "ht_next t < u64_max"
      using that by (simp_all add: table_room_def wrapping_add_u64_def)
    then have t': "t' = t\<lparr>ht_next := ht_next t + 1, ht_map := AList.update (ht_next t) f (ht_map t)\<rparr>"
      using i by (auto simp: handle_insert_def Let_def)
    have "fh < ht_next t + 1" if "fh \<in> fst ` set (AList.update (ht_next t) f (ht_map t))" for fh
      using that wf dom_update [of "ht_next t" f "ht_map t"] by (auto simp: table_wf_def)
    then show ?thesis using wf n(2) by (simp add: t' table_wf_def table_room_def distinct_update Suc_diff_Suc)
  qed
next
  fix fh t t' r x
  assume rm: "handle_remove fh t = (t', r :: ('a, 'b, 'c) open_file option)"
  then show "r = handle_get fh t \<and> handle_get x t' = (if x = fh then None else handle_get x t)"
    by (auto simp: handle_remove_def handle_get_def delete_conv')
  assume "table_wf t"
  then show "table_wf t' \<and> table_room t' = table_room t"
    using rm AList.distinct_delete [of "ht_map t" fh] by (fastforce simp: handle_remove_def table_wf_def table_room_def AList.delete_eq)
qed

text \<open>
  C24. A handle is never zero and never in use when it is handed out, and from then on it names its
  file until it is released, whatever else is opened and released, as long as fewer than \<open>2 ^ 64\<close>
  files were opened in all.
\<close>

theorem handle_stays_valid:
  assumes "table_wf t" and "handle_insert f t = (t', fh)" and "opens xs < u64_max - ht_next t"
    and "ReleaseHandle fh \<notin> set xs"
  shows "fh \<noteq> 0 \<and> handle_get fh t = None \<and> handle_get fh (run_handles handle_insert handle_remove xs t') = Some f"
  using table.open_stays [OF assms(1,2) _ assms(4)] assms(3) by (simp add: table_room_def)

definition sample_file :: "(nat, unit, bytes) open_file" where
  "sample_file = \<lparr> of_ino = 2, of_meta_idx = 0, of_size = 3, of_kind = CodedFile (pool_new sample_loc 4) \<rparr>"

text \<open>C24 on a new table.\<close>

theorem handle_stays_valid_witness:
  "handle_get 1 (run_handles handle_insert handle_remove [OpenHandle sample_file, ReleaseHandle 2]
     (fst (handle_insert sample_file handle_table_new))) = Some sample_file"
proof -
  have wf: "table_wf handle_table_new" by (simp add: table_wf_def handle_table_new_def)
  have "handle_insert sample_file handle_table_new = (fst (handle_insert sample_file handle_table_new), 1)"
    by (simp add: handle_insert_def handle_table_new_def Let_def)
  from handle_stays_valid [OF wf this, of "[OpenHandle sample_file, ReleaseHandle 2]"] show ?thesis
    by (simp add: handle_table_new_def)
qed

section \<open>The running checksum of a stored entry\<close>

definition sv_wf :: "(bytes \<Rightarrow> 'h) \<Rightarrow> bytes \<Rightarrow> 'h store_verify \<Rightarrow> bool" where
  "sv_wf hashed D v \<longleftrightarrow> sv_disabled v \<or> sv_pos v \<le> length D \<and> sv_crc v = hashed (take (sv_pos v) D)"

lemma store_verify_new_wf: "crc_laws L hashed crc \<Longrightarrow> sv_wf hashed D (store_verify_new L)"
  by (simp add: sv_wf_def store_verify_new_def crc_laws_def)

text \<open>What a block of the entry's content can do to the entry: judge it, and rightly.\<close>

definition judged :: "(bytes \<Rightarrow> u32) \<Rightarrow> bytes \<Rightarrow> 'w entry_meta \<Rightarrow> 'w entry_meta \<Rightarrow> bool" where
  "judged crc D meta meta' \<longleftrightarrow> (\<exists>vs. meta' = meta\<lparr>verify_state := vs\<rparr>
     \<and> (vs = verify_state meta \<or> vs = VERIFY_OK \<and> crc D = crc32 meta \<or> vs = VERIFY_BAD \<and> crc D \<noteq> crc32 meta))"

lemma judged_refl [simp]: "judged crc D meta meta"
  unfolding judged_def by (rule exI [of _ "verify_state meta"]) simp

lemma observe_ok:
  assumes laws: "crc_laws L hashed crc" and wf: "sv_wf hashed D v" and slice: "slice_at D offset data"
    and size: "length D \<le> uncompressed_size meta" "length D \<le> u64_max"
    and eq: "observe L offset data (v, meta) = ((v', meta'), b)"
  shows "sv_wf hashed D v'" and "judged crc D meta meta'" and "\<not> b \<Longrightarrow> crc D \<noteq> crc32 meta"
proof -
  have "sv_wf hashed D v' \<and> judged crc D meta meta' \<and> (\<not> b \<longrightarrow> crc D \<noteq> crc32 meta)"
  proof (cases "sv_disabled v \<or> offset \<noteq> sv_pos v")
    case True
    then have "v' = v\<lparr>sv_disabled := True\<rparr>" "meta' = meta" "b" using eq by (auto simp: observe_def)
    then show ?thesis by (simp add: sv_wf_def)
  next
    case False
    then have pos: "offset = sv_pos v" and crc: "sv_crc v = hashed (take offset D)" using wf by (auto simp: sv_wf_def)
    have len: "offset + length data \<le> length D" by (rule slice_at_length [OF slice])
    have p: "wrapping_add_u64 offset (length data) = offset + length data" using len size by (simp add: wrapping_add_u64_def)
    have "take offset D @ data = take (offset + length data) D" using slice_at_take_append [OF slice, of "length data"] by simp
    then have c: "crc_update L (hashed (take offset D)) data = hashed (take (offset + length data) D)"
      using laws by (simp add: crc_laws_def)
    show ?thesis
    proof (cases "offset + length data < uncompressed_size meta")
      case True
      then have "v' = v\<lparr>sv_crc := hashed (take (offset + length data) D), sv_pos := offset + length data\<rparr>" "meta' = meta" "b"
        using eq False pos crc p c by (auto simp: observe_def Let_def)
      then show ?thesis using len by (simp add: sv_wf_def)
    next
      case ended: False
      then have "take (offset + length data) D = D" using size len by simp
      then have f: "crc_finalize L (hashed (take (offset + length data) D)) = crc D" using laws by (simp add: crc_laws_def)
      then have "sv_disabled v'" "b = (crc D = crc32 meta)"
        "meta' = meta\<lparr>verify_state := (if crc D = crc32 meta then VERIFY_OK else VERIFY_BAD)\<rparr>"
        using eq False pos crc p c ended by (auto simp: observe_def Let_def)
      then show ?thesis by (auto simp: sv_wf_def judged_def)
    qed
  qed
  then show "sv_wf hashed D v'" and "judged crc D meta meta'" and "\<not> b \<Longrightarrow> crc D \<noteq> crc32 meta" by blast+
qed

end
