(* ===== verification/Fs_Inv.thy ===== *)
theory Fs_Inv
  imports Fs Handle_Correct
begin

text \<open>
  The invariant of a mount and what every request keeps: the tree, the entries but for what is learnt
  of them, and open files whose state belongs to their entry.
\<close>

section \<open>The setting of a mount\<close>

text \<open>
  What the archive held when it was opened, what its codecs decode to, and the checksum function; the
  hypotheses on the system and the crates over them.
\<close>

record ('d, 'z, 'h) mount_spec =
  ms_opened :: stamp
  ms_content :: bytes
  ms_hist :: "('d, 'z) codec \<Rightarrow> bytes \<Rightarrow> bytes \<Rightarrow> bool"
  ms_inflate :: "bytes \<Rightarrow> bytes"
  ms_unzstd :: "bytes \<Rightarrow> bytes"
  ms_hashed :: "bytes \<Rightarrow> 'h"
  ms_crc :: "bytes \<Rightarrow> u32"

abbreviation ms_decode :: "('d, 'z, 'h) mount_spec \<Rightarrow> ('d, 'z) codec \<Rightarrow> bytes \<Rightarrow> bytes" where
  "ms_decode M \<equiv> codec_decode (ms_inflate M) (ms_unzstd M)"

abbreviation ms_pool_wf :: "('d, 'z, 'h) mount_spec \<Rightarrow> ('d, 'z, 'h) entry_pool \<Rightarrow> bool" where
  "ms_pool_wf M \<equiv> pool_wf (ms_hist M) (ms_decode M) (ms_hashed M) (ms_content M)"

definition spec_ok :: "('d, 'z, 'h, 'w) system \<Rightarrow> ('d, 'z, 'h) mount_spec \<Rightarrow> bool" where
  "spec_ok S M \<longleftrightarrow> sound_libs (sys_libs S) (ms_hist M) (ms_decode M) (ms_hashed M) (ms_crc M)
     \<and> honest (sys_env S) (ms_opened M) (ms_content M) \<and> entry_lookup (sys_get_entry S) \<and> zstd_new (sys_libs S) \<noteq> None"

definition loc_content :: "('d, 'z, 'h) mount_spec \<Rightarrow> entry_location \<Rightarrow> bytes" where
  "loc_content M loc = entry_content (ms_inflate M) (ms_unzstd M) (ms_content M) loc"

text \<open>Where an entry's record says it is, once its start is known.\<close>

definition loc_of :: "'w entry_meta \<Rightarrow> cmethod \<Rightarrow> entry_location" where
  "loc_of meta m = \<lparr> loc_data_start = data_start meta, loc_compressed_size = compressed_size meta, loc_method = m \<rparr>"

section \<open>What is learnt of an entry\<close>

text \<open>Only the start of the data, once, and the verification state of an entry ever change.\<close>

definition meta_le :: "'w entry_meta \<Rightarrow> 'w entry_meta \<Rightarrow> bool" where
  "meta_le m m' \<longleftrightarrow> (\<exists>n v. m' = m\<lparr>data_start := n, verify_state := v\<rparr>) \<and> (data_start m \<noteq> u64_max \<longrightarrow> data_start m' = data_start m)
     \<and> (start_wf m \<longrightarrow> start_wf m')"

definition index_le :: "'w index \<Rightarrow> 'w index \<Rightarrow> bool" where
  "index_le idx idx' \<longleftrightarrow> nodes idx' = nodes idx \<and> names idx' = names idx \<and> total_uncompressed idx' = total_uncompressed idx
     \<and> list_all2 meta_le (metas idx) (metas idx') \<and> length (symlinks idx') = length (symlinks idx)
     \<and> (\<forall>i t. symlink idx i = Some t \<longrightarrow> symlink idx' i = Some t)"

lemma meta_le_refl [simp]: "meta_le m m"
  unfolding meta_le_def by (intro conjI exI [of _ "data_start m"] exI [of _ "verify_state m"]) simp_all

lemma meta_le_trans: "meta_le a b \<Longrightarrow> meta_le b c \<Longrightarrow> meta_le a c"
proof -
  assume ab: "meta_le a b" and bc: "meta_le b c"
  from ab obtain n v where b: "b = a\<lparr>data_start := n, verify_state := v\<rparr>" by (auto simp: meta_le_def)
  from bc obtain n' v' where c: "c = b\<lparr>data_start := n', verify_state := v'\<rparr>" by (auto simp: meta_le_def)
  have "c = a\<lparr>data_start := n', verify_state := v'\<rparr>" by (simp add: b c)
  moreover have "data_start a \<noteq> u64_max \<longrightarrow> data_start c = data_start a" "start_wf a \<longrightarrow> start_wf c"
    using ab bc by (simp_all add: meta_le_def)
  ultimately show "meta_le a c" unfolding meta_le_def by blast
qed

lemma meta_le_verify [simp]: "meta_le m (m\<lparr>verify_state := v\<rparr>)"
  unfolding meta_le_def by (intro conjI exI [of _ "data_start m"] exI [of _ v]) (simp_all add: start_wf_def)

lemma index_le_refl [simp]: "index_le idx idx"
  by (simp add: index_le_def list_all2_refl)

lemma index_le_trans: "index_le a b \<Longrightarrow> index_le b c \<Longrightarrow> index_le a c"
  unfolding index_le_def using list_all2_trans [of meta_le meta_le meta_le] meta_le_trans by metis

lemma index_le_length: "index_le a b \<Longrightarrow> length (metas b) = length (metas a)"
  unfolding index_le_def by (metis list_all2_lengthD)

lemma index_le_nth: "index_le a b \<Longrightarrow> i < length (metas a) \<Longrightarrow> meta_le (metas a ! i) (metas b ! i)"
  by (simp add: index_le_def list_all2_nthD)

lemma index_le_node: "index_le a b \<Longrightarrow> node_of b i = node_of a i"
  unfolding index_le_def node_of_def by presburger

lemma put_meta_le: "i < length (metas idx) \<Longrightarrow> meta_le (metas idx ! i) m \<Longrightarrow> index_le idx (put_meta i m idx)"
  by (auto simp: index_le_def put_meta_def symlink_def list_all2_conv_all_nth nth_list_update)

lemma meta_le_fields:
  assumes "meta_le m m'"
  shows "uncompressed_size m' = uncompressed_size m" and "compressed_size m' = compressed_size m"
    and "crc32 m' = crc32 m" and "symlink_slot m' = symlink_slot m" and "entry_method xc m' = entry_method xc m"
    and "encrypted m' = encrypted m" and "wayfinder m' = wayfinder m"
  using assms by (auto simp: meta_le_def entry_method_def)

lemma index_le_wf: "index_le a b \<Longrightarrow> index_wf a \<Longrightarrow> index_wf b"
proof -
  assume le: "index_le a b" and wf: "index_wf a"
  have eq: "nodes b = nodes a" "names b = names a" "length (metas b) = length (metas a)" "length (symlinks b) = length (symlinks a)"
    using le index_le_length [OF le] by (simp_all add: index_le_def)
  have "symlink_slot (metas b ! i) = symlink_slot (metas a ! i)" if "i < length (metas a)" for i
    using meta_le_fields(4) [OF index_le_nth [OF le that]] .
  moreover have "\<not> synthetic (flags nd) \<longrightarrow> meta_idx nd < length (metas a)"
    if "i \<in> set [1..<length (nodes a)]" "nd = nodes a ! i" for i nd
    using wf that by (auto simp: index_wf_def list_all_iff entry_wf_def Let_def split: if_splits)
  moreover have "ino_name b = ino_name a" using eq by (auto simp: ino_name_def)
  ultimately show "index_wf b" using wf unfolding index_wf_def list_all_iff
    by (auto simp: eq kids_wf_def place_wf_def entry_wf_def Let_def split: if_splits)
qed

section \<open>Open files and the invariant\<close>

text \<open>
  A location belongs to an entry. The start of an entry without data does not matter, and it is the
  only one that can be taken for unknown.
\<close>

definition located :: "ext_consts \<Rightarrow> entry_location \<Rightarrow> 'w entry_meta \<Rightarrow> bool" where
  "located xc loc meta \<longleftrightarrow> loc_compressed_size loc = compressed_size meta \<and> entry_method xc meta = Some (loc_method loc)
     \<and> \<not> encrypted meta \<and> loc_data_start loc + loc_compressed_size loc \<le> u64_max
     \<and> (compressed_size meta = 0 \<or> loc_data_start loc = data_start meta)"

definition store_loc :: "nat \<Rightarrow> nat \<Rightarrow> entry_location" where
  "store_loc start csize = \<lparr> loc_data_start = start, loc_compressed_size = csize, loc_method = Store \<rparr>"

fun kind_wf :: "('d, 'z, 'h) mount_spec \<Rightarrow> ext_consts \<Rightarrow> 'w entry_meta \<Rightarrow> ('d, 'z, 'h) open_kind \<Rightarrow> bool" where
  "kind_wf M xc meta EmptyFile \<longleftrightarrow> uncompressed_size meta = 0"
| "kind_wf M xc meta (StoreFile start csize v) \<longleftrightarrow> located xc (store_loc start csize) meta \<and> csize = uncompressed_size meta
     \<and> (\<forall>x. v = Some x \<longrightarrow> sv_wf (ms_hashed M) (loc_content M (store_loc start csize)) x)"
| "kind_wf M xc meta (CodedFile p) \<longleftrightarrow> located xc (pl_loc p) meta \<and> ms_pool_wf M p"

definition file_wf :: "('d, 'z, 'h) mount_spec \<Rightarrow> ext_consts \<Rightarrow> 'w index \<Rightarrow> ('d, 'z, 'h) open_file \<Rightarrow> bool" where
  "file_wf M xc idx f \<longleftrightarrow> of_meta_idx f < length (metas idx) \<and> of_size f = uncompressed_size (metas idx ! of_meta_idx f)
     \<and> kind_wf M xc (metas idx ! of_meta_idx f) (of_kind f) \<and> map_option meta_idx (node_of idx (of_ino f)) = Some (of_meta_idx f)"

definition file_idle :: "('d, 'z, 'h) open_file \<Rightarrow> nat" where
  "file_idle f = (case of_kind f of CodedFile p \<Rightarrow> length (pl_idle p) | _ \<Rightarrow> 0)"

definition table_idle :: "('d, 'z, 'h) handle_table \<Rightarrow> nat" where
  "table_idle t = sum_list (map (file_idle \<circ> snd) (ht_map t))"

definition table_files :: "('d, 'z, 'h) handle_table \<Rightarrow> ('d, 'z, 'h) open_file set" where
  "table_files t = snd ` set (ht_map t)"

definition meta_small :: "'w entry_meta \<Rightarrow> bool" where
  "meta_small m \<longleftrightarrow> start_wf m \<and> uncompressed_size m < u64_max"

definition fs_inv :: "('d, 'z, 'h) mount_spec \<Rightarrow> ext_consts \<Rightarrow> ('d, 'z, 'h, 'w) zipfs \<Rightarrow> bool" where
  "fs_inv M xc s \<longleftrightarrow> index_wf (fs_index s) \<and> list_all meta_small (metas (fs_index s))
     \<and> gf_opened (fs_reader s) = ms_opened M \<and> budget_wf (fs_budget s)
     \<and> distinct (map fst (ht_map (fs_handles s))) \<and> table_idle (fs_handles s) \<le> bg_retained (fs_budget s)
     \<and> (\<forall>f \<in> table_files (fs_handles s). file_wf M xc (fs_index s) f)"

lemma located_le: "located xc loc m \<Longrightarrow> start_wf m \<Longrightarrow> meta_le m m' \<Longrightarrow> located xc loc m'"
  using meta_le_fields [of m m'] by (auto simp: located_def meta_le_def)

lemma kind_wf_le: "kind_wf M xc m k \<Longrightarrow> start_wf m \<Longrightarrow> meta_le m m' \<Longrightarrow> kind_wf M xc m' k"
  using meta_le_fields [of m m'] located_le [of xc _ m m'] by (cases k) auto

lemma file_wf_le:
  assumes "file_wf M xc idx f" and "list_all meta_small (metas idx)" and "index_le idx idx'"
  shows "file_wf M xc idx' f"
proof -
  let ?i = "of_meta_idx f"
  have i: "?i < length (metas idx)" using assms(1) by (simp add: file_wf_def)
  note le = index_le_nth [OF assms(3) i]
  have "node_of idx' (of_ino f) = node_of idx (of_ino f)" by (rule index_le_node [OF assms(3)])
  moreover have "start_wf (metas idx ! ?i)" using assms(2) i by (simp add: list_all_length meta_small_def)
  ultimately show ?thesis using assms(1) le kind_wf_le meta_le_fields(1) [OF le] index_le_length [OF assms(3)]
    by (auto simp: file_wf_def)
qed

lemma index_le_small: "list_all meta_small (metas idx) \<Longrightarrow> index_le idx idx' \<Longrightarrow> list_all meta_small (metas idx')"
  using index_le_length [of idx idx'] index_le_nth [of idx idx'] meta_le_fields(1)
  by (fastforce simp: list_all_length meta_small_def meta_le_def)

text \<open>What a request may change, and that this keeps the invariant.\<close>

definition fs_le :: "('d, 'z, 'h, 'w) zipfs \<Rightarrow> ('d, 'z, 'h, 'w) zipfs \<Rightarrow> bool" where
  "fs_le s s' \<longleftrightarrow> index_le (fs_index s) (fs_index s') \<and> guard_le (fs_reader s) (fs_reader s')
     \<and> fs_config s' = fs_config s \<and> fs_stats s' = fs_stats s \<and> fs_max_io s' = fs_max_io s"

lemma fs_le_refl [simp]: "fs_le s s"
  by (simp add: fs_le_def)

lemma fs_le_trans [trans]: "fs_le a b \<Longrightarrow> fs_le b c \<Longrightarrow> fs_le a c"
  using index_le_trans guard_le_trans by (fastforce simp: fs_le_def)

lemma fs_inv_step:
  assumes "fs_inv M xc s" and "fs_le s s'" and "budget_wf (fs_budget s')" and "distinct (map fst (ht_map (fs_handles s')))"
    and "table_idle (fs_handles s') \<le> bg_retained (fs_budget s')"
    and "\<And>f. f \<in> table_files (fs_handles s') \<Longrightarrow> f \<in> table_files (fs_handles s) \<or> file_wf M xc (fs_index s') f"
  shows "fs_inv M xc s'"
  using assms index_le_wf index_le_small file_wf_le unfolding fs_inv_def fs_le_def guard_le_def by metis

lemma fs_inv_entries:
  assumes "fs_inv M xc s" and "fs_le s s'" and "fs_budget s' = fs_budget s" and "fs_handles s' = fs_handles s"
  shows "fs_inv M xc s'"
  using assms by (intro fs_inv_step [OF assms(1,2)]) (simp_all add: fs_inv_def)

end
