(* ===== verification/Fs_Ops.thy ===== *)
theory Fs_Ops
  imports Fs_Inv
begin

text \<open>
  What the helpers of \<^verbatim>\<open>src/fs.rs\<close> promise over the invariant of the mount: where an entry is, direct
  and pooled reads, whole reads.
\<close>

section \<open>The content of an entry\<close>

definition meta_content :: "('d, 'z, 'h) mount_spec \<Rightarrow> ext_consts \<Rightarrow> 'w entry_meta \<Rightarrow> bytes" where
  "meta_content M xc meta = (case entry_method xc meta of None \<Rightarrow> [] | Some m \<Rightarrow> loc_content M (loc_of meta m))"

lemma located_content:
  assumes "located xc loc meta"
  shows "loc_content M loc = meta_content M xc meta"
proof -
  have "entry_raw (ms_content M) loc = entry_raw (ms_content M) (loc_of meta (loc_method loc))"
    using assms by (auto simp: located_def entry_raw_def loc_of_def)
  moreover have "loc_method (loc_of meta (loc_method loc)) = loc_method loc" by (simp add: loc_of_def)
  ultimately have "loc_content M loc = loc_content M (loc_of meta (loc_method loc))"
    unfolding loc_content_def entry_content_def by presburger
  then show ?thesis using assms by (simp add: located_def meta_content_def)
qed

lemma meta_content_le:
  assumes "meta_le m m'" and "located xc loc m" and "start_wf m"
  shows "meta_content M xc m' = meta_content M xc m"
  using located_content [OF located_le [OF assms(2,3,1)]] located_content [OF assms(2)] by metis

lemma loc_content_store: "loc_method loc = Store \<Longrightarrow> loc_content M loc = entry_raw (ms_content M) loc"
  by (simp add: loc_content_def entry_content_def)

section \<open>Direct reads\<close>

lemma read_direct_ok:
  assumes "honest env (gf_opened g) content" and "read_direct env loc offset n g = (g', r)"
  shows "guard_le g g'" and "r \<noteq> Panic \<and> r \<noteq> Hang"
    and "r = Ok bs \<Longrightarrow> length bs = n \<and> slice_at (entry_raw content loc) offset bs"
proof -
  consider "g' = g" "r = Err overflow_error"
    | "offset + n \<le> loc_compressed_size loc" "read_exact_at env (loc_data_start loc + offset) n g = (g', r)"
    using assms(2) by (auto simp: read_direct_def checked_add_u64_def archive_read_at_def split: if_splits)
  then have "guard_le g g' \<and> r \<noteq> Panic \<and> r \<noteq> Hang \<and> (\<forall>bs. r = Ok bs \<longrightarrow> length bs = n \<and> slice_at (entry_raw content loc) offset bs)"
  proof cases
    case 2
    have "length bs = n \<and> slice_at (entry_raw content loc) offset bs" if "r = Ok bs" for bs
    proof -
      from read_exact_content [OF assms(1) 2(2) [unfolded that]]
      have c: "loc_data_start loc + offset + n \<le> length content" "bs = take n (drop (loc_data_start loc + offset) content)" by auto
      then have "bs = take n (drop offset (entry_raw content loc))" "offset + n \<le> length (entry_raw content loc)"
        using 2(1) by (auto simp: entry_raw_def drop_take add.commute min_def)
      then show ?thesis using c by auto
    qed
    then show ?thesis using read_exact_le [OF 2(2)] read_exact_returns [OF 2(2)] by blast
  qed simp
  then show "guard_le g g'" and "r \<noteq> Panic \<and> r \<noteq> Hang"
    and "r = Ok bs \<Longrightarrow> length bs = n \<and> slice_at (entry_raw content loc) offset bs" by blast+
qed

section \<open>Pooled reads\<close>

lemma counted_trans: "counted a b \<Longrightarrow> counted b c \<Longrightarrow> counted a c"
  by (auto simp: counted_def)

lemma decoder_for_place:
  "decoder_for hist decode hashed content loc d \<Longrightarrow> same_place d d' \<Longrightarrow> decoder_wf hist decode hashed content d'
     \<Longrightarrow> decoder_for hist decode hashed content loc d'"
  by (simp add: decoder_for_def same_place_def)

lemma pool_read_ok:
  assumes spec: "spec_ok S M" and g: "gf_opened g = ms_opened M" and bw: "budget_wf b" and pw: "ms_pool_wf M p"
    and n: "length (pl_idle p) \<le> bg_retained b" and small: "uncompressed_size meta < u64_max" "offset \<le> u64_max"
    and eq: "pool_read (sys_libs S) (sys_env S) offset out (g, b, p, meta) = ((g', b', p', meta'), r)"
  shows "guard_le g g'" and "budget_wf b'" and "ms_pool_wf M p'" and "counted (b, p) (b', p')"
    and "read_post (ms_crc M) (loc_content M (pl_loc p)) offset out meta meta' r"
proof -
  let ?L = "sys_libs S"
  have sound: "sound_libs ?L (ms_hist M) (ms_decode M) (ms_hashed M) (ms_crc M)" and zn: "zstd_new ?L \<noteq> None"
    and hon: "honest (sys_env S) (gf_opened g) (ms_content M)" using spec g by (simp_all add: spec_ok_def)
  obtain b1 p1 d where co: "checkout ?L offset (b, p) = ((b1, p1), Ok d)" and b1: "budget_wf b1" and p1: "ms_pool_wf M p1"
    and d: "decoder_for (ms_hist M) (ms_decode M) (ms_hashed M) (ms_content M) (pl_loc p) d" and c1: "counted (b, p) (b1, p1)"
    by (rule checkout_ok [OF sound zn bw pw n])
  obtain g1 d1 m1 q where rd: "decoder_read_at ?L (sys_env S) offset out (g, d, meta) = ((g1, d1, m1), q)" by (metis prod.collapse)
  have dw: "decoder_wf (ms_hist M) (ms_decode M) (ms_hashed M) (ms_content M) d" using d by (simp add: decoder_for_def)
  note h = decoder_read_at_ok [OF sound dw hon small rd]
  obtain b2 p2 where gb: "give_back d1 (b1, p1) = (b2, p2)" by (cases "give_back d1 (b1, p1)")
  have loc: "pl_loc p1 = pl_loc p" using c1 by (simp add: counted_def)
  have d1: "decoder_for (ms_hist M) (ms_decode M) (ms_hashed M) (ms_content M) (pl_loc p1) d1"
    using decoder_for_place [OF d decoder_read_at_place [OF rd]] h(1) loc by simp
  note gv = give_back_ok [OF b1 p1 d1 gb]
  have "g' = g1" "b' = b2" "p' = p2" "meta' = m1" "r = q" using eq co rd gb by (simp_all add: pool_read_def)
  then show "guard_le g g'" and "budget_wf b'" and "ms_pool_wf M p'" and "counted (b, p) (b', p')"
    and "read_post (ms_crc M) (loc_content M (pl_loc p)) offset out meta meta' r"
    using h gv counted_trans [OF c1 gv(3)] decoder_for_content [OF d] by (simp_all add: loc_content_def)
qed

lemma read_post_le: "read_post crc D offset out meta meta' r \<Longrightarrow> meta_le meta meta'"
  unfolding read_post_def by (metis meta_le_refl meta_le_verify)

section \<open>Steps of a handler\<close>

text \<open>A part of a handler keeps the invariant, moves the mount forward and returns.\<close>

definition keeps :: "('d, 'z, 'h) mount_spec \<Rightarrow> ext_consts \<Rightarrow> ('d, 'z, 'h, 'w) zipfs \<Rightarrow> ('d, 'z, 'h, 'w) zipfs \<times> (errno, 'a) rust \<Rightarrow> bool" where
  "keeps M xc s p \<longleftrightarrow> fs_inv M xc (fst p) \<and> fs_le s (fst p) \<and> snd p \<noteq> Panic \<and> snd p \<noteq> Hang"

lemma keepsI: "fs_inv M xc s' \<Longrightarrow> fs_le s s' \<Longrightarrow> r \<noteq> Panic \<Longrightarrow> r \<noteq> Hang \<Longrightarrow> keeps M xc s (s', r)"
  by (simp add: keeps_def)

lemma keepsD: "keeps M xc s (s', r) \<Longrightarrow> fs_inv M xc s' \<and> fs_le s s' \<and> r \<noteq> Panic \<and> r \<noteq> Hang"
  by (simp add: keeps_def)

lemma keeps_same: "fs_inv M xc s \<Longrightarrow> r \<noteq> Panic \<Longrightarrow> r \<noteq> Hang \<Longrightarrow> keeps M xc s (s, r)"
  by (simp add: keeps_def)

lemma keeps_trans: "keeps M xc s (s1, q) \<Longrightarrow> keeps M xc s1 p \<Longrightarrow> keeps M xc s p"
  using fs_le_trans by (fastforce simp: keeps_def)

lemma keeps_sbind:
  assumes "keeps M xc s (m s)" and "\<And>s1 x. m s = (s1, Ok x) \<Longrightarrow> keeps M xc s1 (f x s1)"
  shows "keeps M xc s (sbind m f s)"
proof -
  obtain s1 q where m: "m s = (s1, q)" by (cases "m s")
  show ?thesis
  proof (cases q)
    case (Ok x)
    with assms m show ?thesis using keeps_trans [of M xc s s1 "Ok x" "f x s1"] by simp
  qed (use assms(1) m in \<open>simp_all add: keeps_def\<close>)
qed

lemma fs_inv_reader: "fs_inv M xc s \<Longrightarrow> guard_le (fs_reader s) g \<Longrightarrow> fs_inv M xc (s\<lparr>fs_reader := g\<rparr>)"
  by (rule fs_inv_entries [of M xc s]) (simp_all add: fs_le_def)

lemma fs_le_reader: "guard_le (fs_reader s) g \<Longrightarrow> fs_le s (s\<lparr>fs_reader := g\<rparr>)"
  by (simp add: fs_le_def)

lemma reply_error_keeps:
  assumes "fs_inv M xc s"
  shows "keeps M xc s (reply_error S e s :: ('d, 'z, 'h, 'w) zipfs \<times> (errno, 'a) rust)"
proof -
  obtain g fresh where c: "check (sys_env S) (fs_reader s) = (g, fresh)" by (cases "check (sys_env S) (fs_reader s)")
  note le = check_le [OF c]
  show ?thesis using c fs_inv_reader [OF assms le] fs_le_reader [OF le] assms
    by (auto simp: reply_error_def diagnose_def archive_check_def keeps_def)
qed

lemma reply_error_Err: "\<exists>s' e'. reply_error S e s = (s', Err e')"
  by (auto simp: reply_error_def diagnose_def split: prod.splits)

lemma fs_inv_small: "fs_inv M xc s \<Longrightarrow> mi < length (metas (fs_index s)) \<Longrightarrow> meta_small (metas (fs_index s) ! mi)"
  by (simp add: fs_inv_def list_all_length)

lemma put_meta_nth [simp]:
  "metas (put_meta mi m idx) = (metas idx)[mi := m]" "nodes (put_meta mi m idx) = nodes idx"
  "names (put_meta mi m idx) = names idx" "symlinks (put_meta mi m idx) = symlinks idx"
  by (simp_all add: put_meta_def)

lemma put_meta_node [simp]: "node_of (put_meta mi m idx) i = node_of idx i"
  unfolding node_of_def put_meta_nth ..

text \<open>Where an entry is: the start is looked up once, and what is returned belongs to the entry.\<close>

lemma locate_ok:
  assumes spec: "spec_ok S M" and inv: "fs_inv M (sys_consts S) s" and mi: "mi < length (metas (fs_index s))"
    and eq: "locate S mi s = (s', r)"
  shows "keeps M (sys_consts S) s (s', r)" and "fs_handles s' = fs_handles s" and "fs_budget s' = fs_budget s"
    and "r = Ok loc \<Longrightarrow> located (sys_consts S) loc (metas (fs_index s') ! mi)
      \<and> (loc_method loc = Store \<longrightarrow> compressed_size (metas (fs_index s') ! mi) = uncompressed_size (metas (fs_index s') ! mi))"
proof -
  let ?m = "metas (fs_index s) ! mi" and ?xc = "sys_consts S"
  have small: "start_wf ?m" using fs_inv_small [OF inv mi] by (simp add: meta_small_def)
  obtain g meta' q where rs: "resolve_start (sys_get_entry S) (fs_reader s, ?m) = ((g, meta'), q)" by (metis prod.collapse)
  have el: "entry_lookup (sys_get_entry S)" using spec by (simp add: spec_ok_def)
  note fr = resolve_start_frame [OF rs el]
  obtain n where m': "meta' = ?m\<lparr>data_start := n\<rparr>" using fr(2) by blast
  have keep: "data_start ?m \<noteq> u64_max \<Longrightarrow> meta' = ?m" and got: "\<And>k. q = Ok k \<Longrightarrow> data_start meta' = k"
    using rs by (auto simp: resolve_start_def Let_def split: if_splits rust.splits option.splits prod.splits)
  have ml: "meta_le ?m meta'" unfolding meta_le_def
    using fr(4) keep by (intro conjI exI [of _ n] exI [of _ "verify_state ?m"]) (auto simp: m')
  let ?s = "s\<lparr>fs_reader := g, fs_index := put_meta mi meta' (fs_index s)\<rparr>"
  have le: "fs_le s ?s" using put_meta_le [OF mi ml] fr(1) by (simp add: fs_le_def)
  have inv': "fs_inv M ?xc ?s" by (rule fs_inv_entries [OF inv le]) simp_all
  let ?r = "\<lambda>m. case q of Ok start \<Rightarrow> Ok \<lparr> loc_data_start = start, loc_compressed_size = compressed_size ?m, loc_method = m \<rparr>
         | Err e \<Rightarrow> Err (error_errno e) | Panic \<Rightarrow> Panic | Hang \<Rightarrow> Hang"
  have step: "(s', r) = (if is_stale (fs_reader s) then (s, Err ESTALE) else case readable ?xc ?m of Inl e \<Rightarrow> (s, Err e)
      | Inr m \<Rightarrow> if m = Store \<and> compressed_size ?m \<noteq> uncompressed_size ?m then (s, Err EIO) else (?s, ?r m))"
    unfolding eq [symmetric] locate_def Let_def rs prod.case by (cases q) (simp_all only: rust.case)
  consider (err) e where "s' = s" "r = Err e"
    | (asked) m where "readable ?xc ?m = Inr m" "\<not> (m = Store \<and> compressed_size ?m \<noteq> uncompressed_size ?m)" "s' = ?s" "r = ?r m"
  proof -
    define sx rx where "sx = ?s" and "rx = ?r"
    note step' = step [folded sx_def rx_def] and asked' = asked [folded sx_def rx_def]
    show thesis using step' asked' err
      by (cases "is_stale (fs_reader s)"; cases "readable ?xc ?m") (auto split: if_splits)
  qed
  then have "keeps M ?xc s (s', r) \<and> fs_handles s' = fs_handles s \<and> fs_budget s' = fs_budget s
      \<and> (\<forall>loc. r = Ok loc \<longrightarrow> located ?xc loc (metas (fs_index s') ! mi)
      \<and> (loc_method loc = Store \<longrightarrow> compressed_size (metas (fs_index s') ! mi) = uncompressed_size (metas (fs_index s') ! mi)))"
  proof cases
    case err
    then show ?thesis using inv by (simp add: keeps_def)
  next
    case (asked m)
    have "r \<noteq> Panic \<and> r \<noteq> Hang" using asked(4) fr(3) by (auto split: rust.splits)
    moreover have "\<not> encrypted ?m" "entry_method ?xc ?m = Some m"
      using asked(1) by (auto simp: readable_def split: if_splits option.splits)
    moreover have "entry_method ?xc meta' = entry_method ?xc ?m" by (simp add: m' entry_method_def)
    ultimately show ?thesis using asked inv' le fr(5) [OF _ small] mi got
      by (auto simp: keeps_def located_def m' split: rust.splits)
  qed
  then show "keeps M (sys_consts S) s (s', r)" and "fs_handles s' = fs_handles s" and "fs_budget s' = fs_budget s"
    and "r = Ok loc \<Longrightarrow> located (sys_consts S) loc (metas (fs_index s') ! mi)
      \<and> (loc_method loc = Store \<longrightarrow> compressed_size (metas (fs_index s') ! mi) = uncompressed_size (metas (fs_index s') ! mi))"
    by blast+
qed

lemma locate_fresh: "locate S mi s = (s', Ok loc) \<Longrightarrow> \<not> is_stale (fs_reader s)"
  by (auto simp: locate_def)

section \<open>Whole reads\<close>

lemma verify_stored_ok:
  assumes inv: "fs_inv M xc s" and mi: "mi < length (metas (fs_index s))" and eq: "verify_stored S mi data s = (s', r)"
  shows "keeps M xc s (s', r)" and "fs_handles s' = fs_handles s"
    and "r = Ok u \<Longrightarrow> bg_verify (fs_budget s) \<Longrightarrow> crc_laws (sys_libs S) hashed crc \<Longrightarrow> crc data = crc32 (metas (fs_index s) ! mi)"
proof -
  let ?m = "metas (fs_index s) ! mi"
  have r: "r = Ok () \<or> r = Err EIO" and hd: "fs_handles s' = fs_handles s"
    and s': "\<exists>v. s' = s \<or> s' = s\<lparr>fs_index := put_meta mi (?m\<lparr>verify_state := v\<rparr>) (fs_index s)\<rparr>"
    using eq by (auto simp: verify_stored_def Let_def split: if_splits)
  have le: "fs_le s s'" using s' put_meta_le [OF mi meta_le_verify] by (auto simp: fs_le_def)
  have "fs_inv M xc s'" using s' hd by (intro fs_inv_entries [OF inv le]) auto
  then show "keeps M xc s (s', r)" "fs_handles s' = fs_handles s" using le r hd by (auto simp: keeps_def)
  show "crc data = crc32 (metas (fs_index s) ! mi)"
    if "r = Ok u" "bg_verify (fs_budget s)" and laws: "crc_laws (sys_libs S) hashed crc"
  proof -
    have "crc_finalize (sys_libs S) (crc_update (sys_libs S) (crc_new (sys_libs S)) data) = crc32 ?m"
      using eq that(1,2) by (auto simp: verify_stored_def Let_def split: if_splits)
    moreover have "crc_finalize (sys_libs S) (crc_update (sys_libs S) (crc_new (sys_libs S)) data) = crc data"
      using laws by (metis append_Nil crc_laws_def)
    ultimately show ?thesis by simp
  qed
qed

lemma read_once_ok:
  assumes spec: "spec_ok S M" and inv: "fs_inv M (sys_consts S) s" and mi: "mi < length (metas (fs_index s))"
    and loc: "located (sys_consts S) loc (metas (fs_index s) ! mi)" and eq: "read_once S mi loc out s = (s', r)"
  shows "keeps M (sys_consts S) s (s', r)" and "fs_handles s' = fs_handles s"
    and "r = Ok (n, out') \<Longrightarrow> length out' = length out \<and> n \<le> length out
      \<and> slice_at (meta_content M (sys_consts S) (metas (fs_index s) ! mi)) 0 (take n out')"
proof -
  let ?m = "metas (fs_index s) ! mi" and ?p = "pool_new loc 1"
  obtain g b p meta q where pr: "pool_read (sys_libs S) (sys_env S) 0 out (fs_reader s, fs_budget s, ?p, ?m) = ((g, b, p, meta), q)"
    by (metis prod.collapse)
  have small: "uncompressed_size ?m < u64_max" using fs_inv_small [OF inv mi] by (simp add: meta_small_def)
  have g0: "gf_opened (fs_reader s) = ms_opened M" and b0: "budget_wf (fs_budget s)" using inv by (simp_all add: fs_inv_def)
  have p0: "ms_pool_wf M ?p" using loc by (intro pool_new_wf) (simp add: located_def)
  have i0: "pl_idle ?p = []" "pl_loc ?p = loc" by (simp_all add: pool_new_def)
  note h = pool_read_ok [OF spec g0 b0 p0 _ small _ pr, simplified i0, simplified]
  have s': "s' = s\<lparr>fs_reader := g, fs_budget := pool_drop p b, fs_index := put_meta mi meta (fs_index s)\<rparr>"
    and r: "r = (case q of Ok x \<Rightarrow> Ok x | Err e \<Rightarrow> Err (io_errno e) | Panic \<Rightarrow> Panic | Hang \<Rightarrow> Hang)"
    using eq pr by (simp_all add: read_once_def)
  have cnt: "bg_retained b = bg_retained (fs_budget s) + length (pl_idle p)" using h(4) by (simp add: counted_def pool_new_def)
  note dr = pool_drop_ok [OF h(2,3)]
  have le: "fs_le s s'" using put_meta_le [OF mi read_post_le [OF h(5)]] h(1) by (simp add: fs_le_def s')
  have "fs_inv M (sys_consts S) s'"
    using inv dr cnt by (intro fs_inv_step [OF inv le]) (auto simp: s' fs_inv_def)
  moreover have q: "q \<noteq> Panic" "q \<noteq> Hang" using h(5) by (simp_all add: read_post_def)
  ultimately show "keeps M (sys_consts S) s (s', r)" "fs_handles s' = fs_handles s"
    using le r by (auto simp: keeps_def s' split: rust.splits)
  show "length out' = length out \<and> n \<le> length out
      \<and> slice_at (meta_content M (sys_consts S) (metas (fs_index s) ! mi)) 0 (take n out')" if "r = Ok (n, out')"
    using h(5) that r unfolding located_content [OF loc] read_post_def by (auto split: rust.splits)
qed

text \<open>A whole read returns the entry's declared number of bytes, and they are its content.\<close>

definition whole_of :: "('d, 'z, 'h) mount_spec \<Rightarrow> ext_consts \<Rightarrow> 'w entry_meta \<Rightarrow> bytes \<Rightarrow> bool" where
  "whole_of M xc meta bs \<longleftrightarrow> length bs = uncompressed_size meta \<and> slice_at (meta_content M xc meta) 0 bs"

lemma whole_of_le:
  assumes "whole_of M xc m bs" and "meta_le m m'" and "located xc loc m" and "start_wf m"
  shows "whole_of M xc m' bs"
  using assms meta_content_le [OF assms(2-4), of M] meta_le_fields(1) [OF assms(2)] by (simp add: whole_of_def)

text \<open>The part of \<open>read_all\<close> after the entry was located.\<close>

definition read_located :: "('d, 'z, 'h, 'w) system \<Rightarrow> nat \<Rightarrow> entry_location \<Rightarrow> nat \<Rightarrow> ('d, 'z, 'h, 'w, bytes) fs_act" where
  "read_located S mi loc sz s =
     (if sz = 0 \<and> loc_method loc = Store then sbind (verify_stored S mi []) (\<lambda>u s. (s, Ok [])) s
      else if sz = 0 then sbind (read_once S mi loc []) (\<lambda>r s. (s, Ok (snd r))) s
      else if loc_method loc = Store then
        (case read_direct (sys_env S) loc 0 sz (fs_reader s) of
           (g, Ok out) \<Rightarrow> sbind (verify_stored S mi out) (\<lambda>u s. (s, Ok out)) (s\<lparr>fs_reader := g\<rparr>)
         | (g, Err e) \<Rightarrow> (s\<lparr>fs_reader := g\<rparr>, Err EIO)
         | (g, Panic) \<Rightarrow> (s\<lparr>fs_reader := g\<rparr>, Panic)
         | (g, Hang) \<Rightarrow> (s\<lparr>fs_reader := g\<rparr>, Hang))
      else sbind (read_once S mi loc (replicate sz 0)) (\<lambda>(n, out) s. (s, if n \<noteq> sz then Err EIO else Ok out)) s)"

lemma read_all_eq:
  "read_all S mi limit s =
     (if verify_state (metas (fs_index s) ! mi) = VERIFY_BAD then (s, Err EIO)
      else sbind (locate S mi) (\<lambda>loc s.
        let sz = uncompressed_size (metas (fs_index s) ! mi) in
        if usize_max < sz \<or> limit < sz then (s, Err EIO) else read_located S mi loc sz s) s)"
  unfolding read_all_def read_located_def Let_def
  by (intro if_cong refl arg_cong [of _ _ "\<lambda>f. sbind (locate S mi) f s"] ext) (auto simp: try_usize_def)

lemma read_located_ok:
  assumes spec: "spec_ok S M" and inv: "fs_inv M (sys_consts S) s" and mi: "mi < length (metas (fs_index s))"
    and loc: "located (sys_consts S) loc (metas (fs_index s) ! mi)" and sz: "sz = uncompressed_size (metas (fs_index s) ! mi)"
    and eq: "read_located S mi loc sz s = (s', r)"
  shows "keeps M (sys_consts S) s (s', r)"
    and "r = Ok bs \<Longrightarrow> whole_of M (sys_consts S) (metas (fs_index s) ! mi) bs"
proof -
  let ?xc = "sys_consts S" and ?m = "metas (fs_index s) ! mi"
  have "keeps M ?xc s (s', r) \<and> (\<forall>bs. r = Ok bs \<longrightarrow> whole_of M ?xc ?m bs)"
  proof (cases "sz \<noteq> 0 \<and> loc_method loc = Store")
    case True
    obtain g q where rd: "read_direct (sys_env S) loc 0 sz (fs_reader s) = (g, q)" by (metis prod.collapse)
    have hon: "honest (sys_env S) (gf_opened (fs_reader s)) (ms_content M)" using spec inv by (simp add: spec_ok_def fs_inv_def)
    note d = read_direct_ok [OF hon rd]
    let ?s = "s\<lparr>fs_reader := g\<rparr>"
    have inv1: "fs_inv M ?xc ?s" and le1: "fs_le s ?s" using fs_inv_reader [OF inv d(1)] fs_le_reader [OF d(1)] by auto
    show ?thesis
    proof (cases q)
      case (Ok out)
      obtain s2 q2 where vs: "verify_stored S mi out ?s = (s2, q2)" by (metis prod.collapse)
      have "mi < length (metas (fs_index ?s))" using mi by simp
      from keepsD [OF verify_stored_ok(1) [OF inv1 this vs]] le1
      have k: "fs_inv M ?xc s2" "fs_le s s2" "q2 \<noteq> Panic" "q2 \<noteq> Hang" using fs_le_trans by blast+
      have "whole_of M ?xc ?m out"
        using d(3) [OF Ok] sz True located_content [OF loc, of M] loc_content_store [of loc M] by (simp add: whole_of_def)
      then show ?thesis using eq True rd Ok vs k by (cases q2) (auto simp: read_located_def keeps_def)
    qed (use eq True rd d(2) inv1 le1 in \<open>auto simp: read_located_def keeps_def\<close>)
  next
    case False
    show ?thesis
    proof (cases "loc_method loc = Store")
      case True
      then have z: "sz = 0" using False by simp
      obtain s2 q2 where vs: "verify_stored S mi [] s = (s2, q2)" by (metis prod.collapse)
      have "whole_of M ?xc ?m []" using z sz by (simp add: whole_of_def)
      then show ?thesis using keepsD [OF verify_stored_ok(1) [OF inv mi vs]] eq True z vs
        by (cases q2) (auto simp: read_located_def keeps_def)
    next
      case coded: False
      obtain s2 q2 where ro: "read_once S mi loc (replicate sz 0) s = (s2, q2)" by (metis prod.collapse)
      note h = read_once_ok [OF spec inv mi loc ro]
      have w: "whole_of M ?xc ?m out" if "q2 = Ok (n, out)" "n = sz" for n out
      proof -
        have "length out = sz" "take n out = out" using h(3) [OF that(1)] that(2) by simp_all
        then show ?thesis using h(3) [OF that(1)] sz unfolding whole_of_def by metis
      qed
      show ?thesis
      proof (cases "sz = 0")
        case True
        have "whole_of M ?xc ?m (snd x)" if "q2 = Ok x" for x
          using w [of "fst x" "snd x"] h(3) [of "fst x" "snd x"] that True by (cases x) simp
        then show ?thesis using keepsD [OF h(1)] eq coded True ro by (cases q2) (auto simp: read_located_def keeps_def)
      next
        case False
        then show ?thesis using keepsD [OF h(1)] eq coded ro w
          by (cases q2) (auto simp: read_located_def keeps_def split: if_splits prod.splits)
      qed
    qed
  qed
  then show "keeps M (sys_consts S) s (s', r)" and "r = Ok bs \<Longrightarrow> whole_of M (sys_consts S) (metas (fs_index s) ! mi) bs" by blast+
qed

lemma read_all_ok:
  assumes spec: "spec_ok S M" and inv: "fs_inv M (sys_consts S) s" and mi: "mi < length (metas (fs_index s))"
    and eq: "read_all S mi limit s = (s', r)"
  shows "keeps M (sys_consts S) s (s', r)"
    and "r = Ok bs \<Longrightarrow> whole_of M (sys_consts S) (metas (fs_index s') ! mi) bs
      \<and> (\<exists>loc. located (sys_consts S) loc (metas (fs_index s') ! mi)) \<and> length bs \<le> limit"
proof -
  let ?xc = "sys_consts S"
  obtain s1 q where lo: "locate S mi s = (s1, q)" by (metis prod.collapse)
  note l = locate_ok [OF spec inv mi lo]
  have k1: "fs_inv M ?xc s1" "fs_le s s1" "q \<noteq> Panic" "q \<noteq> Hang" using keepsD [OF l(1)] by auto
  have mi1: "mi < length (metas (fs_index s1))" using mi k1(2) index_le_length by (fastforce simp: fs_le_def)
  let ?m1 = "metas (fs_index s1) ! mi"
  consider (bad) "s' = s" "r = Err EIO" | (lost) e where "s' = s1" "q = Err e" "r = Err e"
    | (big) "s' = s1" "r = Err EIO"
    | (go) loc where "q = Ok loc" "uncompressed_size ?m1 \<le> limit" "read_located S mi loc (uncompressed_size ?m1) s1 = (s', r)"
    using eq lo k1(3,4) by (cases q) (auto simp: read_all_eq Let_def split: if_splits)
  then have "keeps M ?xc s (s', r) \<and> (\<forall>bs. r = Ok bs \<longrightarrow> whole_of M ?xc (metas (fs_index s') ! mi) bs
      \<and> (\<exists>loc. located ?xc loc (metas (fs_index s') ! mi)) \<and> length bs \<le> limit)"
  proof cases
    case go
    have loc: "located ?xc loc ?m1" using l(4) [OF go(1)] by blast
    note h = read_located_ok [OF spec k1(1) mi1 loc refl go(3)]
    have k2: "fs_inv M ?xc s'" "fs_le s1 s'" "r \<noteq> Panic" "r \<noteq> Hang" using keepsD [OF h(1)] by auto
    have ml: "meta_le ?m1 (metas (fs_index s') ! mi)" using k2(2) mi1 index_le_nth by (auto simp: fs_le_def)
    have sw: "start_wf ?m1" using fs_inv_small [OF k1(1) mi1] by (simp add: meta_small_def)
    have "whole_of M ?xc (metas (fs_index s') ! mi) bs \<and> length bs \<le> limit" if "r = Ok bs" for bs
      using whole_of_le [OF h(2) [OF that] ml loc sw] h(2) [OF that] go(2) by (simp add: whole_of_def)
    then show ?thesis using k2 fs_le_trans [OF k1(2) k2(2)] located_le [OF loc sw ml] by (auto simp: keeps_def)
  qed (use k1 inv in \<open>auto simp: keeps_def\<close>)
  then show "keeps M (sys_consts S) s (s', r)"
    and "r = Ok bs \<Longrightarrow> whole_of M (sys_consts S) (metas (fs_index s') ! mi) bs
      \<and> (\<exists>loc. located (sys_consts S) loc (metas (fs_index s') ! mi)) \<and> length bs \<le> limit" by blast+
qed

end
