(* ===== verification/Fs_Dir.thy ===== *)
theory Fs_Dir
  imports Fs_Inv
begin

text \<open>
  Directory listings: a page is the part of one fixed listing that starts at the cursor and fits, so
  reading page after page from the last cursor gives every child once and in order.
\<close>

section \<open>Pages of a list\<close>

fun fill :: "('e list \<Rightarrow> 'e \<Rightarrow> bool) \<Rightarrow> 'e list \<Rightarrow> 'e list \<Rightarrow> 'e list" where
  "fill full es [] = es"
| "fill full es (x # xs) = (if full es x then es else fill full (es @ [x]) xs)"

lemma fill_take: "\<exists>m \<le> length xs. fill full es xs = es @ take m xs \<and> (xs \<noteq> [] \<longrightarrow> \<not> full es (hd xs) \<longrightarrow> 0 < m)"
proof (induction xs arbitrary: es)
  case (Cons x xs)
  show ?case
  proof (cases "full es x")
    case True
    then show ?thesis by (intro exI [of _ 0]) simp
  next
    case False
    obtain m where "m \<le> length xs" "fill full (es @ [x]) xs = (es @ [x]) @ take m xs" using Cons.IH by blast
    then show ?thesis using False by (intro exI [of _ "Suc m"]) simp
  qed
qed simp

lemma add_children_fill:
  assumes "\<And>j. j < length kids \<Longrightarrow> mk (i + j) (kids ! j) = Ok (E (i + j))"
  shows "add_children full mk i kids es = Ok (fill full es (map E [i..<i + length kids]))"
  using assms
proof (induction kids arbitrary: i es)
  case (Cons child kids)
  have hd: "mk i child = Ok (E i)" using Cons.prems [of 0] by simp
  have "mk (Suc i + j) (kids ! j) = Ok (E (Suc i + j))" if "j < length kids" for j using Cons.prems [of "Suc j"] that by simp
  note ih = Cons.IH [OF this]
  have "[i..<i + length (child # kids)] = i # [Suc i..<Suc i + length kids]" by (simp add: upt_conv_Cons del: upt_Suc)
  then show ?case using hd ih by (simp del: upt_Suc)
qed simp

text \<open>The code's three steps are one walk over the complete listing.\<close>

lemma list_dir_fill:
  assumes mk: "\<And>j. j < length kids \<Longrightarrow> mk j (kids ! j) = Ok (E j)" and short: "length kids \<le> u64_max"
  shows "list_dir full mk dot dotdot kids offset = Ok (fill full [] (drop offset (dot # dotdot # map E [0..<length kids])))"
proof -
  let ?n = "length kids"
  define start where "start = (case try_usize (offset - 2) of None \<Rightarrow> usize_max | Some n \<Rightarrow> n)"
  have st: "map E [start..<start + length (drop start kids)] = drop (offset - 2) (map E [0..<?n])"
    using short by (cases "offset - 2 \<le> ?n") (auto simp: start_def try_usize_def drop_map)
  have add: "add_children full mk start (drop start kids) es = Ok (fill full es (drop (offset - 2) (map E [0..<?n])))" for es
    unfolding st [symmetric] by (rule add_children_fill) (use mk in simp)
  consider "offset = 0" | "offset = 1" | k where "offset = Suc (Suc k)" by (metis One_nat_def not0_implies_Suc)
  then show ?thesis by cases (use add [unfolded start_def] in \<open>simp_all add: list_dir_def Let_def\<close>)
qed

text \<open>
  A reader of a directory: it asks for a page at a cursor, goes on from the cursor of the last entry,
  and stops at an empty page. Every page may have a buffer of its own.
\<close>

fun read_pages :: "('f \<Rightarrow> nat \<Rightarrow> 'e list) \<Rightarrow> ('e \<Rightarrow> nat) \<Rightarrow> 'f list \<Rightarrow> nat \<Rightarrow> 'e list" where
  "read_pages page cursor [] off = []"
| "read_pages page cursor (full # fs) off =
     (case page full off of [] \<Rightarrow> [] | e # es \<Rightarrow> (e # es) @ read_pages page cursor fs (cursor (last (e # es))))"

lemma read_pages_all:
  assumes page: "\<And>full off. page full off = fill full [] (drop off xs)"
    and cursor: "\<And>k. k < length xs \<Longrightarrow> cursor (xs ! k) = Suc k"
    and room: "\<And>full e. full \<in> set fulls \<Longrightarrow> \<not> full [] e" and many: "length xs - off \<le> length fulls"
  shows "read_pages page cursor fulls off = drop off xs"
  using room many
proof (induction fulls arbitrary: off)
  case (Cons full fulls)
  obtain m where m: "m \<le> length (drop off xs)" "fill full [] (drop off xs) = take m (drop off xs)"
    "drop off xs \<noteq> [] \<longrightarrow> 0 < m" using fill_take [of "drop off xs" full "[]"] Cons.prems(1) by auto
  show ?case
  proof (cases "drop off xs")
    case Nil
    then show ?thesis by (simp add: page)
  next
    case (Cons x ys)
    then have "0 < m" using m(3) by simp
    then obtain k where k: "m = Suc k" by (cases m) auto
    then have page_eq: "page full off = x # take k ys" using page m(2) Cons by simp
    have "last (x # take k ys) = xs ! (off + k)"
    proof -
      have "x # take k ys = take m (drop off xs)" using k Cons by simp
      moreover have "length (take m (drop off xs)) = m" using m(1) by simp
      ultimately show ?thesis using k m(1) by (simp only: last_conv_nth) (simp add: last_conv_nth)
    qed
    moreover have "off + k < length xs" using m(1) k by simp
    ultimately have "cursor (last (x # take k ys)) = off + m" using cursor k by simp
    moreover have "read_pages page cursor fulls (off + m) = drop (off + m) xs"
      using Cons.prems \<open>0 < m\<close> by (intro Cons.IH) auto
    ultimately have "read_pages page cursor (full # fulls) off = take m (drop off xs) @ drop (off + m) xs"
      using page_eq k Cons by simp
    then show ?thesis by (simp add: add.commute flip: drop_drop)
  qed
qed simp

section \<open>The listing of a directory\<close>

definition dir_listing :: "'w index \<Rightarrow> nat \<Rightarrow> node \<Rightarrow> dirent list" where
  "dir_listing idx ino nd =
     \<lparr> de_ino = ino, de_offset = 1, de_kind = Directory, de_name = DOT \<rparr>
     # \<lparr> de_ino = parent nd, de_offset = 2, de_kind = Directory, de_name = DOTDOT \<rparr>
     # map (\<lambda>j. \<lparr> de_ino = first_child nd + j, de_offset = 3 + j, de_kind = file_type_of (kind (nodes idx ! (first_child nd + j))),
         de_name = ino_name idx (first_child nd + j) \<rparr>) [0..<child_len nd]"

definition plus_entry :: "('d, 'z, 'h, 'w) zipfs \<Rightarrow> nat \<Rightarrow> nat \<Rightarrow> bytes \<Rightarrow> direntplus" where
  "plus_entry s ino cursor nm = \<lparr> dp_ino = ino, dp_offset = cursor, dp_name = nm, dp_ttl = attr_ttl (fs_config s),
     dp_attr = file_attr (fs_index s) ino (nodes (fs_index s) ! ino) (fs_config s) \<rparr>"

definition plus_listing :: "('d, 'z, 'h, 'w) zipfs \<Rightarrow> nat \<Rightarrow> node \<Rightarrow> direntplus list" where
  "plus_listing s ino nd =
     plus_entry s ino 1 DOT # plus_entry s (parent nd) 2 DOTDOT
     # map (\<lambda>j. plus_entry s (first_child nd + j) (3 + j) (ino_name (fs_index s) (first_child nd + j))) [0..<child_len nd]"

lemma no_error_Ok [simp]: "no_error (Ok x) = Ok x"
  by (simp add: no_error_def)

lemma children_ok:
  assumes "index_wf idx" and "0 < i" and "i < length (nodes idx)" and "kind (nodes idx ! i) = Dir"
  obtains kids where "children idx (nodes idx ! i) = Ok kids" and "length kids = child_len (nodes idx ! i)" and "length kids \<le> u64_max"
    and "\<And>j. j < length kids \<Longrightarrow> kids ! j = nodes idx ! (first_child (nodes idx ! i) + j)
      \<and> 0 < first_child (nodes idx ! i) + j \<and> first_child (nodes idx ! i) + j < length (nodes idx)"
proof -
  let ?nd = "nodes idx ! i"
  let ?kids = "take (child_len ?nd) (drop (first_child ?nd) (nodes idx))"
  have kw: "kids_wf idx i" by (rule index_wfD(1) [OF assms(1-3)])
  then have fit: "first_child ?nd + child_len ?nd \<le> length (nodes idx)" by (simp add: kids_wf_def Let_def)
  have "children idx ?nd = Ok ?kids" using fit assms(4) by (simp add: children_def)
  moreover have "length ?kids = child_len ?nd" using fit by simp
  moreover have "length ?kids \<le> u64_max" using assms(1) fit by (auto simp: index_wf_def)
  moreover have "?kids ! j = nodes idx ! (first_child ?nd + j) \<and> 0 < first_child ?nd + j \<and> first_child ?nd + j < length (nodes idx)"
    if "j < length ?kids" for j
    using that fit kids_wf_kid [OF kw, of "first_child ?nd + j"] by auto
  ultimately show thesis by (rule that)
qed

lemma readdir_page:
  assumes wf: "index_wf (fs_index s)" and node: "node_of (fs_index s) ino = Some nd" and dir: "kind nd = Dir"
  shows "fs_readdir full ino offset s = (s, Ok (ReplyDirectory (fill full [] (drop offset (dir_listing (fs_index s) ino nd)))))"
proof -
  let ?idx = "fs_index s"
  have i: "0 < ino" "ino < length (nodes ?idx)" and nd: "nd = nodes ?idx ! ino" using node_of_Some [OF wf] node by auto
  obtain kids where kids: "children ?idx nd = Ok kids" "length kids = child_len nd" "length kids \<le> u64_max"
    "\<And>j. j < length kids \<Longrightarrow> kids ! j = nodes ?idx ! (first_child nd + j) \<and> 0 < first_child nd + j \<and> first_child nd + j < length (nodes ?idx)"
    using children_ok [OF wf i] dir nd by metis
  let ?mk = "\<lambda>j child. rbind (no_error (name_of ?idx child)) (\<lambda>nm. Ok \<lparr> de_ino = first_child nd + j, de_offset = 3 + j,
      de_kind = file_type_of (kind child), de_name = nm \<rparr>) :: (errno, dirent) rust"
  let ?E = "\<lambda>j. \<lparr> de_ino = first_child nd + j, de_offset = 3 + j, de_kind = file_type_of (kind (nodes ?idx ! (first_child nd + j))),
      de_name = ino_name ?idx (first_child nd + j) \<rparr>"
  have mk: "?mk j (kids ! j) = Ok (?E j)" if "j < length kids" for j using kids(4) [OF that] name_of_ok [OF wf] by simp
  from list_dir_fill [where mk = ?mk and E = ?E, OF mk kids(3)] show ?thesis
    using node dir kids(1,2) by (simp add: fs_readdir_def Let_def dir_listing_def)
qed

lemma readdirplus_page:
  assumes wf: "index_wf (fs_index s)" and node: "node_of (fs_index s) ino = Some nd" and dir: "kind nd = Dir"
  shows "fs_readdirplus full ino offset s = (s, Ok (ReplyDirectoryPlus (fill full [] (drop offset (plus_listing s ino nd)))))"
proof -
  let ?idx = "fs_index s"
  have i: "0 < ino" "ino < length (nodes ?idx)" and nd: "nd = nodes ?idx ! ino" using node_of_Some [OF wf] node by auto
  obtain kids where kids: "children ?idx nd = Ok kids" "length kids = child_len nd" "length kids \<le> u64_max"
    "\<And>j. j < length kids \<Longrightarrow> kids ! j = nodes ?idx ! (first_child nd + j) \<and> 0 < first_child nd + j \<and> first_child nd + j < length (nodes ?idx)"
    using children_ok [OF wf i] dir nd by metis
  have "0 < parent nd \<and> parent nd < length (nodes ?idx)"
    using index_wfD(2) [OF wf i] i wf by (auto simp: place_wf_def Let_def nd index_wf_def ROOT_INO_def split: if_splits)
  then have par: "node_of ?idx (parent nd) = Some (nodes ?idx ! parent nd)" using node_of_Some [OF wf] by simp
  let ?mk = "\<lambda>j child. rbind (no_error (name_of ?idx child)) (\<lambda>nm. Ok \<lparr> dp_ino = first_child nd + j, dp_offset = 3 + j,
      dp_name = nm, dp_ttl = attr_ttl (fs_config s), dp_attr = file_attr ?idx (first_child nd + j) child (fs_config s) \<rparr>) :: (errno, direntplus) rust"
  let ?E = "\<lambda>j. plus_entry s (first_child nd + j) (3 + j) (ino_name ?idx (first_child nd + j))"
  have mk: "?mk j (kids ! j) = Ok (?E j)" if "j < length kids" for j
    using kids(4) [OF that] name_of_ok [OF wf] by (simp add: plus_entry_def)
  from list_dir_fill [where mk = ?mk and E = ?E, OF mk kids(3)] show ?thesis
    using node dir kids(1,2) par nd by (simp add: fs_readdirplus_def Let_def plus_listing_def plus_entry_def)
qed

section \<open>Reading a directory to its end\<close>

definition dir_page :: "(errno, reply) rust \<Rightarrow> dirent list" where
  "dir_page r = (case r of Ok (ReplyDirectory es) \<Rightarrow> es | _ \<Rightarrow> [])"

definition plus_page :: "(errno, reply) rust \<Rightarrow> direntplus list" where
  "plus_page r = (case r of Ok (ReplyDirectoryPlus es) \<Rightarrow> es | _ \<Rightarrow> [])"

lemma readdir_all:
  assumes "index_wf (fs_index s)" and "node_of (fs_index s) ino = Some nd" and "kind nd = Dir"
    and "\<And>full e. full \<in> set fulls \<Longrightarrow> \<not> full [] e" and "child_len nd + 2 \<le> length fulls"
  shows "read_pages (\<lambda>full off. dir_page (snd (fs_readdir full ino off s))) de_offset fulls 0 = dir_listing (fs_index s) ino nd"
proof -
  let ?xs = "dir_listing (fs_index s) ino nd"
  have cur: "de_offset (?xs ! k) = Suc k" if "k < length ?xs" for k
    using that by (auto simp: dir_listing_def nth_Cons split: nat.splits)
  have "read_pages (\<lambda>full off. dir_page (snd (fs_readdir full ino off s))) de_offset fulls 0 = drop 0 ?xs"
    by (rule read_pages_all) (use assms(4,5) cur in \<open>simp_all add: readdir_page [OF assms(1-3)] dir_page_def dir_listing_def\<close>)
  then show ?thesis by simp
qed

lemma readdirplus_all:
  assumes "index_wf (fs_index s)" and "node_of (fs_index s) ino = Some nd" and "kind nd = Dir"
    and "\<And>full e. full \<in> set fulls \<Longrightarrow> \<not> full [] e" and "child_len nd + 2 \<le> length fulls"
  shows "read_pages (\<lambda>full off. plus_page (snd (fs_readdirplus full ino off s))) dp_offset fulls 0 = plus_listing s ino nd"
proof -
  let ?xs = "plus_listing s ino nd"
  have cur: "dp_offset (?xs ! k) = Suc k" if "k < length ?xs" for k
    using that by (auto simp: plus_listing_def plus_entry_def nth_Cons split: nat.splits)
  have "read_pages (\<lambda>full off. plus_page (snd (fs_readdirplus full ino off s))) dp_offset fulls 0 = drop 0 ?xs"
    by (rule read_pages_all) (use assms(4,5) cur in \<open>simp_all add: readdirplus_page [OF assms(1-3)] plus_page_def plus_listing_def\<close>)
  then show ?thesis by simp
qed

text \<open>The children of a listing are what \<open>lookup\<close> finds in the directory, sorted by name.\<close>

lemma listing_lookup:
  assumes wf: "index_wf idx" and node: "node_of idx ino = Some nd" and dir: "kind nd = Dir"
  shows "lookup idx ino nm = Ok (Some i) \<longleftrightarrow> (\<exists>e \<in> set (drop 2 (dir_listing idx ino nd)). de_name e = nm \<and> de_ino e = i)"
    and "sorted_wrt (<) (map de_name (drop 2 (dir_listing idx ino nd)))"
proof -
  have i0: "0 < ino" "ino < length (nodes idx)" and nd: "nd = nodes idx ! ino" using node_of_Some [OF wf] node by auto
  have "lookup idx ino nm = Ok (Some i) \<longleftrightarrow> i \<in> set (child_inos nd) \<and> ino_name idx i = nm"
    using tree.look_edge [OF wf] index_edge_kid [OF wf] i0 dir nd by blast
  also have "\<dots> \<longleftrightarrow> (\<exists>j < child_len nd. first_child nd + j = i \<and> ino_name idx (first_child nd + j) = nm)"
  proof
    assume a: "i \<in> set (child_inos nd) \<and> ino_name idx i = nm"
    then have "i - first_child nd < child_len nd \<and> first_child nd + (i - first_child nd) = i" by auto
    then show "\<exists>j < child_len nd. first_child nd + j = i \<and> ino_name idx (first_child nd + j) = nm" using a by metis
  qed auto
  finally show "lookup idx ino nm = Ok (Some i) \<longleftrightarrow> (\<exists>e \<in> set (drop 2 (dir_listing idx ino nd)). de_name e = nm \<and> de_ino e = i)"
    by (auto simp: dir_listing_def)
  have "sorted_wrt (<) (map (ino_name idx) (child_inos nd))"
    using index_wfD(1) [OF wf i0] nd by (simp add: kids_wf_def Let_def)
  moreover have "map (ino_name idx) (child_inos nd) = map de_name (drop 2 (dir_listing idx ino nd))"
    by (simp add: dir_listing_def o_def map_add_upt [symmetric] add.commute)
  ultimately show "sorted_wrt (<) (map de_name (drop 2 (dir_listing idx ino nd)))" by simp
qed

lemma plus_listing_dir:
  "map (\<lambda>e. (dp_ino e, dp_offset e, dp_name e)) (plus_listing s ino nd)
     = map (\<lambda>e. (de_ino e, de_offset e, de_name e)) (dir_listing (fs_index s) ino nd)"
  by (simp add: plus_listing_def dir_listing_def plus_entry_def)

lemma plus_listing_attr:
  assumes wf: "index_wf (fs_index s)" and node: "node_of (fs_index s) ino = Some nd" and dir: "kind nd = Dir"
    and e: "e \<in> set (plus_listing s ino nd)"
  shows "fs_getattr (dp_ino e) s = (s, Ok (ReplyAttr (dp_ttl e) (dp_attr e)))"
proof -
  let ?idx = "fs_index s"
  have i: "0 < ino" "ino < length (nodes ?idx)" and nd: "nd = nodes ?idx ! ino" using node_of_Some [OF wf] node by auto
  have par: "0 < parent nd \<and> parent nd < length (nodes ?idx)"
    using index_wfD(2) [OF wf i] i wf by (auto simp: place_wf_def Let_def nd index_wf_def ROOT_INO_def split: if_splits)
  have kids: "0 < first_child nd + j \<and> first_child nd + j < length (nodes ?idx)" if "j < child_len nd" for j
    using kids_wf_kid [OF index_wfD(1) [OF wf i], of "first_child nd + j"] that by (auto simp: nd)
  obtain k cursor nm where "e = plus_entry s k cursor nm" and k: "0 < k" "k < length (nodes ?idx)"
    using e i par kids by (auto simp: plus_listing_def)
  moreover have "node_of ?idx k = Some (nodes ?idx ! k)" using node_of_Some [OF wf] k by blast
  ultimately show ?thesis by (simp add: fs_getattr_def attr_of_def plus_entry_def)
qed

end
