(* ===== verification/Fs_Serve.thy ===== *)
theory Fs_Serve
  imports Fs_Ops Fs_Dir
begin

text \<open>
  Every request keeps the invariant of the mount and returns; what reads and links reply is content
  of the entry.
\<close>

section \<open>The table of open files\<close>

lemma alist_update_sum:
  "distinct (map fst al) \<Longrightarrow>
     sum_list (map (F \<circ> snd) (AList.update k v al)) + (case map_of al k of None \<Rightarrow> 0 | Some x \<Rightarrow> F x)
       = sum_list (map (F \<circ> snd) al) + (F v :: nat)"
  by (induction al) (auto split: option.splits simp: map_of_eq_None_iff)

lemma alist_delete_sum:
  "distinct (map fst al) \<Longrightarrow>
     sum_list (map (F \<circ> snd) (AList.delete k al)) + (case map_of al k of None \<Rightarrow> 0 | Some x \<Rightarrow> F x)
       = (sum_list (map (F \<circ> snd) al) :: nat)"
proof (induction al)
  case (Cons p al)
  have "fst p = k \<Longrightarrow> AList.delete k al = al" using Cons.prems by (auto intro: delete_id)
  moreover have "fst p = k \<Longrightarrow> map_of al k = None" using Cons.prems by (auto simp: map_of_eq_None_iff)
  ultimately show ?case using Cons by (cases p) auto
qed simp

lemma alist_update_set: "set (AList.update k v al) \<subseteq> insert (k, v) (set al)"
  by (induction al) auto

lemma table_put_idle:
  assumes "distinct (map fst (ht_map t))" and "handle_get fh t = Some f0"
  shows "table_idle (handle_put fh f t) + file_idle f0 = table_idle t + file_idle f"
  using alist_update_sum [OF assms(1), of file_idle fh f] assms(2) by (simp add: table_idle_def handle_put_def handle_get_def)

lemma table_put_files: "table_files (handle_put fh f t) \<subseteq> insert f (table_files t)"
  using alist_update_set [of fh f "ht_map t"] by (auto simp: table_files_def handle_put_def)

lemma table_put_distinct: "distinct (map fst (ht_map t)) \<Longrightarrow> distinct (map fst (ht_map (handle_put fh f t)))"
  by (simp add: handle_put_def distinct_update)

lemma table_insert_eq:
  assumes "handle_insert f t = (t', fh)"
  shows "ht_map t' = ht_map (handle_put fh f t)"
  using assms by (auto simp: handle_insert_def handle_put_def Let_def)

lemma table_get_files: "handle_get fh t = Some f \<Longrightarrow> f \<in> table_files t"
  by (force simp: handle_get_def table_files_def dest: map_of_SomeD)

lemma table_insert_idle:
  assumes "distinct (map fst (ht_map t))" and "handle_insert f t = (t', fh)"
  shows "table_idle t' \<le> table_idle t + file_idle f"
  using alist_update_sum [OF assms(1), of file_idle fh f] table_insert_eq [OF assms(2)]
  by (simp add: table_idle_def handle_put_def)

lemma table_idle_member:
  assumes "handle_get fh t = Some f"
  shows "file_idle f \<le> table_idle t"
proof -
  have "(fh, f) \<in> set (ht_map t)" using assms by (simp add: handle_get_def map_of_SomeD)
  then show ?thesis unfolding table_idle_def by (force intro: member_le_sum_list)
qed

text \<open>A read changes the state of its file, and the counter of idle decoders with it.\<close>

lemma fs_inv_put:
  assumes inv: "fs_inv M xc s" and get: "handle_get fh (fs_handles s) = Some f" and le: "fs_le s s'"
    and put: "fs_handles s' = handle_put fh f' (fs_handles s)" and bw: "budget_wf (fs_budget s')"
    and cnt: "bg_retained (fs_budget s') + file_idle f = bg_retained (fs_budget s) + file_idle f'"
    and wf: "file_wf M xc (fs_index s') f'"
  shows "fs_inv M xc s'"
proof (rule fs_inv_step [OF inv le bw])
  have d: "distinct (map fst (ht_map (fs_handles s)))" and t: "table_idle (fs_handles s) \<le> bg_retained (fs_budget s)"
    using inv by (simp_all add: fs_inv_def)
  show "distinct (map fst (ht_map (fs_handles s')))" using table_put_distinct [OF d] by (simp add: put)
  show "table_idle (fs_handles s') \<le> bg_retained (fs_budget s')" using table_put_idle [OF d get, of f'] t cnt by (simp add: put)
  show "h \<in> table_files (fs_handles s) \<or> file_wf M xc (fs_index s') h" if "h \<in> table_files (fs_handles s')" for h
    using that wf table_put_files [of fh f' "fs_handles s"] by (auto simp: put)
qed

lemma fs_inv_file: "fs_inv M xc s \<Longrightarrow> handle_get fh (fs_handles s) = Some f \<Longrightarrow> file_wf M xc (fs_index s) f"
  using table_get_files by (auto simp: fs_inv_def)

section \<open>Reads\<close>

lemma observe_store_ok:
  assumes laws: "crc_laws L (ms_hashed M) (ms_crc M)" and k: "of_kind f = StoreFile start csize v"
    and wf: "kind_wf M xc meta (of_kind f)" and small: "meta_small meta"
    and slice: "slice_at (loc_content M (store_loc start csize)) offset buf"
    and eq: "observe_store L offset buf (f, meta) = ((f', meta'), good)"
  shows "judged (ms_crc M) (loc_content M (store_loc start csize)) meta meta'"
    and "\<exists>v'. f' = f\<lparr>of_kind := StoreFile start csize v'\<rparr>" and "kind_wf M xc meta' (of_kind f')"
    and "\<not> good \<Longrightarrow> ms_crc M (loc_content M (store_loc start csize)) \<noteq> crc32 meta"
proof -
  let ?D = "loc_content M (store_loc start csize)"
  have "judged (ms_crc M) ?D meta meta' \<and> (\<exists>v'. f' = f\<lparr>of_kind := StoreFile start csize v'\<rparr>
      \<and> (\<forall>x. v' = Some x \<longrightarrow> sv_wf (ms_hashed M) ?D x)) \<and> (\<not> good \<longrightarrow> ms_crc M ?D \<noteq> crc32 meta)"
  proof (cases v)
    case None
    then show ?thesis using eq k by (auto simp: observe_store_def intro!: exI [of _ None])
  next
    case (Some x)
    obtain x' m1 b where ob: "observe L offset buf (x, meta) = ((x', m1), b)" by (metis prod.collapse)
    have len: "length ?D \<le> uncompressed_size meta" "length ?D \<le> u64_max"
      using wf small by (auto simp: k loc_content_def store_loc_def entry_content_def entry_raw_def meta_small_def)
    have "sv_wf (ms_hashed M) ?D x" using wf Some by (auto simp: k)
    note h = observe_ok [OF laws this slice len ob]
    have "f' = f\<lparr>of_kind := StoreFile start csize (Some x')\<rparr>" "meta' = m1" "good = b"
      using eq ob by (simp_all add: observe_store_def k Some)
    then show ?thesis using h by blast
  qed
  moreover have "located xc loc meta' = located xc loc meta" "uncompressed_size meta' = uncompressed_size meta"
    if "judged (ms_crc M) ?D meta meta'" for loc using that by (auto simp: judged_def located_def entry_method_def)
  ultimately show "judged (ms_crc M) ?D meta meta'" "\<exists>v'. f' = f\<lparr>of_kind := StoreFile start csize v'\<rparr>" "kind_wf M xc meta' (of_kind f')"
    "\<not> good \<Longrightarrow> ms_crc M ?D \<noteq> crc32 meta"
    using wf by (auto simp: k)
qed

lemma judged_le: "judged crc D m m' \<Longrightarrow> meta_le m m'"
  by (auto simp: judged_def)

text \<open>What the parts of \<open>read\<close> promise of the bytes they return.\<close>

definition read_good :: "('d, 'z, 'h) mount_spec \<Rightarrow> ext_consts \<Rightarrow> 'w entry_meta \<Rightarrow> nat \<Rightarrow> nat \<Rightarrow> (errno, nat \<times> bytes) rust \<Rightarrow> bool" where
  "read_good M xc meta offset want r \<longleftrightarrow> (\<forall>n buf. r = Ok (n, buf) \<longrightarrow> n \<le> length buf \<and> length buf = want
     \<and> slice_at (meta_content M xc meta) offset (take n buf)
     \<and> (n < want \<longrightarrow> offset + n < uncompressed_size meta \<longrightarrow> offset + n = length (meta_content M xc meta)))"

lemma read_store_file_ok:
  assumes spec: "spec_ok S M" and inv: "fs_inv M (sys_consts S) s" and get: "handle_get fh (fs_handles s) = Some f"
    and k: "of_kind f = StoreFile start csize v" and eq: "read_store_file S fh f start csize offset want s = (s', r)"
  shows "keeps M (sys_consts S) s (s', r)" and "read_good M (sys_consts S) (metas (fs_index s) ! of_meta_idx f) offset want r"
proof -
  let ?xc = "sys_consts S" and ?mi = "of_meta_idx f" and ?loc = "store_loc start csize"
  let ?m = "metas (fs_index s) ! ?mi"
  have fw: "file_wf M ?xc (fs_index s) f" by (rule fs_inv_file [OF inv get])
  then have mi: "?mi < length (metas (fs_index s))" and kw: "kind_wf M ?xc ?m (of_kind f)" and sz: "of_size f = uncompressed_size ?m"
    and nd: "map_option meta_idx (node_of (fs_index s) (of_ino f)) = Some ?mi" by (simp_all add: file_wf_def)
  have loc: "located ?xc ?loc ?m" using kw by (auto simp: k)
  have hon: "honest (sys_env S) (gf_opened (fs_reader s)) (ms_content M)" and laws: "crc_laws (sys_libs S) (ms_hashed M) (ms_crc M)"
    using spec inv by (simp_all add: spec_ok_def fs_inv_def sound_libs_def)
  obtain g q where rd: "read_direct (sys_env S) ?loc offset want (fs_reader s) = (g, q)" by (metis prod.collapse)
  note d = read_direct_ok [OF hon rd]
  have store: "loc_content M ?loc = entry_raw (ms_content M) ?loc" by (rule loc_content_store) (simp add: store_loc_def)
  show "keeps M ?xc s (s', r)" "read_good M ?xc ?m offset want r"
  proof (atomize (full), cases q)
    case (Ok buf)
    obtain f' meta' good where ob: "observe_store (sys_libs S) offset buf (f, ?m) = ((f', meta'), good)" by (metis prod.collapse)
    have sl: "slice_at (loc_content M ?loc) offset buf" and len: "length buf = want" using d(3) [OF Ok] by (simp_all add: store)
    note h = observe_store_ok [OF laws k kw fs_inv_small [OF inv mi] sl ob]
    obtain v' where f': "f' = f\<lparr>of_kind := StoreFile start csize v'\<rparr>" using h(2) by blast
    have s': "s' = s\<lparr>fs_reader := g, fs_handles := handle_put fh f' (fs_handles s), fs_index := put_meta ?mi meta' (fs_index s)\<rparr>"
      and r: "r = (if good then Ok (length buf, buf) else Err EIO)"
      using eq rd Ok ob by (simp_all add: read_store_file_def store_loc_def)
    have le: "fs_le s s'" using put_meta_le [OF mi judged_le [OF h(1)]] d(1) by (simp add: s' fs_le_def)
    have "file_wf M ?xc (fs_index s') f'"
      using h(3) mi sz nd meta_le_fields(1) [OF judged_le [OF h(1)]] by (auto simp: file_wf_def f' s')
    then have "fs_inv M ?xc s'" using inv
      by (intro fs_inv_put [OF inv get le]) (auto simp: s' f' k file_idle_def fs_inv_def)
    then show "keeps M ?xc s (s', r) \<and> read_good M ?xc ?m offset want r"
      using le sl len located_content [OF loc, of M] by (auto simp: keeps_def r read_good_def)
  qed (use eq rd d(2) fs_inv_reader [OF inv d(1)] fs_le_reader [OF d(1)] in
      \<open>auto simp: read_store_file_def store_loc_def keeps_def read_good_def\<close>)
qed

lemma read_coded_file_ok:
  assumes spec: "spec_ok S M" and inv: "fs_inv M (sys_consts S) s" and get: "handle_get fh (fs_handles s) = Some f"
    and k: "of_kind f = CodedFile p" and off: "offset \<le> u64_max" and eq: "read_coded_file S fh f p offset want s = (s', r)"
  shows "keeps M (sys_consts S) s (s', r)" and "read_good M (sys_consts S) (metas (fs_index s) ! of_meta_idx f) offset want r"
proof -
  let ?xc = "sys_consts S" and ?mi = "of_meta_idx f"
  let ?m = "metas (fs_index s) ! ?mi"
  have fw: "file_wf M ?xc (fs_index s) f" by (rule fs_inv_file [OF inv get])
  then have mi: "?mi < length (metas (fs_index s))" and loc: "located ?xc (pl_loc p) ?m" and pw: "ms_pool_wf M p"
    and sz: "of_size f = uncompressed_size ?m" and nd: "map_option meta_idx (node_of (fs_index s) (of_ino f)) = Some ?mi"
    by (simp_all add: file_wf_def k)
  have g0: "gf_opened (fs_reader s) = ms_opened M" and b0: "budget_wf (fs_budget s)"
    and "table_idle (fs_handles s) \<le> bg_retained (fs_budget s)" using inv by (simp_all add: fs_inv_def)
  then have n: "length (pl_idle p) \<le> bg_retained (fs_budget s)" using table_idle_member [OF get] by (simp add: file_idle_def k)
  have small: "uncompressed_size ?m < u64_max" "start_wf ?m" using fs_inv_small [OF inv mi] by (simp_all add: meta_small_def)
  obtain g b p' meta q where pr: "pool_read (sys_libs S) (sys_env S) offset (replicate want 0) (fs_reader s, fs_budget s, p, ?m)
      = ((g, b, p', meta), q)" by (metis prod.collapse)
  note h = pool_read_ok [OF spec g0 b0 pw n small(1) off pr]
  note ml = read_post_le [OF h(5)]
  let ?f = "f\<lparr>of_kind := CodedFile p'\<rparr>"
  have s': "s' = s\<lparr>fs_reader := g, fs_budget := b, fs_handles := handle_put fh ?f (fs_handles s), fs_index := put_meta ?mi meta (fs_index s)\<rparr>"
    and r: "r = (case q of Ok x \<Rightarrow> Ok x | Err e \<Rightarrow> Err (io_errno e) | Panic \<Rightarrow> Panic | Hang \<Rightarrow> Hang)"
    using eq pr by (simp_all add: read_coded_file_def)
  have le: "fs_le s s'" using put_meta_le [OF mi ml] h(1) by (simp add: s' fs_le_def)
  have pl: "pl_loc p' = pl_loc p" and cnt: "bg_retained b + length (pl_idle p) = bg_retained (fs_budget s) + length (pl_idle p')"
    using h(4) by (simp_all add: counted_def)
  have "file_wf M ?xc (fs_index s') ?f"
    using mi sz meta_le_fields(1) [OF ml] located_le [OF loc small(2) ml] h(3) nd by (simp add: file_wf_def s' pl)
  then have "fs_inv M ?xc s'"
    using h(2) cnt by (intro fs_inv_put [OF inv get le]) (auto simp: s' k file_idle_def)
  then show "keeps M ?xc s (s', r)" using le h(5) by (auto simp: keeps_def r read_post_def split: rust.splits)
  show "read_good M ?xc ?m offset want r"
    using h(5) unfolding located_content [OF loc] read_good_def r read_post_def by (auto split: rust.splits)
qed

section \<open>Handlers\<close>

lemma sub_slice_take: "n \<le> length xs \<Longrightarrow> sub_slice xs 0 n = Ok (take n xs)"
  by (simp add: sub_slice_def)

text \<open>
  What a read replies: content of the entry at the offset, as many bytes as were asked for and are
  left of the declared size unless the content ends before.
\<close>

definition data_good :: "('d, 'z, 'h) mount_spec \<Rightarrow> ext_consts \<Rightarrow> 'w entry_meta \<Rightarrow> nat \<Rightarrow> nat \<Rightarrow> bytes \<Rightarrow> bool" where
  "data_good M xc meta offset sz bs \<longleftrightarrow> length bs \<le> sz \<and> (bs \<noteq> [] \<longrightarrow> slice_at (meta_content M xc meta) offset bs)
     \<and> offset + length bs \<le> max offset (uncompressed_size meta)
     \<and> (length bs < sz \<longrightarrow> offset + length bs < uncompressed_size meta \<longrightarrow> offset + length bs = length (meta_content M xc meta))"

lemma fs_read_ok:
  assumes spec: "spec_ok S M" and inv: "fs_inv M (sys_consts S) s" and off: "offset \<le> u64_max"
    and eq: "fs_read S fh offset sz s = (s', r)"
  shows "keeps M (sys_consts S) s (s', r)"
    and "handle_get fh (fs_handles s) = None \<Longrightarrow> r = Err EBADF"
    and "handle_get fh (fs_handles s) = Some f \<Longrightarrow> r = Ok q
      \<Longrightarrow> \<exists>bs. q = ReplyData bs \<and> data_good M (sys_consts S) (metas (fs_index s) ! of_meta_idx f) offset sz bs"
proof -
  let ?xc = "sys_consts S"
  have "keeps M ?xc s (s', r) \<and> (handle_get fh (fs_handles s) = None \<longrightarrow> r = Err EBADF)
      \<and> (\<forall>f q. handle_get fh (fs_handles s) = Some f \<longrightarrow> r = Ok q
          \<longrightarrow> (\<exists>bs. q = ReplyData bs \<and> data_good M ?xc (metas (fs_index s) ! of_meta_idx f) offset sz bs))"
  proof (cases "handle_get fh (fs_handles s)")
    case None
    then show ?thesis using eq inv by (auto simp: fs_read_def keeps_def)
  next
    case (Some f)
    let ?m = "metas (fs_index s) ! of_meta_idx f"
    let ?want = "min sz (of_size f - offset)"
    have fw: "file_wf M ?xc (fs_index s) f" by (rule fs_inv_file [OF inv Some])
    then have om: "open_meta (fs_index s) f = (Ok ?m :: (errno, _) rust)" and size: "of_size f = uncompressed_size ?m"
      and kw: "kind_wf M ?xc ?m (of_kind f)" by (simp_all add: open_meta_def file_wf_def)
    have small: "uncompressed_size ?m < u64_max" using fs_inv_small [OF inv] fw by (simp add: file_wf_def meta_small_def)
    have tu: "try_usize ?want = Some ?want" using small size by (auto simp: try_usize_def)
    define p where "p = (case of_kind f of EmptyFile \<Rightarrow> (s, Ok (0, replicate ?want 0))
         | StoreFile start csize v \<Rightarrow> read_store_file S fh f start csize offset ?want s
         | CodedFile p \<Rightarrow> read_coded_file S fh f p offset ?want s)"
    obtain s1 q where p: "p = (s1, q)" by (cases p)
    have part: "keeps M ?xc s (s1, q) \<and> read_good M ?xc ?m offset ?want q" if "?want \<noteq> 0"
    proof (cases "of_kind f")
      case EmptyFile
      then show ?thesis using kw size that by simp
    next
      case (StoreFile start csize v)
      then show ?thesis using read_store_file_ok [OF spec inv Some StoreFile, of offset ?want s1 q] p by (simp add: p_def)
    next
      case (CodedFile pool)
      then show ?thesis using read_coded_file_ok [OF spec inv Some CodedFile off, of ?want s1 q] p by (simp add: p_def)
    qed
    consider (stale) "s' = s" "r = Err ESTALE" | (bad) "(s', r) = reply_error S EIO s"
      | (none) "?want = 0" "s' = s" "r = Ok (ReplyData [])"
      | (got) n buf where "?want \<noteq> 0" "q = Ok (n, buf)" "s' = s1" "r = rbind (sub_slice buf 0 n) (\<lambda>bs. Ok (ReplyData bs))"
      | (failed) e where "?want \<noteq> 0" "q = Err e" "(s', r) = reply_error S e s1"
    proof -
      have step: "(s', r) = (if is_stale (fs_reader s) then (s, Err ESTALE)
          else if verify_state ?m = VERIFY_BAD then reply_error S EIO s
          else if ?want = 0 then (s, Ok (ReplyData []))
          else case p of (s, Ok (n, buf)) \<Rightarrow> (s, rbind (sub_slice buf 0 n) (\<lambda>bs. Ok (ReplyData bs)))
            | (s, Err e) \<Rightarrow> reply_error S e s | (s, Panic) \<Rightarrow> (s, Panic) | (s, Hang) \<Rightarrow> (s, Hang))"
        unfolding eq [symmetric] fs_read_def Let_def Some option.case om rust.case tu p_def by simp
      show thesis using step stale bad none got failed part
        by (cases q) (auto simp: p keeps_def split: if_splits)
    qed
    then have "keeps M ?xc s (s', r) \<and> (\<forall>q. r = Ok q \<longrightarrow> (\<exists>bs. q = ReplyData bs \<and> data_good M ?xc ?m offset sz bs))"
    proof cases
      case bad
      then show ?thesis using reply_error_keeps [OF inv, of S EIO] reply_error_Err [of S EIO s] by (metis prod.inject rust.distinct(1))
    next
      case none
      then show ?thesis using inv size by (auto simp: keeps_def data_good_def)
    next
      case got
      then have g: "n \<le> length buf" "length buf = ?want" "slice_at (meta_content M ?xc ?m) offset (take n buf)"
        "n < ?want \<longrightarrow> offset + n < uncompressed_size ?m \<longrightarrow> offset + n = length (meta_content M ?xc ?m)"
        using part unfolding read_good_def by blast+
      then have "data_good M ?xc ?m offset sz (take n buf)" using size by (auto simp: data_good_def)
      then show ?thesis using part got sub_slice_take [OF g(1)] by (auto simp: keeps_def)
    next
      case failed
      then have k1: "keeps M ?xc s (s1, Err e :: (errno, nat \<times> bytes) rust)" using part by simp
      have "keeps M ?xc s1 (s', r)" using reply_error_keeps [of M ?xc s1 S e] keepsD [OF k1] failed(3) by metis
      moreover have "\<exists>e'. r = Err e'" using reply_error_Err [of S e s1] failed(3) by (metis prod.inject)
      ultimately show ?thesis using keeps_trans [OF k1] by auto
    qed (use inv in \<open>simp add: keeps_def\<close>)
    then show ?thesis using Some by auto
  qed
  then show "keeps M (sys_consts S) s (s', r)" and "handle_get fh (fs_handles s) = None \<Longrightarrow> r = Err EBADF"
    and "handle_get fh (fs_handles s) = Some f \<Longrightarrow> r = Ok q
      \<Longrightarrow> \<exists>bs. q = ReplyData bs \<and> data_good M (sys_consts S) (metas (fs_index s) ! of_meta_idx f) offset sz bs" by blast+
qed

lemma meta_of_Some: "meta_of idx nd = Some meta \<Longrightarrow> meta_idx nd < length (metas idx) \<and> meta = metas idx ! meta_idx nd"
  by (auto simp: meta_of_def split: if_splits)

text \<open>A new open file belongs to its entry.\<close>

lemma open_file_new_ok:
  assumes spec: "spec_ok S M" and inv: "fs_inv M (sys_consts S) s" and mi: "mi < length (metas (fs_index s))"
    and loc: "located (sys_consts S) loc (metas (fs_index s) ! mi)"
    and node: "node_of (fs_index s) ino = Some nd" "meta_idx nd = mi"
    and store: "loc_method loc = Store \<Longrightarrow> compressed_size (metas (fs_index s) ! mi) = uncompressed_size (metas (fs_index s) ! mi)"
  obtains f where "open_file_new (sys_libs S) (fs_index s) b ino mi loc c = (Ok f :: (errno, _) rust)"
    and "file_wf M (sys_consts S) (fs_index s) f" and "file_idle f = 0" and "of_ino f = ino" and "of_meta_idx f = mi"
proof -
  let ?m = "metas (fs_index s) ! mi" and ?L = "sys_libs S"
  let ?k = "if uncompressed_size ?m = 0 then EmptyFile else if loc_method loc = Store
      then StoreFile (loc_data_start loc) (loc_compressed_size loc) (if bg_verify b then Some (store_verify_new ?L) else None)
      else CodedFile (pool_new loc (decoders_per_file c))"
  let ?f = "\<lparr> of_ino = ino, of_meta_idx = mi, of_size = uncompressed_size ?m, of_kind = ?k \<rparr>"
  have laws: "crc_laws ?L (ms_hashed M) (ms_crc M)" using spec by (simp add: spec_ok_def sound_libs_def)
  have eq: "open_file_new ?L (fs_index s) b ino mi loc c = (Ok ?f :: (errno, _) rust)" using mi by (simp add: open_file_new_def Let_def)
  have "loc_method loc = Store \<Longrightarrow> store_loc (loc_data_start loc) (loc_compressed_size loc) = loc" by (simp add: store_loc_def)
  moreover have "ms_pool_wf M (pool_new loc n)" for n using loc by (intro pool_new_wf) (simp add: located_def)
  moreover have "loc_compressed_size loc = compressed_size ?m" using loc by (simp add: located_def)
  ultimately have "kind_wf M (sys_consts S) ?m ?k"
    using loc store store_verify_new_wf [OF laws, of "loc_content M loc"] by (auto simp: pool_new_def)
  then have "file_wf M (sys_consts S) (fs_index s) ?f" using mi node by (simp add: file_wf_def)
  then show thesis by (rule that [OF eq]) (auto simp: file_idle_def pool_new_def)
qed

lemma fs_open_ok:
  assumes spec: "spec_ok S M" and inv: "fs_inv M (sys_consts S) s" and eq: "fs_open S ino acc s = (s', r)"
  shows "keeps M (sys_consts S) s (s', r)"
    and "r = Ok q \<Longrightarrow> \<exists>fh f nd. q = ReplyOpened fh FOPEN_KEEP_CACHE \<and> handle_get fh (fs_handles s') = Some f
      \<and> node_of (fs_index s) ino = Some nd \<and> kind nd \<noteq> Dir \<and> acc = O_RDONLY \<and> of_meta_idx f = meta_idx nd \<and> of_ino f = ino
      \<and> \<not> is_stale (fs_reader s) \<and> (\<exists>loc. located (sys_consts S) loc (metas (fs_index s') ! meta_idx nd))"
proof -
  let ?xc = "sys_consts S"
  let ?good = "\<lambda>q. \<exists>fh f nd. q = ReplyOpened fh FOPEN_KEEP_CACHE \<and> handle_get fh (fs_handles s') = Some f
      \<and> node_of (fs_index s) ino = Some nd \<and> kind nd \<noteq> Dir \<and> acc = O_RDONLY \<and> of_meta_idx f = meta_idx nd \<and> of_ino f = ino
      \<and> \<not> is_stale (fs_reader s) \<and> (\<exists>loc. located ?xc loc (metas (fs_index s') ! meta_idx nd))"
  consider (err) e where "s' = s" "r = Err e"
    | (node) nd meta where "node_of (fs_index s) ino = Some nd" "kind nd \<noteq> Dir" "acc = O_RDONLY" "meta_of (fs_index s) nd = Some meta"
    using eq by (auto simp: fs_open_def split: option.splits if_splits)
  then have "keeps M ?xc s (s', r) \<and> (\<forall>q. r = Ok q \<longrightarrow> ?good q)"
  proof cases
    case err
    then show ?thesis using inv by (simp add: keeps_def)
  next
    case node
    let ?mi = "meta_idx nd"
    have mi: "?mi < length (metas (fs_index s))" using meta_of_Some [OF node(4)] by simp
    obtain s1 q where lo: "locate S ?mi s = (s1, q)" by (metis prod.collapse)
    note l = locate_ok [OF spec inv mi lo]
    have k1: "fs_inv M ?xc s1" "fs_le s s1" "q \<noteq> Panic" "q \<noteq> Hang" using keepsD [OF l(1)] by auto
    show ?thesis
    proof (cases q)
      case (Ok loc)
      have mi1: "?mi < length (metas (fs_index s1))" using mi k1(2) index_le_length by (fastforce simp: fs_le_def)
      have node1: "node_of (fs_index s1) ino = Some nd" using node(1) k1(2) index_le_node [of "fs_index s" "fs_index s1" ino] by (simp add: fs_le_def)
      obtain f where f: "open_file_new (sys_libs S) (fs_index s1) (fs_budget s1) ino ?mi loc (fs_config s1) = (Ok f :: (errno, _) rust)"
        and fw: "file_wf M ?xc (fs_index s1) f" and idle: "file_idle f = 0" and "of_ino f = ino" "of_meta_idx f = ?mi"
        using open_file_new_ok [OF spec k1(1) mi1 _ node1 refl] l(4) [OF Ok] by metis
      obtain t fh where t: "handle_insert f (fs_handles s1) = (t, fh)" by (cases "handle_insert f (fs_handles s1)")
      let ?s = "s1\<lparr>fs_handles := t\<rparr>"
      have dist: "distinct (map fst (ht_map (fs_handles s1)))" using k1(1) by (simp add: fs_inv_def)
      have le: "fs_le s1 ?s" by (simp add: fs_le_def)
      have m: "ht_map t = ht_map (handle_put fh f (fs_handles s1))" by (rule table_insert_eq [OF t])
      have "fs_inv M ?xc ?s"
      proof (rule fs_inv_step [OF k1(1) le])
        show "table_idle (fs_handles ?s) \<le> bg_retained (fs_budget ?s)"
          using table_insert_idle [OF dist t] idle k1(1) by (simp add: fs_inv_def)
        show "h \<in> table_files (fs_handles s1) \<or> file_wf M ?xc (fs_index ?s) h" if "h \<in> table_files (fs_handles ?s)" for h
          using that fw table_put_files [of fh f "fs_handles s1"] m by (auto simp: table_files_def)
      qed (use k1(1) table_put_distinct [OF dist] m in \<open>simp_all add: fs_inv_def\<close>)
      moreover have "handle_get fh t = Some f" using table.lookup_insert [OF t] by simp
      moreover have "s' = ?s" "r = Ok (ReplyOpened fh FOPEN_KEEP_CACHE)" using eq node lo Ok f t by (simp_all add: fs_open_def)
      moreover have "\<not> is_stale (fs_reader s)" using locate_fresh [OF lo [unfolded Ok]] .
      moreover have "located ?xc loc (metas (fs_index s1) ! ?mi)" using l(4) [OF Ok] by blast
      ultimately show ?thesis using fs_le_trans [OF k1(2) le] node \<open>of_ino f = ino\<close> \<open>of_meta_idx f = ?mi\<close>
        by (auto simp: keeps_def)
    next
      case (Err e)
      have "(s', r) = reply_error S e s1" using eq node lo Err by (simp add: fs_open_def)
      then show ?thesis using reply_error_keeps [OF k1(1), of S e] reply_error_Err [of S e s1] keeps_trans [OF l(1)]
        by (metis prod.inject rust.distinct(1))
    qed (use k1 in simp_all)
  qed
  then show "keeps M (sys_consts S) s (s', r)" and "r = Ok q \<Longrightarrow> ?good q" by blast+
qed

lemma set_symlink_le:
  assumes "set_symlink idx slot t = (idx', c)"
  shows "index_le idx idx'"
  using assms
  by (auto simp: set_symlink_def Let_def index_le_def symlink_def list_all2_refl nth_list_update split: if_splits option.splits)

lemma fs_readlink_keeps:
  assumes spec: "spec_ok S M" and inv: "fs_inv M (sys_consts S) s" and eq: "fs_readlink S ino s = (s', r)"
  shows "keeps M (sys_consts S) s (s', r)"
proof -
  let ?xc = "sys_consts S"
  consider (same) "s' = s" "r \<noteq> Panic" "r \<noteq> Hang"
    | (reads) nd meta where "node_of (fs_index s) ino = Some nd" "kind nd = Symlink" "meta_of (fs_index s) nd = Some meta"
      "symlink (fs_index s) (symlink_slot meta) = None"
    using eq by (auto simp: fs_readlink_def split: option.splits if_splits)
  then show ?thesis
  proof cases
    case reads
    obtain s1 q where ra: "read_all S (meta_idx nd) MAX_SYMLINK s = (s1, q)" by (metis prod.collapse)
    have mi: "meta_idx nd < length (metas (fs_index s))" using meta_of_Some [OF reads(3)] by simp
    note k1 = read_all_ok(1) [OF spec inv mi ra]
    show ?thesis
    proof (cases q)
      case (Ok t)
      obtain idx c where ss: "set_symlink (fs_index s1) (symlink_slot meta) t = (idx, c)" by (metis prod.collapse)
      have le: "fs_le s1 (s1\<lparr>fs_index := idx\<rparr>)" using set_symlink_le [OF ss] by (simp add: fs_le_def)
      have "fs_inv M ?xc (s1\<lparr>fs_index := idx\<rparr>)" using keepsD [OF k1] by (intro fs_inv_entries [OF _ le]) auto
      then have "keeps M ?xc s1 (s', r)"
        using eq reads ra Ok ss le by (auto simp: fs_readlink_def keeps_def split: option.splits)
      then show ?thesis by (rule keeps_trans [OF k1])
    next
      case (Err e)
      have "(s', r) = reply_error S e s1" using eq reads ra Err by (simp add: fs_readlink_def)
      then show ?thesis using keepsD [OF k1] reply_error_keeps [of M ?xc s1 S e] keeps_trans [OF k1] by metis
    qed (use keepsD [OF k1] in simp_all)
  qed (use inv in \<open>simp add: keeps_def\<close>)
qed

lemma fs_release_ok:
  assumes inv: "fs_inv M xc s" and eq: "fs_release fh s = (s', r)"
  shows "keeps M xc s (s', r)" and "handle_get fh (fs_handles s') = None" and "r = Ok ReplyOk"
proof -
  let ?t = "fs_handles s" and ?b = "fs_budget s"
  obtain t fo where rm: "handle_remove fh ?t = (t, fo)" by (cases "handle_remove fh ?t")
  let ?b' = "case map_option of_kind fo of Some (CodedFile p) \<Rightarrow> pool_drop p ?b | _ \<Rightarrow> ?b"
  have s': "s' = s\<lparr>fs_handles := t, fs_budget := ?b'\<rparr>" and r: "r = Ok ReplyOk" using eq rm by (simp_all add: fs_release_def)
  have t: "ht_map t = AList.delete fh (ht_map ?t)" and fo: "fo = handle_get fh ?t"
    using rm by (auto simp: handle_remove_def handle_get_def)
  have dist: "distinct (map fst (ht_map ?t))" and tb: "table_idle ?t \<le> bg_retained ?b" and bw: "budget_wf ?b"
    using inv by (simp_all add: fs_inv_def)
  have sum: "table_idle t + (case handle_get fh ?t of None \<Rightarrow> 0 | Some f \<Rightarrow> file_idle f) = table_idle ?t"
    using alist_delete_sum [OF dist, of file_idle fh] by (simp add: table_idle_def t handle_get_def)
  have b: "budget_wf ?b' \<and> table_idle t \<le> bg_retained ?b'"
  proof (cases "\<exists>f p. fo = Some f \<and> of_kind f = CodedFile p")
    case True
    then obtain f p where f: "fo = Some f" "of_kind f = CodedFile p" by blast
    have "ms_pool_wf M p" using fs_inv_file [OF inv, of fh f] f fo by (simp add: file_wf_def)
    moreover have "table_idle t + length (pl_idle p) = table_idle ?t" using sum f fo by (simp add: file_idle_def)
    ultimately show ?thesis using pool_drop_ok [OF bw, of "ms_hist M" "ms_decode M" "ms_hashed M" "ms_content M" p] tb f by simp
  next
    case False
    then have "?b' = ?b" by (auto split: option.splits open_kind.splits)
    then show ?thesis using bw sum tb by simp
  qed
  have le: "fs_le s s'" by (simp add: s' fs_le_def)
  have "set (ht_map t) \<subseteq> set (ht_map ?t)" by (simp add: t AList.delete_eq)
  then have "fs_inv M xc s'" using b AList.distinct_delete [OF dist, of fh]
    by (intro fs_inv_step [OF inv le]) (auto simp: s' t table_files_def)
  then show "keeps M xc s (s', r)" "handle_get fh (fs_handles s') = None" "r = Ok ReplyOk"
    using le r table.lookup_remove [OF rm] by (auto simp: keeps_def s')
qed

section \<open>Requests\<close>

text \<open>The offset of a read is a 64-bit number.\<close>

fun request_wf :: "request \<Rightarrow> bool" where
  "request_wf (Read fh offset sz) \<longleftrightarrow> offset \<le> u64_max"
| "request_wf _ \<longleftrightarrow> True"

lemma fs_lookup_total:
  assumes "index_wf (fs_index s)"
  shows "\<exists>r. fs_lookup par nm s = (s, r) \<and> r \<noteq> Panic \<and> r \<noteq> Hang"
  using lookup_ok [OF assms, of par nm] by (auto simp: fs_lookup_def split: option.splits)

lemma fs_readdir_total:
  assumes "index_wf (fs_index s)"
  shows "\<exists>r. fs_readdir full ino offset s = (s, r) \<and> r \<noteq> Panic \<and> r \<noteq> Hang"
    and "\<exists>r. fs_readdirplus fullp ino offset s = (s, r) \<and> r \<noteq> Panic \<and> r \<noteq> Hang"
proof -
  consider "node_of (fs_index s) ino = None" | nd where "node_of (fs_index s) ino = Some nd" "kind nd \<noteq> Dir"
    | nd where "node_of (fs_index s) ino = Some nd" "kind nd = Dir" by (cases "node_of (fs_index s) ino") auto
  then have "(\<exists>r. fs_readdir full ino offset s = (s, r) \<and> r \<noteq> Panic \<and> r \<noteq> Hang)
    \<and> (\<exists>r. fs_readdirplus fullp ino offset s = (s, r) \<and> r \<noteq> Panic \<and> r \<noteq> Hang)"
  proof cases
    case 3
    then show ?thesis using readdir_page [OF assms] readdirplus_page [OF assms] by auto
  qed (simp_all add: fs_readdir_def fs_readdirplus_def)
  then show "\<exists>r. fs_readdir full ino offset s = (s, r) \<and> r \<noteq> Panic \<and> r \<noteq> Hang"
    and "\<exists>r. fs_readdirplus fullp ino offset s = (s, r) \<and> r \<noteq> Panic \<and> r \<noteq> Hang" by blast+
qed

lemma serve_keeps:
  assumes spec: "spec_ok S M" and inv: "fs_inv M (sys_consts S) s" and wf: "request_wf q"
  shows "keeps M (sys_consts S) s (serve S q s)"
proof -
  let ?xc = "sys_consts S"
  have iw: "index_wf (fs_index s)" using inv by (simp add: fs_inv_def)
  have same: "keeps M ?xc s p" if "\<exists>r. p = (s, r) \<and> r \<noteq> Panic \<and> r \<noteq> Hang" for p :: "('a, 'b, 'c, 'd) zipfs \<times> (errno, reply) rust"
    using that inv by (auto simp: keeps_def)
  show ?thesis
  proof (cases q)
    case (Lookup par nm)
    then show ?thesis using same [OF fs_lookup_total [OF iw]] by simp
  next
    case (Readlink ino)
    then show ?thesis using fs_readlink_keeps [OF spec inv] by (cases "fs_readlink S ino s") simp
  next
    case (Open ino acc)
    then show ?thesis using fs_open_ok(1) [OF spec inv] by (cases "fs_open S ino acc s") simp
  next
    case (Read fh offset sz)
    then show ?thesis using fs_read_ok(1) [OF spec inv] wf by (cases "fs_read S fh offset sz s") simp
  next
    case (Release fh)
    then show ?thesis using fs_release_ok(1) [OF inv] by (cases "fs_release fh s") simp
  next
    case (Readdir full ino offset)
    then show ?thesis using same [OF fs_readdir_total(1) [OF iw]] by simp
  next
    case (Readdirplus full ino offset)
    then show ?thesis using same [OF fs_readdir_total(2) [OF iw]] by simp
  qed (auto intro!: same simp: fs_getattr_def fs_opendir_def fs_releasedir_def fs_access_def fs_getxattr_def fs_listxattr_def
      fs_flush_def fs_fsync_def fs_fsyncdir_def fs_statfs_def split: option.splits)
qed

text \<open>A state of the mount after some requests.\<close>

inductive reaches :: "('d, 'z, 'h, 'w) system \<Rightarrow> ('d, 'z, 'h, 'w) zipfs \<Rightarrow> ('d, 'z, 'h, 'w) zipfs \<Rightarrow> bool" for S s0 where
  start: "reaches S s0 s0"
| serve: "reaches S s0 s \<Longrightarrow> request_wf q \<Longrightarrow> serve S q s = (s', r) \<Longrightarrow> reaches S s0 s'"

end
