(* ===== verification/Fs_Mount.thy ===== *)
theory Fs_Mount
  imports Fs_Serve Build_Correct
begin

text \<open>
  From the archive to the mount: what a fresh mount is, and that its invariant and the targets of its
  symbolic links are right in every state requests can lead to.
\<close>

section \<open>A fresh mount\<close>

text \<open>The sizes a mount is verified for: a size of \<open>2 ^ 64 - 1\<close> would wrap the position of a decoder.\<close>

definition sizes_small :: "'w zip_record list \<Rightarrow> bool" where
  "sizes_small rs \<longleftrightarrow> list_all (\<lambda>r. zr_uncompressed_size_hint r < u64_max) rs"

lemma build_metas_from:
  assumes "build xc hint (map Inr rs) = Ok (idx, stats)" and "m \<in> set (metas idx)" and "fits rs"
  shows "\<exists>r \<in> set rs. m\<lparr>symlink_slot := 0\<rparr> = record_meta r"
  using build_steps [OF assms(3,1)] assms(2) by (metis finished_def)

lemma zipfs_new_Ok:
  assumes "zipfs_new xc hint records reader c = Ok s"
  obtains idx stats where "build xc hint records = Ok (idx, stats)" and "fs_index s = idx" and "fs_reader s = reader"
    and "fs_handles s = handle_table_new" and "fs_budget s = budget_new (clamp c)" and "fs_config s = clamp c" and "fs_stats s = stats"
  using assms by (auto simp: zipfs_new_def Let_def)

lemma zipfs_new_inv:
  assumes fits: "fits rs" and small: "sizes_small rs" and r: "zipfs_new xc hint (map Inr rs) reader c = Ok s"
    and opened: "gf_opened reader = ms_opened M"
  shows "fs_inv M xc s"
proof -
  obtain idx stats where b: "build xc hint (map Inr rs) = Ok (idx, stats)" and s: "fs_index s = idx" "fs_reader s = reader"
    "fs_handles s = handle_table_new" "fs_budget s = budget_new (clamp c)" by (rule zipfs_new_Ok [OF r])
  have "meta_small m" if m: "m \<in> set (metas idx)" for m
  proof -
    obtain rec where rec: "rec \<in> set rs" "m\<lparr>symlink_slot := 0\<rparr> = record_meta rec" using build_metas_from [OF b m fits] by blast
    have "uncompressed_size (m\<lparr>symlink_slot := 0\<rparr>) = zr_uncompressed_size_hint rec" "data_start (m\<lparr>symlink_slot := 0\<rparr>) = u64_max"
      unfolding rec(2) by (simp_all add: record_meta_def split: prod.splits)
    then show ?thesis using small rec(1) by (auto simp: meta_small_def start_wf_def sizes_small_def list_all_iff)
  qed
  moreover have "config_wf (clamp c)" using clamp_in_range by simp
  ultimately show ?thesis using build_index_wf(1) [OF fits b] budget_new_wf [of "clamp c"] opened
    by (simp add: fs_inv_def s list_all_iff handle_table_new_def table_idle_def table_files_def)
qed

section \<open>Symbolic links\<close>

text \<open>No two links share a cell, and a cell that is set holds the content of its link.\<close>

definition link_inos :: "'w index \<Rightarrow> nat set" where
  "link_inos idx = {i. 0 < i \<and> i < length (nodes idx) \<and> kind (nodes idx ! i) = Symlink}"

definition link_meta :: "'w index \<Rightarrow> nat \<Rightarrow> 'w entry_meta" where
  "link_meta idx i = metas idx ! meta_idx (nodes idx ! i)"

definition links_inv :: "('d, 'z, 'h) mount_spec \<Rightarrow> ext_consts \<Rightarrow> 'w index \<Rightarrow> bool" where
  "links_inv M xc idx \<longleftrightarrow> inj_on (\<lambda>i. symlink_slot (link_meta idx i)) (link_inos idx)
     \<and> (\<forall>i \<in> link_inos idx. \<forall>t. symlink idx (symlink_slot (link_meta idx i)) = Some t \<longrightarrow>
          whole_of M xc (link_meta idx i) t \<and> (\<exists>loc. located xc loc (link_meta idx i)))"

lemma build_links:
  assumes "fits rs" and "build xc hint (map Inr rs) = Ok (idx, stats)"
  shows "links_inv M xc idx"
proof -
  obtain b order fc fo where b: "builder_wf b" "finished b order fc fo idx" "symlinks idx = replicate (b_symlink_count b) None"
    using build_steps [OF assms] by metis
  have "i = j" if i: "i \<in> link_inos idx" and j: "j \<in> link_inos idx"
    and eq: "symlink_slot (link_meta idx i) = symlink_slot (link_meta idx j)" for i j
  proof -
    obtain t where t: "t < length (b_nodes b)" "i = fo ! t" using finished_ino [OF b(2), of i] i by (auto simp: link_inos_def)
    obtain u where u: "u < length (b_nodes b)" "j = fo ! u" using finished_ino [OF b(2), of j] j by (auto simp: link_inos_def)
    have "metas idx = b_metas b" using b(2) by (simp add: finished_def)
    then have "node_slot (b_nodes b) (b_metas b) t = node_slot (b_nodes b) (b_metas b) u"
      "tn_kind (b_nodes b ! t) = Symlink" "tn_kind (b_nodes b ! u) = Symlink"
      using eq i j finished_node(1) [OF b(2) t(1)] finished_node(1) [OF b(2) u(1)] t u
      by (simp_all add: link_meta_def node_slot_def out_node_def link_inos_def)
    then have "t = u" using builder_wfD(7) [OF b(1)] t(1) u(1) by (auto simp: slots_wf_def inj_on_def)
    then show "i = j" using t u by simp
  qed
  then show ?thesis using b(3) by (auto simp: links_inv_def inj_on_def symlink_def)
qed

text \<open>What is learnt of the entries does not touch the links.\<close>

lemma link_meta_le:
  assumes "index_wf idx" and "index_le idx idx'" and "i \<in> link_inos idx"
  shows "meta_le (link_meta idx i) (link_meta idx' i)" and "meta_idx (nodes idx ! i) < length (metas idx)"
proof -
  have "entry_wf idx i" using index_wfD(3) [OF assms(1)] assms(3) by (simp add: link_inos_def)
  then show l: "meta_idx (nodes idx ! i) < length (metas idx)" using assms(3) by (auto simp: entry_wf_def link_inos_def Let_def split: if_splits)
  show "meta_le (link_meta idx i) (link_meta idx' i)"
    using index_le_nth [OF assms(2) l] assms(2) by (simp add: link_meta_def index_le_def)
qed

lemma links_inv_le:
  assumes inv: "links_inv M xc idx" and wf: "index_wf idx" "list_all meta_small (metas idx)" and le: "index_le idx idx'"
    and new: "\<And>i t. i \<in> link_inos idx \<Longrightarrow> symlink idx' (symlink_slot (link_meta idx i)) = Some t \<Longrightarrow>
      symlink idx (symlink_slot (link_meta idx i)) = Some t
      \<or> whole_of M xc (link_meta idx' i) t \<and> (\<exists>loc. located xc loc (link_meta idx' i))"
  shows "links_inv M xc idx'"
proof -
  have same: "link_inos idx' = link_inos idx" using le by (simp add: link_inos_def index_le_def)
  have slot: "symlink_slot (link_meta idx' i) = symlink_slot (link_meta idx i)" if "i \<in> link_inos idx" for i
    using meta_le_fields(4) [OF link_meta_le(1) [OF wf(1) le that]] .
  have "whole_of M xc (link_meta idx' i) t \<and> (\<exists>loc. located xc loc (link_meta idx' i))"
    if i: "i \<in> link_inos idx" and t: "symlink idx' (symlink_slot (link_meta idx i)) = Some t" for i t
  proof (cases "symlink idx (symlink_slot (link_meta idx i)) = Some t")
    case True
    then obtain loc where w: "whole_of M xc (link_meta idx i) t" and loc: "located xc loc (link_meta idx i)"
      using inv i by (auto simp: links_inv_def)
    note ml = link_meta_le [OF wf(1) le i]
    have "start_wf (link_meta idx i)" using wf(2) ml(2) by (simp add: link_meta_def list_all_length meta_small_def)
    then show ?thesis using whole_of_le [OF w ml(1) loc] located_le [OF loc _ ml(1)] by blast
  qed (use new [OF i t] in blast)
  then show ?thesis using inv slot unfolding links_inv_def same inj_on_def by metis
qed

text \<open>Only \<open>readlink\<close> sets a cell.\<close>

abbreviation cells :: "('d, 'z, 'h, 'w) zipfs \<Rightarrow> bytes option list" where
  "cells s \<equiv> symlinks (fs_index s)"

named_theorems cells_of

lemma reply_error_cells [cells_of]: "reply_error S e s = (s', r) \<Longrightarrow> cells s' = cells s"
  by (auto simp: reply_error_def diagnose_def split: prod.splits if_splits)

lemma locate_cells [cells_of]: "locate S mi s = (s', r) \<Longrightarrow> cells s' = cells s"
  by (auto simp: locate_def Let_def split: if_splits sum.splits prod.splits rust.splits)

lemma verify_stored_cells [cells_of]: "verify_stored S mi data s = (s', r) \<Longrightarrow> cells s' = cells s"
  by (auto simp: verify_stored_def Let_def split: if_splits)

lemma read_once_cells [cells_of]: "read_once S mi loc out s = (s', r) \<Longrightarrow> cells s' = cells s"
  by (auto simp: read_once_def split: prod.splits)

lemma sbind_cells:
  assumes "sbind m f s = (s', r)" and "\<And>s1 q. m s = (s1, q) \<Longrightarrow> cells s1 = cells s"
    and "\<And>s1 x s2 q. f x s1 = (s2, q) \<Longrightarrow> cells s2 = cells s1"
  shows "cells s' = cells s"
proof -
  obtain s1 q where m: "m s = (s1, q)" by (cases "m s")
  show ?thesis using assms(1) assms(2) [OF m] m by (cases q) (auto dest: assms(3))
qed

lemma read_located_cells [cells_of]:
  assumes "read_located S mi loc sz s = (s', r)"
  shows "cells s' = cells s"
proof -
  obtain g q where rd: "read_direct (sys_env S) loc 0 sz (fs_reader s) = (g, q)" by (metis prod.collapse)
  have v: "cells s' = cells s1" if "sbind (verify_stored S mi out) (\<lambda>u s. (s, Ok out)) s1 = (s', r)" for out and s1 :: "('a, 'b, 'c, 'd) zipfs"
    using that by (rule sbind_cells) (auto dest: verify_stored_cells)
  have o: "cells s' = cells s" if "sbind (read_once S mi loc out) (\<lambda>r s. (s, Ok (snd r))) s = (s', r)" for out
    using that by (rule sbind_cells) (auto dest: read_once_cells)
  have o2: "cells s' = cells s" if "sbind (read_once S mi loc out) (\<lambda>(n, out) s. (s, if n \<noteq> sz then Err EIO else Ok out)) s = (s', r)" for out
    using that by (rule sbind_cells) (auto dest: read_once_cells)
  show ?thesis using assms rd v [of _ "s\<lparr>fs_reader := g\<rparr>"] v [of "[]" s] o [of "[]"] o2 [of "replicate sz 0"]
    by (cases q) (auto simp: read_located_def split: if_splits prod.splits)
qed

lemma read_all_cells [cells_of]:
  assumes "read_all S mi limit s = (s', r)"
  shows "cells s' = cells s"
proof (cases "verify_state (metas (fs_index s) ! mi) = VERIFY_BAD")
  case False
  show ?thesis by (rule sbind_cells [OF assms [unfolded read_all_eq if_not_P [OF False]]])
      (auto simp: Let_def dest: cells_of split: if_splits)
qed (use assms in \<open>simp add: read_all_eq\<close>)

lemma fs_open_cells [cells_of]: "fs_open S ino acc s = (s', r) \<Longrightarrow> cells s' = cells s"
  by (auto simp: fs_open_def split: option.splits if_splits prod.splits rust.splits dest!: locate_cells reply_error_cells)

lemma read_store_cells [cells_of]: "read_store_file S fh f start csize offset want s = (s', r) \<Longrightarrow> cells s' = cells s"
  by (auto simp: read_store_file_def Let_def split: prod.splits rust.splits)

lemma read_coded_cells [cells_of]: "read_coded_file S fh f p offset want s = (s', r) \<Longrightarrow> cells s' = cells s"
  by (auto simp: read_coded_file_def split: prod.splits)

lemma fs_read_cells [cells_of]:
  assumes "fs_read S fh offset sz s = (s', r)"
  shows "cells s' = cells s"
proof (cases "handle_get fh (fs_handles s)")
  case (Some f)
  have p: "cells s1 = cells s" if "(case of_kind f of EmptyFile \<Rightarrow> (s, Ok (0, replicate want 0))
         | StoreFile start csize v \<Rightarrow> read_store_file S fh f start csize offset want s
         | CodedFile p \<Rightarrow> read_coded_file S fh f p offset want s) = (s1, q)" for want s1 q
    using that by (auto dest: cells_of split: open_kind.splits)
  show ?thesis using assms unfolding fs_read_def Some option.case Let_def
    by (auto dest!: reply_error_cells p split: if_splits rust.splits option.splits prod.splits)
qed (use assms in \<open>simp add: fs_read_def\<close>)

lemma serve_cells:
  assumes "serve S q s = (s', r)" and "\<nexists>ino. q = Readlink ino"
  shows "cells s' = cells s"
  using assms
  by (cases q) (auto simp: fs_lookup_def fs_getattr_def fs_release_def fs_opendir_def fs_readdir_def fs_readdirplus_def
      fs_releasedir_def fs_access_def fs_getxattr_def fs_listxattr_def fs_flush_def fs_fsync_def fs_fsyncdir_def fs_statfs_def
      Let_def dest: cells_of split: prod.splits)

lemma symlink_cells: "cells s' = cells s \<Longrightarrow> symlink (fs_index s') slot = symlink (fs_index s) slot"
  by (simp add: symlink_def)

lemma set_symlink_cell:
  assumes "slot < length (symlinks idx)" and "symlink idx slot = None" and "set_symlink idx slot t = (idx', c)"
  shows "c = Some t" and "metas idx' = metas idx" and "nodes idx' = nodes idx"
    and "symlink idx' k = (if k = slot then Some t else symlink idx k)"
  using assms by (auto simp: set_symlink_def Let_def symlink_def nth_list_update)

lemma fs_readlink_ok:
  assumes spec: "spec_ok S M" and inv: "fs_inv M (sys_consts S) s" and links: "links_inv M (sys_consts S) (fs_index s)"
    and eq: "fs_readlink S ino s = (s', r)"
  shows "links_inv M (sys_consts S) (fs_index s')"
    and "r = Ok q \<Longrightarrow> \<exists>t. q = ReplyData t \<and> ino \<in> link_inos (fs_index s) \<and> whole_of M (sys_consts S) (link_meta (fs_index s') ino) t"
proof -
  let ?xc = "sys_consts S" and ?idx = "fs_index s"
  have iw: "index_wf ?idx" and sm: "list_all meta_small (metas ?idx)" using inv by (simp_all add: fs_inv_def)
  have keep: "links_inv M ?xc (fs_index s1)" if "fs_le s s1" "cells s1 = cells s" for s1 :: "('a, 'b, 'c, 'd) zipfs"
    using symlink_cells [OF that(2)] that(1) by (intro links_inv_le [OF links iw sm]) (simp_all add: fs_le_def)
  consider (err) e where "s' = s" "r = Err e"
    | (node) nd meta where "node_of ?idx ino = Some nd" "kind nd = Symlink" "meta_of ?idx nd = Some meta"
    using eq by (auto simp: fs_readlink_def split: option.splits if_splits)
  then have "links_inv M ?xc (fs_index s') \<and> (\<forall>q. r = Ok q \<longrightarrow>
      (\<exists>t. q = ReplyData t \<and> ino \<in> link_inos ?idx \<and> whole_of M ?xc (link_meta (fs_index s') ino) t))"
  proof cases
    case err
    then show ?thesis using links by simp
  next
    case node
    have ino: "ino \<in> link_inos ?idx" and nd: "nd = nodes ?idx ! ino" using node(1,2) node_of_Some [OF iw, of ino nd] by (auto simp: link_inos_def)
    have mi: "meta_idx nd < length (metas ?idx)" and meta: "meta = link_meta ?idx ino"
      using meta_of_Some [OF node(3)] by (simp_all add: link_meta_def nd)
    show ?thesis
    proof (cases "symlink ?idx (symlink_slot meta)")
      case (Some t)
      then have "whole_of M ?xc (link_meta ?idx ino) t" using links ino by (simp add: links_inv_def meta)
      then show ?thesis using eq node Some links ino by (auto simp: fs_readlink_def)
    next
      case None
      obtain s1 q where ra: "read_all S (meta_idx nd) MAX_SYMLINK s = (s1, q)" by (metis prod.collapse)
      note h = read_all_ok [OF spec inv mi ra] and c1 = read_all_cells [OF ra]
      have k1: "fs_inv M ?xc s1" "fs_le s s1" "q \<noteq> Panic" "q \<noteq> Hang" using keepsD [OF h(1)] by auto
      show ?thesis
      proof (cases q)
        case (Err e)
        then have re: "(s', r) = reply_error S e s1" using eq node None ra by (simp add: fs_readlink_def)
        then have "cells s' = cells s" using reply_error_cells [of S e s1 s' r] c1 by simp
        moreover have "fs_le s1 s'" using reply_error_keeps [OF k1(1), of S e] re by (metis keepsD)
        ultimately show ?thesis using keep fs_le_trans [OF k1(2)] re reply_error_Err [of S e s1]
          by (metis prod.inject rust.distinct(1))
      next
        case (Ok t)
        obtain idx c where ss: "set_symlink (fs_index s1) (symlink_slot meta) t = (idx, c)" by (metis prod.collapse)
        have "entry_wf ?idx ino" using index_wfD(3) [OF iw] ino by (simp add: link_inos_def)
        then have "symlink_slot meta < length (cells s1)" using ino c1 by (simp add: entry_wf_def link_inos_def Let_def meta link_meta_def)
        moreover have "symlink (fs_index s1) (symlink_slot meta) = None" using None symlink_cells [OF c1] by simp
        ultimately have st: "c = Some t" "metas idx = metas (fs_index s1)" "nodes idx = nodes (fs_index s1)"
          "\<And>k. symlink idx k = (if k = symlink_slot meta then Some t else symlink ?idx k)"
          using set_symlink_cell [OF _ _ ss] symlink_cells [OF c1] by auto
        have s': "s' = s1\<lparr>fs_index := idx\<rparr>" and r: "r = Ok (ReplyData t)" using eq node None ra Ok ss st(1) by (simp_all add: fs_readlink_def)
        have le: "index_le ?idx idx" using k1(2) set_symlink_le [OF ss] index_le_trans by (auto simp: fs_le_def)
        have "link_meta idx ino = metas (fs_index s1) ! meta_idx nd" using le by (simp add: link_meta_def st nd index_le_def)
        then have w: "whole_of M ?xc (link_meta idx ino) t" "\<exists>loc. located ?xc loc (link_meta idx ino)" using h(2) [OF Ok] by auto
        have "links_inv M ?xc idx"
        proof (rule links_inv_le [OF links iw sm le])
          fix i u
          assume i: "i \<in> link_inos ?idx" and u: "symlink idx (symlink_slot (link_meta ?idx i)) = Some u"
          show "symlink ?idx (symlink_slot (link_meta ?idx i)) = Some u
            \<or> whole_of M ?xc (link_meta idx i) u \<and> (\<exists>loc. located ?xc loc (link_meta idx i))"
          proof (cases "symlink_slot (link_meta ?idx i) = symlink_slot meta")
            case True
            then have "i = ino" using links i ino by (auto simp: links_inv_def meta inj_on_def)
            then show ?thesis using u w by (simp add: st(4) meta)
          qed (use u in \<open>simp add: st(4)\<close>)
        qed
        then show ?thesis using w ino by (simp add: s' r)
      qed (use k1 in simp_all)
    qed
  qed
  then show "links_inv M ?xc (fs_index s')" and "r = Ok q \<Longrightarrow> \<exists>t. q = ReplyData t \<and> ino \<in> link_inos ?idx
      \<and> whole_of M ?xc (link_meta (fs_index s') ino) t" by blast+
qed

text \<open>Every state the requests can lead to.\<close>

definition mount_inv :: "('d, 'z, 'h) mount_spec \<Rightarrow> ext_consts \<Rightarrow> ('d, 'z, 'h, 'w) zipfs \<Rightarrow> bool" where
  "mount_inv M xc s \<longleftrightarrow> fs_inv M xc s \<and> links_inv M xc (fs_index s)"

lemma serve_mount_inv:
  assumes spec: "spec_ok S M" and inv: "mount_inv M (sys_consts S) s" and wf: "request_wf q" and eq: "serve S q s = (s', r)"
  shows "mount_inv M (sys_consts S) s'" and "fs_le s s'" and "r \<noteq> Panic \<and> r \<noteq> Hang"
proof -
  have fi: "fs_inv M (sys_consts S) s" and li: "links_inv M (sys_consts S) (fs_index s)" using inv by (simp_all add: mount_inv_def)
  have k: "fs_inv M (sys_consts S) s'" "fs_le s s'" "r \<noteq> Panic" "r \<noteq> Hang"
    using serve_keeps [OF spec fi wf] eq by (simp_all add: keeps_def)
  have "links_inv M (sys_consts S) (fs_index s')"
  proof (cases "\<exists>ino. q = Readlink ino")
    case True
    then show ?thesis using fs_readlink_ok(1) [OF spec fi li] eq by auto
  next
    case False
    have "cells s' = cells s" using serve_cells [OF eq] False by blast
    from symlink_cells [OF this] show ?thesis
      using fi k(2) by (intro links_inv_le [OF li]) (simp_all add: fs_inv_def fs_le_def)
  qed
  then show "mount_inv M (sys_consts S) s'" and "fs_le s s'" and "r \<noteq> Panic \<and> r \<noteq> Hang" using k by (simp_all add: mount_inv_def)
qed

lemma reaches_inv:
  assumes "reaches S s0 s" and "spec_ok S M" and "mount_inv M (sys_consts S) s0"
  shows "mount_inv M (sys_consts S) s \<and> fs_le s0 s"
  using assms(1)
proof (induction rule: reaches.induct)
  case (serve s q s' r)
  note h = serve_mount_inv [OF assms(2) _ serve.hyps(2,3)]
  show ?case using h(1,2) serve.IH fs_le_trans by blast
qed (use assms(3) in simp)

lemma mount_fresh_inv:
  assumes "fits rs" and "sizes_small rs" and "zipfs_new xc hint (map Inr rs) reader c = Ok s" and "gf_opened reader = ms_opened M"
  shows "mount_inv M xc s"
proof -
  obtain idx stats where b: "build xc hint (map Inr rs) = Ok (idx, stats)" and s: "fs_index s = idx"
    by (rule zipfs_new_Ok [OF assms(3)])
  show ?thesis using zipfs_new_inv [OF assms] build_links [OF assms(1) b] by (simp add: mount_inv_def s)
qed

lemma mount_reached:
  assumes "spec_ok S M" and "fits rs" and "sizes_small rs" and "zipfs_new (sys_consts S) hint (map Inr rs) reader c = Ok s0"
    and "gf_opened reader = ms_opened M" and "reaches S s0 s"
  shows "mount_inv M (sys_consts S) s \<and> fs_le s0 s"
  using reaches_inv [OF assms(6,1) mount_fresh_inv [OF assms(2-5)]] .

end
