(* ===== verification/Fs_Live.thy ===== *)
theory Fs_Live
  imports Fs_Mount
begin

text \<open>
  Reads that succeed: with the archive left alone, an open file of a good entry can be read anywhere,
  whatever was read through it before.
\<close>

lemma calm_direct:
  assumes calm: "calm opened g" and fit: "offset + n \<le> loc_compressed_size loc"
    "loc_data_start loc + loc_compressed_size loc \<le> length content" "loc_data_start loc + loc_compressed_size loc \<le> u64_max"
  obtains g' where "read_direct (quiet_env opened content) loc offset n g = (g', Ok (take n (drop offset (entry_raw content loc))))"
    and "calm opened g'"
proof -
  have in_file: "loc_data_start loc + offset + n \<le> length content" using fit by linarith
  obtain g' where r: "read_exact_at (quiet_env opened content) (loc_data_start loc + offset) n g
      = (g', Ok (take n (drop (loc_data_start loc + offset) content)))" and c: "calm opened g'"
    by (rule calm_read_exact [OF calm in_file])
  have "take n (drop (loc_data_start loc + offset) content) = take n (drop offset (entry_raw content loc))"
    using fit(1) by (simp add: entry_raw_def drop_take add.commute min_def)
  then show thesis using that [OF _ c] r fit by (simp add: read_direct_def checked_add_u64_def archive_read_at_def)
qed

text \<open>An entry that can be read: as the central directory says, inside the archive, and one its codec accepts.\<close>

definition good_entry :: "('d, 'z, 'h) mount_spec \<Rightarrow> (('d, 'z) codec \<Rightarrow> bytes \<Rightarrow> bool) \<Rightarrow> entry_location \<Rightarrow> 'w entry_meta \<Rightarrow> bool" where
  "good_entry M accepts loc meta \<longleftrightarrow> entry_matches (ms_crc M) meta (loc_content M loc)
     \<and> loc_data_start loc + loc_compressed_size loc \<le> length (ms_content M)
     \<and> (\<forall>c. codec_method c = loc_method loc \<longrightarrow> accepts c (entry_raw (ms_content M) loc))"

lemma pool_read_live:
  assumes spec: "spec_ok S M" and env: "sys_env S = quiet_env (ms_opened M) (ms_content M)"
    and live: "live_libs (sys_libs S) (ms_hist M) (ms_decode M) accepts"
    and calm: "calm (ms_opened M) g" and bw: "budget_wf b" and pw: "ms_pool_wf M p"
    and n: "length (pl_idle p) \<le> bg_retained b" and small: "uncompressed_size meta < u64_max"
    and good: "good_entry M accepts (pl_loc p) meta" and off: "offset \<le> uncompressed_size meta"
  shows "\<exists>st buf. pool_read (sys_libs S) (sys_env S) offset out (g, b, p, meta)
      = (st, Ok (min (length out) (uncompressed_size meta - offset), buf))
    \<and> take (min (length out) (uncompressed_size meta - offset)) buf = take (length out) (drop offset (loc_content M (pl_loc p)))"
proof -
  let ?L = "sys_libs S"
  have sound: "sound_libs ?L (ms_hist M) (ms_decode M) (ms_hashed M) (ms_crc M)" and zn: "zstd_new ?L \<noteq> None"
    using spec by (simp_all add: spec_ok_def)
  obtain b1 p1 d where co: "checkout ?L offset (b, p) = ((b1, p1), Ok d)"
    and d: "decoder_for (ms_hist M) (ms_decode M) (ms_hashed M) (ms_content M) (pl_loc p) d" and pos: "dec_pos d \<le> offset"
    by (rule checkout_ok [OF sound zn bw pw n])
  have dw: "decoder_wf (ms_hist M) (ms_decode M) (ms_hashed M) (ms_content M) d" using d by (simp add: decoder_for_def)
  have D: "decoded (ms_decode M) (ms_content M) d = loc_content M (pl_loc p)" using decoder_for_content [OF d] by (simp add: loc_content_def)
  have "entry_bytes (ms_content M) d = entry_raw (ms_content M) (pl_loc p)"
    using d by (simp add: decoder_for_def entry_bytes_def range_of_def entry_raw_def)
  then have rd: "ready accepts (ms_opened M) (ms_content M) g d" using good calm d by (simp add: ready_def good_entry_def decoder_for_def)
  have m: "entry_matches (ms_crc M) meta (decoded (ms_decode M) (ms_content M) d)" using good by (simp add: D good_entry_def)
  obtain g1 d1 m1 buf where r: "decoder_read_at ?L (sys_env S) offset out (g, d, meta)
         = ((g1, d1, m1), Ok (min (length out) (uncompressed_size meta - offset), buf))"
    and t: "take (min (length out) (uncompressed_size meta - offset)) buf = take (length out) (drop offset (loc_content M (pl_loc p)))"
    using decoder_read_at_live [OF sound live dw rd small m pos off] unfolding env D by metis
  obtain b2 p2 where "give_back d1 (b1, p1) = (b2, p2)" by (cases "give_back d1 (b1, p1)")
  then have "pool_read ?L (sys_env S) offset out (g, b, p, meta)
      = ((g1, b2, p2, m1), Ok (min (length out) (uncompressed_size meta - offset), buf))"
    using co r by (simp add: pool_read_def)
  then show ?thesis using t by blast
qed

lemma fs_read_live:
  assumes spec: "spec_ok S M" and env: "sys_env S = quiet_env (ms_opened M) (ms_content M)"
    and live: "live_libs (sys_libs S) (ms_hist M) (ms_decode M) accepts"
    and inv: "fs_inv M (sys_consts S) s" and fresh: "\<not> is_stale (fs_reader s)" and off: "offset \<le> u64_max"
    and get: "handle_get fh (fs_handles s) = Some f" and meta: "meta = metas (fs_index s) ! of_meta_idx f"
    and vs: "verify_state meta \<noteq> VERIFY_BAD" and cz: "\<not> compressed_size_zero meta"
    and mthd: "entry_method (sys_consts S) meta = Some m" and good: "good_entry M accepts (loc_of meta m) meta"
  shows "\<exists>s'. fs_read S fh offset sz s = (s', Ok (ReplyData (take sz (drop offset (meta_content M (sys_consts S) meta)))))"
proof -
  let ?xc = "sys_consts S" and ?D = "meta_content M (sys_consts S) meta"
  let ?want = "min sz (of_size f - offset)"
  have fw: "file_wf M ?xc (fs_index s) f" by (rule fs_inv_file [OF inv get])
  then have mi: "of_meta_idx f < length (metas (fs_index s))" and size: "of_size f = uncompressed_size meta"
    and kw: "kind_wf M ?xc meta (of_kind f)" and om: "open_meta (fs_index s) f = (Ok meta :: (errno, _) rust)"
    by (simp_all add: file_wf_def open_meta_def meta)
  have small: "uncompressed_size meta < u64_max" "start_wf meta" using fs_inv_small [OF inv mi] by (simp_all add: meta_small_def meta)
  have D: "length ?D = uncompressed_size meta" and crc: "ms_crc M ?D = crc32 meta"
    using good mthd by (simp_all add: good_entry_def meta_content_def entry_matches_def)
  have calm: "calm (ms_opened M) (fs_reader s)" using inv fresh by (simp add: calm_def is_stale_def fs_inv_def)
  have tu: "try_usize ?want = Some ?want" using small(1) size by (auto simp: try_usize_def)
  have eq: "fs_read S fh offset sz s = (if ?want = 0 then (s, Ok (ReplyData []))
      else case (case of_kind f of EmptyFile \<Rightarrow> (s, Ok (0, replicate ?want 0))
           | StoreFile start csize v \<Rightarrow> read_store_file S fh f start csize offset ?want s
           | CodedFile p \<Rightarrow> read_coded_file S fh f p offset ?want s) of
             (s, Ok (n, buf)) \<Rightarrow> (s, rbind (sub_slice buf 0 n) (\<lambda>bs. Ok (ReplyData bs)))
           | (s, Err e) \<Rightarrow> reply_error S e s | (s, Panic) \<Rightarrow> (s, Panic) | (s, Hang) \<Rightarrow> (s, Hang))"
    using fresh vs unfolding fs_read_def Let_def get option.case om rust.case tu by simp
  show ?thesis
  proof (cases "?want = 0")
    case True
    then have "take sz (drop offset ?D) = []" using D size by auto
    then show ?thesis using eq True by simp
  next
    case False
    then have in_size: "offset + ?want \<le> uncompressed_size meta" "0 < uncompressed_size meta" using size by auto
    then have cs: "compressed_size meta \<noteq> 0" using cz by (simp add: compressed_size_zero_def)
    have tk: "take ?want (drop offset ?D) = take sz (drop offset ?D)" using D size by (simp add: min_def)
    have at: "loc = loc_of meta m" if "located ?xc loc meta" for loc
      using that mthd cs by (simp add: located_def loc_of_def)
    show ?thesis
    proof (cases "of_kind f")
      case EmptyFile
      then show ?thesis using kw in_size by simp
    next
      case (StoreFile start csize v)
      then have loc: "located ?xc (store_loc start csize) meta" and csz: "csize = uncompressed_size meta"
        using kw by auto
      have lc: "store_loc start csize = loc_of meta m" by (rule at [OF loc])
      have fit: "offset + ?want \<le> loc_compressed_size (store_loc start csize)" using in_size csz by (simp add: store_loc_def)
      have inside: "loc_data_start (store_loc start csize) + loc_compressed_size (store_loc start csize) \<le> length (ms_content M)"
        using good by (simp add: good_entry_def lc)
      obtain g where rd: "read_direct (sys_env S) (store_loc start csize) offset ?want (fs_reader s)
          = (g, Ok (take ?want (drop offset (entry_raw (ms_content M) (store_loc start csize)))))"
        using calm_direct [OF calm fit inside] loc env by (auto simp: located_def)
      have raw: "entry_raw (ms_content M) (store_loc start csize) = ?D"
        using located_content [OF loc, of M] loc_content_store [of "store_loc start csize" M] by (simp add: store_loc_def)
      obtain f' meta' b where ob: "observe_store (sys_libs S) offset (take sz (drop offset ?D)) (f, meta) = ((f', meta'), b)"
        by (metis prod.collapse)
      have sl: "slice_at (loc_content M (store_loc start csize)) offset (take sz (drop offset ?D))"
      proof -
        have "slice_at ?D offset (take ?want (drop offset ?D))" using in_size D by (intro slice_at_take_drop) simp
        then show ?thesis using tk located_content [OF loc, of M] by simp
      qed
      have "crc_laws (sys_libs S) (ms_hashed M) (ms_crc M)" using spec by (simp add: spec_ok_def sound_libs_def)
      from observe_store_ok(4) [OF this StoreFile kw _ sl ob] have b
        using crc located_content [OF loc, of M] small by (auto simp: meta_small_def)
      then obtain s1 bs where rs: "read_store_file S fh f start csize offset ?want s = (s1, Ok (length bs, bs))" "bs = take sz (drop offset ?D)"
        using rd ob meta tk raw by (auto simp: read_store_file_def Let_def store_loc_def [symmetric])
      have "fs_read S fh offset sz s = (s1, Ok (ReplyData bs))" using eq False StoreFile rs(1) by simp
      then show ?thesis using rs(2) by blast
    next
      case (CodedFile p)
      then have loc: "located ?xc (pl_loc p) meta" and pw: "ms_pool_wf M p" using kw by auto
      have bw: "budget_wf (fs_budget s)" and "table_idle (fs_handles s) \<le> bg_retained (fs_budget s)" using inv by (simp_all add: fs_inv_def)
      then have n: "length (pl_idle p) \<le> bg_retained (fs_budget s)" using table_idle_member [OF get] by (simp add: file_idle_def CodedFile)
      have gd: "good_entry M accepts (pl_loc p) meta" using good at [OF loc] by simp
      have "offset \<le> uncompressed_size meta" using in_size by simp
      from pool_read_live [OF spec env live calm bw pw n small(1) gd this, of "replicate ?want 0"] obtain st buf
        where pr: "pool_read (sys_libs S) (sys_env S) offset (replicate ?want 0) (fs_reader s, fs_budget s, p, meta) = (st, Ok (?want, buf))"
          and t: "take ?want buf = take sz (drop offset ?D)"
        using tk located_content [OF loc, of M] size by (auto simp: min_def split: if_splits)
      obtain g b p' m' where st: "st = (g, b, p', m')" by (metis prod.collapse)
      obtain s1 where rc: "read_coded_file S fh f p offset ?want s = (s1, Ok (?want, buf))"
        using pr st meta by (simp add: read_coded_file_def)
      have "?want \<le> length buf" using read_coded_file_ok(2) [OF spec inv get CodedFile off rc] by (simp add: read_good_def)
      then show ?thesis using eq False CodedFile rc t sub_slice_take [of ?want buf] by simp
    qed
  qed
qed

text \<open>Opening a good file succeeds.\<close>

lemma fs_open_live:
  assumes inv: "fs_inv M (sys_consts S) s" and fresh: "\<not> is_stale (fs_reader s)"
    and node: "node_of (fs_index s) ino = Some nd" "kind nd \<noteq> Dir" and mo: "meta_of (fs_index s) nd = Some meta"
    and mthd: "entry_method (sys_consts S) meta = Some m" "\<not> encrypted meta" "m = Store \<longrightarrow> compressed_size meta = uncompressed_size meta"
    and found: "resolve_start (sys_get_entry S) (fs_reader s, meta) = ((g, meta'), Ok lo)"
  shows "\<exists>fh f. fs_open S ino O_RDONLY s =
      (s\<lparr>fs_reader := g, fs_index := put_meta (meta_idx nd) meta' (fs_index s), fs_handles := fst (handle_insert f (fs_handles s))\<rparr>,
       Ok (ReplyOpened fh FOPEN_KEEP_CACHE))
    \<and> handle_get fh (fst (handle_insert f (fs_handles s))) = Some f \<and> of_meta_idx f = meta_idx nd"
proof -
  let ?mi = "meta_idx nd" and ?loc = "\<lparr> loc_data_start = lo, loc_compressed_size = compressed_size meta, loc_method = m \<rparr>"
  have mi: "?mi < length (metas (fs_index s))" and meta: "meta = metas (fs_index s) ! ?mi" using meta_of_Some [OF mo] by auto
  let ?s = "s\<lparr>fs_reader := g, fs_index := put_meta ?mi meta' (fs_index s)\<rparr>"
  have rd: "readable (sys_consts S) meta = Inr m" using mthd by (simp add: readable_def)
  have lo: "locate S ?mi s = (?s, Ok ?loc)" using fresh rd mthd(3) found meta by (simp add: locate_def Let_def)
  obtain f where f: "open_file_new (sys_libs S) (fs_index ?s) (fs_budget ?s) ino ?mi ?loc (fs_config ?s) = (Ok f :: (errno, _) rust)"
    and "of_meta_idx f = ?mi" using mi by (auto simp: open_file_new_def Let_def)
  obtain t fh where t: "handle_insert f (fs_handles s) = (t, fh)" by (cases "handle_insert f (fs_handles s)")
  have "fs_open S ino O_RDONLY s = (?s\<lparr>fs_handles := t\<rparr>, Ok (ReplyOpened fh FOPEN_KEEP_CACHE))"
    using node mo lo f t by (simp add: fs_open_def)
  then show ?thesis using t table.lookup_insert [OF t] \<open>of_meta_idx f = ?mi\<close>
    by (intro exI [of _ fh] exI [of _ f]) simp
qed

text \<open>
  The crate finds the entry: asked for the local header, it returns the range of the entry's data,
  and asking leaves an untouched archive untouched.
\<close>

definition finds :: "stamp \<Rightarrow> 'w get_entry \<Rightarrow> 'w \<Rightarrow> nat \<Rightarrow> nat \<Rightarrow> bool" where
  "finds opened get_entry w lo csize \<longleftrightarrow>
     (\<forall>g. calm opened g \<longrightarrow> (\<exists>g'. get_entry w g = (g', Ok (lo, lo + csize)) \<and> calm opened g'))"

lemma resolve_start_finds:
  assumes "finds opened get_entry (wayfinder meta) lo (compressed_size meta)" and "calm opened g"
    and "data_start meta = u64_max \<or> data_start meta = lo"
  obtains g' where "resolve_start get_entry (g, meta) = ((g', meta\<lparr>data_start := lo\<rparr>), Ok lo)" and "calm opened g'"
proof -
  obtain g' where g': "get_entry (wayfinder meta) g = (g', Ok (lo, lo + compressed_size meta))" "calm opened g'"
    using assms(1,2) by (auto simp: finds_def)
  show thesis
  proof (cases "data_start meta = u64_max")
    case True
    then show ?thesis using that g' by (simp add: resolve_start_def checked_sub_def)
  next
    case False
    then have "lo = data_start meta" using assms(3) by simp
    then show ?thesis using that [of g] assms(2) False by (simp add: resolve_start_def)
  qed
qed

section \<open>Following links\<close>

lemma verify_stored_live:
  assumes "crc_laws (sys_libs S) hashed crc" and "crc data = crc32 (metas (fs_index s) ! mi)"
  shows "\<exists>s'. verify_stored S mi data s = (s', Ok ())"
proof -
  have "crc_finalize (sys_libs S) (crc_update (sys_libs S) (crc_new (sys_libs S)) data) = crc data"
    using assms(1) by (metis append_Nil crc_laws_def)
  then show ?thesis using assms(2) by (simp add: verify_stored_def Let_def)
qed

lemma read_once_live:
  assumes spec: "spec_ok S M" and env: "sys_env S = quiet_env (ms_opened M) (ms_content M)"
    and live: "live_libs (sys_libs S) (ms_hist M) (ms_decode M) accepts"
    and inv: "fs_inv M (sys_consts S) s" and calm: "calm (ms_opened M) (fs_reader s)" and mi: "mi < length (metas (fs_index s))"
    and loc: "located (sys_consts S) loc (metas (fs_index s) ! mi)" and good: "good_entry M accepts loc (metas (fs_index s) ! mi)"
    and sz: "sz = uncompressed_size (metas (fs_index s) ! mi)"
  shows "\<exists>s'. read_once S mi loc (replicate sz 0) s = (s', Ok (sz, loc_content M loc))"
proof -
  let ?m = "metas (fs_index s) ! mi"
  have bw: "budget_wf (fs_budget s)" using inv by (simp add: fs_inv_def)
  have small: "uncompressed_size ?m < u64_max" using fs_inv_small [OF inv mi] by (simp add: meta_small_def)
  have pw: "ms_pool_wf M (pool_new loc 1)" using loc by (intro pool_new_wf) (simp add: located_def)
  have pl: "pl_loc (pool_new loc 1) = loc" "length (pl_idle (pool_new loc 1)) = 0" for n by (simp_all add: pool_new_def)
  have len: "length (loc_content M loc) = sz" using good sz by (simp add: good_entry_def entry_matches_def)
  obtain st buf where pr: "pool_read (sys_libs S) (sys_env S) 0 (replicate sz 0) (fs_reader s, fs_budget s, pool_new loc 1, ?m) = (st, Ok (sz, buf))"
    and t: "take sz buf = take sz (loc_content M loc)"
    using pool_read_live [OF spec env live calm bw pw _ small, of 0 "replicate sz 0"] good sz unfolding pl by auto
  obtain g b p m' where st: "st = (g, b, p, m')" by (metis prod.collapse)
  obtain s1 where ro: "read_once S mi loc (replicate sz 0) s = (s1, Ok (sz, buf))" using pr st by (simp add: read_once_def)
  have "length buf = sz" using read_once_ok(3) [OF spec inv mi loc ro refl] by simp
  then have "buf = loc_content M loc" using t len by simp
  then show ?thesis using ro by blast
qed

lemma read_located_live:
  assumes spec: "spec_ok S M" and env: "sys_env S = quiet_env (ms_opened M) (ms_content M)"
    and live: "live_libs (sys_libs S) (ms_hist M) (ms_decode M) accepts"
    and inv: "fs_inv M (sys_consts S) s" and calm: "calm (ms_opened M) (fs_reader s)" and mi: "mi < length (metas (fs_index s))"
    and loc: "located (sys_consts S) loc (metas (fs_index s) ! mi)" and good: "good_entry M accepts loc (metas (fs_index s) ! mi)"
    and store: "loc_method loc = Store \<Longrightarrow> compressed_size (metas (fs_index s) ! mi) = uncompressed_size (metas (fs_index s) ! mi)"
    and sz: "sz = uncompressed_size (metas (fs_index s) ! mi)"
  shows "\<exists>s'. read_located S mi loc sz s = (s', Ok (loc_content M loc))"
proof -
  let ?m = "metas (fs_index s) ! mi" and ?D = "loc_content M loc"
  have laws: "crc_laws (sys_libs S) (ms_hashed M) (ms_crc M)" using spec by (simp add: spec_ok_def sound_libs_def)
  have len: "length ?D = sz" and crc: "ms_crc M ?D = crc32 ?m" using good sz by (simp_all add: good_entry_def entry_matches_def)
  show ?thesis
  proof (cases "loc_method loc = Store")
    case False
    obtain s1 where "read_once S mi loc (replicate sz 0) s = (s1, Ok (sz, ?D))"
      using read_once_live [OF spec env live inv calm mi loc good sz] by blast
    then show ?thesis using False by (cases "sz = 0") (auto simp: read_located_def)
  next
    case True
    show ?thesis
    proof (cases "sz = 0")
      case zero: True
      then have D: "?D = []" using len by simp
      obtain s1 where "verify_stored S mi [] s = (s1, Ok ())" using verify_stored_live [OF laws, of "[]"] crc D by auto
      then show ?thesis using True zero D by (simp add: read_located_def)
    next
      case False
      have fit: "0 + sz \<le> loc_compressed_size loc" using loc store [OF True] sz by (simp add: located_def)
      have inside: "loc_data_start loc + loc_compressed_size loc \<le> length (ms_content M)"
        "loc_data_start loc + loc_compressed_size loc \<le> u64_max" using good loc by (simp_all add: good_entry_def located_def)
      obtain g where rd: "read_direct (sys_env S) loc 0 sz (fs_reader s) = (g, Ok (take sz (drop 0 (entry_raw (ms_content M) loc))))"
        unfolding env by (rule calm_direct [OF calm fit inside])
      have raw: "take sz (drop 0 (entry_raw (ms_content M) loc)) = ?D" using loc_content_store [OF True, of M] len by simp
      obtain s1 where "verify_stored S mi ?D (s\<lparr>fs_reader := g\<rparr>) = (s1, Ok ())"
        using verify_stored_live [OF laws, of ?D "s\<lparr>fs_reader := g\<rparr>" mi] crc by auto
      then show ?thesis using True False rd unfolding raw by (simp add: read_located_def)
    qed
  qed
qed

lemma fs_readlink_live:
  assumes spec: "spec_ok S M" and env: "sys_env S = quiet_env (ms_opened M) (ms_content M)"
    and live: "live_libs (sys_libs S) (ms_hist M) (ms_decode M) accepts"
    and inv: "fs_inv M (sys_consts S) s" and fresh: "\<not> is_stale (fs_reader s)"
    and node: "node_of (fs_index s) ino = Some nd" "kind nd = Symlink" and mo: "meta_of (fs_index s) nd = Some meta"
    and mthd: "entry_method (sys_consts S) meta = Some m" "\<not> encrypted meta" "m = Store \<longrightarrow> compressed_size meta = uncompressed_size meta"
    and vs: "verify_state meta \<noteq> VERIFY_BAD" and short: "uncompressed_size meta \<le> MAX_SYMLINK"
    and unread: "symlink (fs_index s) (symlink_slot meta) = None"
    and found: "resolve_start (sys_get_entry S) (fs_reader s, meta) = ((g, meta'), Ok lo)" and g: "calm (ms_opened M) g"
    and loc: "loc = \<lparr> loc_data_start = lo, loc_compressed_size = compressed_size meta, loc_method = m \<rparr>"
    and good: "good_entry M accepts loc meta"
  shows "\<exists>s'. fs_readlink S ino s = (s', Ok (ReplyData (loc_content M loc)))"
proof -
  let ?mi = "meta_idx nd" and ?xc = "sys_consts S"
  have mi: "?mi < length (metas (fs_index s))" and meta: "meta = metas (fs_index s) ! ?mi" using meta_of_Some [OF mo] by auto
  let ?s = "s\<lparr>fs_reader := g, fs_index := put_meta ?mi meta' (fs_index s)\<rparr>"
  have rd: "readable ?xc meta = Inr m" using mthd by (simp add: readable_def)
  have lo: "locate S ?mi s = (?s, Ok loc)" using fresh rd mthd(3) found meta loc by (simp add: locate_def Let_def)
  note l = locate_ok [OF spec inv mi lo]
  have inv1: "fs_inv M ?xc ?s" using keepsD [OF l(1)] by blast
  have m1: "metas (fs_index ?s) ! ?mi = meta'" using mi by simp
  have el: "entry_lookup (sys_get_entry S)" using spec by (simp add: spec_ok_def)
  obtain n where m': "meta' = meta\<lparr>data_start := n\<rparr>" using resolve_start_frame(2) [OF found el] by blast
  have good1: "good_entry M accepts loc meta'" using good by (simp add: good_entry_def entry_matches_def m')
  have li: "located ?xc loc meta'" "loc_method loc = Store \<Longrightarrow> compressed_size meta' = uncompressed_size meta'"
    using l(4) [OF refl] unfolding m1 by auto
  have c1: "calm (ms_opened M) (fs_reader ?s)" and mi1: "?mi < length (metas (fs_index ?s))" and us: "uncompressed_size meta' = uncompressed_size meta"
    using g mi by (simp_all add: m')
  obtain s1 where rl: "read_located S ?mi loc (uncompressed_size meta) ?s = (s1, Ok (loc_content M loc))"
    using read_located_live [OF spec env live inv1 c1 mi1, unfolded m1, OF li(1) good1 li(2) refl] unfolding us by blast
  have small: "uncompressed_size meta \<le> usize_max" using fs_inv_small [OF inv mi] by (simp add: meta_small_def meta)
  have ra: "read_all S ?mi MAX_SYMLINK s = (s1, Ok (loc_content M loc))"
    using vs lo rl short small meta m1 by (simp add: read_all_eq Let_def m')
  have iw: "index_wf (fs_index s)" using inv by (simp add: fs_inv_def)
  have "entry_wf (fs_index s) ino" using index_wfD(3) [OF iw] node(1) node_of_Some [OF iw] by blast
  then have "symlink_slot meta < length (symlinks (fs_index s))"
    using node node_of_Some [OF iw, of ino nd] by (auto simp: entry_wf_def Let_def meta)
  moreover have "symlinks (fs_index s1) = symlinks (fs_index s)" by (rule read_all_cells [OF ra])
  ultimately obtain idx where "set_symlink (fs_index s1) (symlink_slot meta) (loc_content M loc) = (idx, Some (loc_content M loc))"
    using unread by (auto simp: set_symlink_def symlink_def Let_def)
  then show ?thesis using node mo unread ra by (simp add: fs_readlink_def)
qed

end
