(* ===== verification/Fs_Path.thy ===== *)
theory Fs_Path
  imports Fs_Live
begin

text \<open>
  From a record of the central directory to the bytes of a file: the entries of the abstract tree, the
  path to them in a fresh mount, and opening and reading what is there.
\<close>

section \<open>The entries of the abstract tree\<close>

text \<open>An entry that adding the records put at a path: new, and with sizes the builder accepts.\<close>

definition fresh_meta :: "ext_consts \<Rightarrow> 'w entry_meta \<Rightarrow> bool" where
  "fresh_meta xc m \<longleftrightarrow> \<not> stored_sizes_differ xc m \<and> \<not> compressed_size_zero m \<and> data_start m = u64_max
     \<and> verify_state m = VERIFY_UNKNOWN"

definition fresh_tree :: "ext_consts \<Rightarrow> 'w tree_spec \<Rightarrow> bool" where
  "fresh_tree xc t \<longleftrightarrow> (\<forall>q k m. t q = Some (k, Some m) \<longrightarrow> fresh_meta xc m)"

lemma fresh_mkdirs: "fresh_tree xc t \<Longrightarrow> fresh_tree xc (spec_mkdirs pre cs t)"
proof (induction cs arbitrary: pre t)
  case (Cons c cs)
  have "fresh_tree xc (spec_mkdir (pre @ [c]) t)"
    using Cons.prems by (auto simp: fresh_tree_def spec_mkdir_def split: option.splits node_kind.splits)
  then show ?case using Cons.IH by simp
qed simp

lemma fresh_claim: "fresh_tree xc t \<Longrightarrow> fresh_meta xc m \<Longrightarrow> fresh_tree xc (spec_claim p k m t)"
  by (auto simp: fresh_tree_def spec_claim_def fresh_meta_def stored_sizes_differ_def compressed_size_zero_def split: option.splits)

lemma fresh_records: "fresh_tree xc (fold (spec_record xc) rs t)" if "fresh_tree xc t"
  using that
proof (induction rs arbitrary: t)
  case (Cons r rs)
  have "data_start (record_meta r) = u64_max" "verify_state (record_meta r) = VERIFY_UNKNOWN"
    by (simp_all add: record_meta_def split: prod.splits)
  then have "fresh_tree xc (spec_record xc r t)"
    using Cons.prems by (auto simp: spec_record_def spec_add_def fresh_meta_def intro!: fresh_claim fresh_mkdirs)
  then show ?case using Cons.IH by simp
qed simp

section \<open>Paths of a fresh mount\<close>

lemma mount_path:
  assumes fits: "fits rs" and new: "zipfs_new xc hint (map Inr rs) reader c = Ok s"
    and at: "fold (spec_record xc) rs spec_empty q = Some (k, Some meta)"
  obtains ino nd m where "index_walk (fs_index s) q = Ok (Some ino)" and "node_of (fs_index s) ino = Some nd" and "kind nd = k"
    and "meta_of (fs_index s) nd = Some m" and "m\<lparr>symlink_slot := 0\<rparr> = meta" and "fresh_meta xc meta"
proof -
  obtain idx stats where b: "build xc hint (map Inr rs) = Ok (idx, stats)" and s: "fs_index s = idx" by (rule zipfs_new_Ok [OF new])
  note wf = build_index_wf [OF fits b]
  have "index_view idx q = Some (k, Some meta)" using wf(2) at by simp
  then obtain ino where w: "index_walk idx q = Ok (Some ino)" and i: "index_info idx ino = (k, Some meta)"
    by (auto simp: index_view_def split: rust.splits option.splits)
  have r: "0 < ino" "ino < length (nodes idx)" using index_walk_range [OF wf(1) w] by auto
  obtain m where m: "meta_of idx (nodes idx ! ino) = Some m" "m\<lparr>symlink_slot := 0\<rparr> = meta" "kind (nodes idx ! ino) = k"
    using i by (auto simp: index_info_def)
  have "fresh_meta xc meta"
  proof -
    have "fresh_tree xc (spec_empty :: 'a tree_spec)" by (auto simp: fresh_tree_def spec_empty_def split: if_splits)
    from fresh_records [OF this, of rs] show ?thesis using at unfolding fresh_tree_def by blast
  qed
  moreover have "node_of idx ino = Some (nodes idx ! ino)" using node_of_Some [OF wf(1)] r by blast
  ultimately show thesis by (intro that [of ino "nodes idx ! ino" m]) (use w m s in blast)+
qed

text \<open>The entry at a path of a fresh mount, and where the crate finds it.\<close>

lemma mount_entry:
  assumes rs: "fits rs" and new: "zipfs_new xc hint (map Inr rs) reader c = Ok s" and calm: "calm opened reader"
    and at: "fold (spec_record xc) rs spec_empty q = Some (k, Some meta)"
    and mthd: "entry_method xc meta = Some m" "\<not> encrypted meta"
    and found: "finds opened get_entry (wayfinder meta) lo (compressed_size meta)"
  obtains ino nd mt g where "index_walk (fs_index s) q = Ok (Some ino)" and "node_of (fs_index s) ino = Some nd" and "kind nd = k"
    and "meta_of (fs_index s) nd = Some mt" and "mt\<lparr>symlink_slot := 0\<rparr> = meta" and "fresh_meta xc meta"
    and "entry_method xc mt = Some m" and "\<not> encrypted mt" and "m = Store \<longrightarrow> compressed_size mt = uncompressed_size mt"
    and "resolve_start get_entry (fs_reader s, mt) = ((g, mt\<lparr>data_start := lo\<rparr>), Ok lo)" and "calm opened g"
proof -
  have rdr: "fs_reader s = reader" using zipfs_new_Ok [OF new] by metis
  obtain ino nd mt where walk: "index_walk (fs_index s) q = Ok (Some ino)" and node: "node_of (fs_index s) ino = Some nd" "kind nd = k"
    and mo: "meta_of (fs_index s) nd = Some mt" and mt: "mt\<lparr>symlink_slot := 0\<rparr> = meta" and fm: "fresh_meta xc meta"
    by (rule mount_path [OF rs new at])
  have fields: "compressed_size mt = compressed_size meta" "uncompressed_size mt = uncompressed_size meta" "wayfinder mt = wayfinder meta"
    "data_start mt = data_start meta" "encrypted mt = encrypted meta" "method_raw mt = method_raw meta" by (simp_all add: mt [symmetric])
  have meth: "entry_method xc mt = Some m" "\<not> encrypted mt" using mthd by (simp_all add: entry_method_def fields)
  have st: "m = Store \<longrightarrow> compressed_size mt = uncompressed_size mt"
    using fm mthd by (auto simp: fresh_meta_def stored_sizes_differ_def entry_method_def from_raw_def fields split: if_splits)
  obtain g where "resolve_start get_entry (fs_reader s, mt) = ((g, mt\<lparr>data_start := lo\<rparr>), Ok lo)" and "calm opened g"
    using resolve_start_finds [of opened get_entry mt lo reader] found calm fm by (auto simp: fields fresh_meta_def rdr)
  then show thesis by (rule that [OF walk node mo mt fm meth st])
qed

lemma fresh_unread:
  assumes "zipfs_new xc hint (map Inr rs) reader c = Ok s" and "fits rs"
  shows "symlink (fs_index s) slot = None"
proof -
  obtain idx stats where b: "build xc hint (map Inr rs) = Ok (idx, stats)" and s: "fs_index s = idx" by (rule zipfs_new_Ok [OF assms(1)])
  obtain n where "symlinks idx = replicate n None" using build_steps [OF assms(2) b] by metis
  then show ?thesis by (simp add: s symlink_def)
qed

text \<open>Opening the file at a path and reading it, and following the link at a path.\<close>

lemma good_entry_slot:
  assumes "mt\<lparr>symlink_slot := 0\<rparr> = meta"
  shows "good_entry M accepts loc (mt\<lparr>data_start := lo\<rparr>) = good_entry M accepts loc meta"
    and "good_entry M accepts loc mt = good_entry M accepts loc meta"
  by (simp_all add: good_entry_def entry_matches_def assms [symmetric])

lemma mount_open_read:
  assumes spec: "spec_ok S M" and env: "sys_env S = quiet_env (ms_opened M) (ms_content M)"
    and live: "live_libs (sys_libs S) (ms_hist M) (ms_decode M) accepts"
    and rs: "fits rs" "sizes_small rs" and new: "zipfs_new (sys_consts S) hint (map Inr rs) reader c = Ok s"
    and calm: "calm (ms_opened M) reader"
    and at: "fold (spec_record (sys_consts S)) rs spec_empty q = Some (k, Some meta)" "k \<noteq> Dir"
    and mthd: "entry_method (sys_consts S) meta = Some m" "\<not> encrypted meta"
    and loc: "loc = \<lparr> loc_data_start = lo, loc_compressed_size = compressed_size meta, loc_method = m \<rparr>"
    and found: "finds (ms_opened M) (sys_get_entry S) (wayfinder meta) lo (compressed_size meta)"
    and good: "good_entry M accepts loc meta" and off: "offset \<le> u64_max"
  shows "\<exists>ino fh s1 s2. index_walk (fs_index s) q = Ok (Some ino)
    \<and> fs_open S ino O_RDONLY s = (s1, Ok (ReplyOpened fh FOPEN_KEEP_CACHE))
    \<and> fs_read S fh offset sz s1 = (s2, Ok (ReplyData (take sz (drop offset (loc_content M loc)))))"
proof -
  let ?xc = "sys_consts S"
  have opened: "gf_opened reader = ms_opened M" "\<not> is_stale reader" using calm by (simp_all add: calm_def is_stale_def)
  have inv: "fs_inv M ?xc s" by (rule zipfs_new_inv [OF rs new opened(1)])
  obtain ino nd mt g where walk: "index_walk (fs_index s) q = Ok (Some ino)" and node: "node_of (fs_index s) ino = Some nd" "kind nd = k"
    and mo: "meta_of (fs_index s) nd = Some mt" and mt: "mt\<lparr>symlink_slot := 0\<rparr> = meta" and fm: "fresh_meta ?xc meta"
    and meth: "entry_method ?xc mt = Some m" "\<not> encrypted mt" and st: "m = Store \<longrightarrow> compressed_size mt = uncompressed_size mt"
    and rs': "resolve_start (sys_get_entry S) (fs_reader s, mt) = ((g, mt\<lparr>data_start := lo\<rparr>), Ok lo)" and g: "calm (ms_opened M) g"
    by (rule mount_entry [OF rs(1) new calm at(1) mthd found])
  have fresh: "\<not> is_stale (fs_reader s)" using opened zipfs_new_Ok [OF new] by metis
  let ?mi = "meta_idx nd" and ?m1 = "mt\<lparr>data_start := lo\<rparr>"
  obtain fh f where op: "fs_open S ino O_RDONLY s = (s\<lparr>fs_reader := g, fs_index := put_meta ?mi ?m1 (fs_index s),
        fs_handles := fst (handle_insert f (fs_handles s))\<rparr>, Ok (ReplyOpened fh FOPEN_KEEP_CACHE))"
    and get: "handle_get fh (fst (handle_insert f (fs_handles s))) = Some f" and fi: "of_meta_idx f = ?mi"
    using fs_open_live [OF inv fresh node(1) _ mo meth st rs'] node(2) at(2) by blast
  let ?s1 = "s\<lparr>fs_reader := g, fs_index := put_meta ?mi ?m1 (fs_index s), fs_handles := fst (handle_insert f (fs_handles s))\<rparr>"
  have inv1: "fs_inv M ?xc ?s1" using fs_open_ok(1) [OF spec inv op] by (simp add: keeps_def)
  have m1: "?m1 = metas (fs_index ?s1) ! of_meta_idx f" using meta_of_Some [OF mo] fi by simp
  have locm: "loc_of ?m1 m = loc" by (simp add: loc_of_def loc mt [symmetric])
  have cont: "meta_content M ?xc ?m1 = loc_content M loc" using meth(1) locm by (simp add: meta_content_def entry_method_def)
  have c1: "\<not> is_stale (fs_reader ?s1)" "handle_get fh (fs_handles ?s1) = Some f" "verify_state ?m1 \<noteq> VERIFY_BAD" "\<not> compressed_size_zero ?m1"
    "entry_method ?xc ?m1 = Some m" "good_entry M accepts (loc_of ?m1 m) ?m1"
    using g get fm meth(1) good_entry_slot(1) [OF mt, of M accepts loc lo] good unfolding locm
    by (simp_all add: calm_def is_stale_def mt [symmetric] fresh_meta_def compressed_size_zero_def entry_method_def VERIFY_BAD_def VERIFY_UNKNOWN_def)
  obtain s2 where "fs_read S fh offset sz ?s1 = (s2, Ok (ReplyData (take sz (drop offset (loc_content M loc)))))"
    using fs_read_live [OF spec env live inv1 c1(1) off c1(2) m1 c1(3-6)] unfolding cont by blast
  then show ?thesis using walk op by blast
qed

lemma mount_readlink:
  assumes spec: "spec_ok S M" and env: "sys_env S = quiet_env (ms_opened M) (ms_content M)"
    and live: "live_libs (sys_libs S) (ms_hist M) (ms_decode M) accepts"
    and rs: "fits rs" "sizes_small rs" and new: "zipfs_new (sys_consts S) hint (map Inr rs) reader c = Ok s"
    and calm: "calm (ms_opened M) reader"
    and at: "fold (spec_record (sys_consts S)) rs spec_empty q = Some (Symlink, Some meta)"
    and mthd: "entry_method (sys_consts S) meta = Some m" "\<not> encrypted meta"
    and loc: "loc = \<lparr> loc_data_start = lo, loc_compressed_size = compressed_size meta, loc_method = m \<rparr>"
    and found: "finds (ms_opened M) (sys_get_entry S) (wayfinder meta) lo (compressed_size meta)"
    and good: "good_entry M accepts loc meta" and short: "uncompressed_size meta \<le> MAX_SYMLINK"
  shows "\<exists>ino s'. index_walk (fs_index s) q = Ok (Some ino) \<and> fs_readlink S ino s = (s', Ok (ReplyData (loc_content M loc)))"
proof -
  let ?xc = "sys_consts S"
  have opened: "gf_opened reader = ms_opened M" "\<not> is_stale reader" using calm by (simp_all add: calm_def is_stale_def)
  have inv: "fs_inv M ?xc s" by (rule zipfs_new_inv [OF rs new opened(1)])
  obtain ino nd mt g where walk: "index_walk (fs_index s) q = Ok (Some ino)" and node: "node_of (fs_index s) ino = Some nd" "kind nd = Symlink"
    and mo: "meta_of (fs_index s) nd = Some mt" and mt: "mt\<lparr>symlink_slot := 0\<rparr> = meta" and fm: "fresh_meta ?xc meta"
    and meth: "entry_method ?xc mt = Some m" "\<not> encrypted mt" and st: "m = Store \<longrightarrow> compressed_size mt = uncompressed_size mt"
    and rs': "resolve_start (sys_get_entry S) (fs_reader s, mt) = ((g, mt\<lparr>data_start := lo\<rparr>), Ok lo)" and g: "calm (ms_opened M) g"
    by (rule mount_entry [OF rs(1) new calm at mthd found])
  have fresh: "\<not> is_stale (fs_reader s)" using opened zipfs_new_Ok [OF new] by metis
  have vs: "verify_state mt \<noteq> VERIFY_BAD" "uncompressed_size mt \<le> MAX_SYMLINK"
    using fm short by (simp_all add: fresh_meta_def mt [symmetric] VERIFY_BAD_def VERIFY_UNKNOWN_def)
  have lc: "loc = \<lparr> loc_data_start = lo, loc_compressed_size = compressed_size mt, loc_method = m \<rparr>" by (simp add: loc mt [symmetric])
  show ?thesis
    using fs_readlink_live [OF spec env live inv fresh node mo meth st vs fresh_unread [OF new rs(1)] rs' g lc] good_entry_slot(2) [OF mt, of M accepts loc] good walk
    by blast
qed

end
