(* ===== verification/Hello.thy ===== *)
theory Hello
  imports Fs_Path
begin

text \<open>
  A small archive to apply the theorems to: a stored file \<open>d/f\<close> and a stored symbolic link \<open>l\<close>, both
  with the data \<open>hello\<close>, in an archive nobody touches, with crates that copy.
\<close>

definition hello_record :: "bytes \<Rightarrow> u32 \<Rightarrow> unit zip_record" where
  "hello_record p md = (sample_record p False)\<lparr>zr_mode := md, zr_crc32 := 532\<rparr>"

definition hello_archive :: "unit zip_record list" where
  "hello_archive = [hello_record [100, 47, 102] 0x81A4, hello_record [108] 0xA1FF]"

definition hello_bytes :: bytes where
  "hello_bytes = [80, 104, 101, 108, 108, 111, 33]"

definition hello_system :: "(nat, unit, bytes, unit) system" where
  "hello_system = \<lparr> sys_libs = copy_libs, sys_env = quiet_env sample_stamp hello_bytes,
     sys_get_entry = (\<lambda>w g. (g, Ok (1, 6))), sys_consts = std_consts \<rparr>"

definition hello_spec :: "(nat, unit, bytes) mount_spec" where
  "hello_spec = \<lparr> ms_opened = sample_stamp, ms_content = hello_bytes,
     ms_hist = codec_hist (\<lambda>d x y. x = y \<and> d = length x) (\<lambda>z x y. x = y), ms_inflate = (\<lambda>x. x), ms_unzstd = (\<lambda>x. x),
     ms_hashed = (\<lambda>x. x), ms_crc = byte_sum \<rparr>"

abbreviation hello_accepts :: "(nat, unit) codec \<Rightarrow> bytes \<Rightarrow> bool" where
  "hello_accepts \<equiv> codec_accepts (\<lambda>x. length x \<le> u64_max) (\<lambda>x. True)"

lemma hello_fields [simp]:
  "sys_libs hello_system = copy_libs" "sys_env hello_system = quiet_env sample_stamp hello_bytes" "sys_consts hello_system = std_consts"
  "sys_get_entry hello_system w g = (g, Ok (1, 6))" "ms_opened hello_spec = sample_stamp" "ms_content hello_spec = hello_bytes"
  "ms_crc hello_spec = byte_sum"
  by (simp_all add: hello_system_def hello_spec_def)

lemma hello_spec_ok: "spec_ok hello_system hello_spec"
proof -
  have "entry_lookup (sys_get_entry hello_system)" by (auto simp: entry_lookup_def)
  then show ?thesis using sound_crates [OF copy_flate2 copy_zstd copy_crc]
    by (simp add: spec_ok_def hello_spec_def) (simp add: copy_libs_def)
qed

lemma hello_live: "live_libs (sys_libs hello_system) (ms_hist hello_spec) (ms_decode hello_spec) hello_accepts"
  using live_crates [OF copy_flate2 copy_zstd copy_flate2_live copy_zstd_live] by (simp add: hello_spec_def)

lemma hello_fits: "fits_names hello_archive" "fits hello_archive" "sizes_small hello_archive"
  by (simp_all add: fits_names_def fits_def sizes_small_def hello_archive_def hello_record_def sample_record_def MAX_DEPTH_def)

lemma hello_guard: "calm sample_stamp sample_guard" "gf_opened sample_guard = sample_stamp"
  by (simp_all add: calm_def sample_guard_def)

lemma hello_mount:
  obtains s where "zipfs_new std_consts 2 (map Inr hello_archive) g (config_default None 0 0) = Ok s"
  using build_total [OF hello_fits(1), of std_consts 2] by (auto simp: zipfs_new_def Let_def)

lemma hello_mount_inv:
  assumes "zipfs_new std_consts 2 (map Inr hello_archive) sample_guard c = Ok s"
  shows "mount_inv hello_spec std_consts s"
  using mount_fresh_inv [OF hello_fits(2,3) assms] hello_guard by simp

abbreviation hello_meta :: "bytes \<Rightarrow> u32 \<Rightarrow> unit entry_meta" where
  "hello_meta p md \<equiv> record_meta (hello_record p md)"

lemma hello_meta_fields [simp]:
  "uncompressed_size (hello_meta p md) = 5" "compressed_size (hello_meta p md) = 5" "crc32 (hello_meta p md) = 532"
  "entry_method std_consts (hello_meta p md) = Some Store" "\<not> encrypted (hello_meta p md)" "mode (hello_meta p md) = ucast (md AND 0xFFFF)"
  "symlink_slot (hello_meta p md) = 0" "wayfinder (hello_meta p md) = ()"
  by (simp_all add: record_meta_def hello_record_def sample_record_def entry_method_def from_raw_def std_consts_def split: prod.splits)

lemma hello_tree:
  "fold (spec_record std_consts) hello_archive spec_empty [[100], [102]] = Some (File, Some (hello_meta [100, 47, 102] 0x81A4))"
  "fold (spec_record std_consts) hello_archive spec_empty [[108]] = Some (Symlink, Some (hello_meta [108] 0xA1FF))"
proof -
  have c: "components [100, 47, 102] = [[100], [102]]" "components [108] = [[108]]" by (simp_all add: components_def)
  have "reject_reason [100, 47, 102] = None" "reject_reason [108] = None"
    by (simp_all add: reject_reason_None c MAX_COMPONENT_def MAX_DEPTH_def)
  moreover have "\<not> stored_sizes_differ std_consts (hello_meta p md)" "\<not> compressed_size_zero (hello_meta p md)" for p md
    by (simp_all add: stored_sizes_differ_def compressed_size_zero_def)
  moreover have "entry_kind std_consts False (hello_meta p 0x81A4) = File" "entry_kind std_consts False (hello_meta p 0xA1FF) = Symlink" for p
    by (simp_all add: entry_kind_def is_symlink_mode_def std_consts_def)
  moreover have "zr_path (hello_record p md) = p" "\<not> zr_is_dir (hello_record p md)" for p md
    by (simp_all add: hello_record_def sample_record_def)
  moreover have "m\<lparr>symlink_slot := 0\<rparr> = m" if "symlink_slot m = 0" for m :: "unit entry_meta" using that by simp
  ultimately show "fold (spec_record std_consts) hello_archive spec_empty [[100], [102]] = Some (File, Some (hello_meta [100, 47, 102] 0x81A4))"
    "fold (spec_record std_consts) hello_archive spec_empty [[108]] = Some (Symlink, Some (hello_meta [108] 0xA1FF))"
    by (simp_all add: hello_archive_def spec_record_def spec_add_def c spec_claim_def spec_mkdir_def spec_empty_def)
qed

abbreviation hello_loc :: entry_location where
  "hello_loc \<equiv> \<lparr> loc_data_start = 1, loc_compressed_size = 5, loc_method = Store \<rparr>"

lemma hello_content: "loc_content hello_spec hello_loc = [104, 101, 108, 108, 111]"
  by (simp add: loc_content_def entry_content_def entry_raw_def hello_bytes_def)

lemma hello_good: "good_entry hello_spec hello_accepts hello_loc (hello_meta p md)"
  unfolding good_entry_def entry_matches_def hello_content by (simp add: codec_accepts_def hello_bytes_def)

lemma hello_finds: "finds sample_stamp (sys_get_entry hello_system) () 1 5"
  by (auto simp: finds_def hello_system_def)

text \<open>The file opened in a fresh mount, and a state in which it is open.\<close>

lemma hello_opened:
  obtains s ino fh f s1 s2 where
    "zipfs_new std_consts 2 (map Inr hello_archive) sample_guard (config_default None 0 0) = Ok (s :: (nat, unit, bytes, unit) zipfs)"
    and "fs_open hello_system ino O_RDONLY s = (s1, Ok (ReplyOpened fh FOPEN_KEEP_CACHE))" and "reaches hello_system s s1"
    and "handle_get fh (fs_handles s1) = Some f" and "fs_read hello_system fh 1 2 s1 = (s2, Ok (ReplyData [101, 108]))"
proof -
  obtain s where s: "zipfs_new std_consts 2 (map Inr hello_archive) sample_guard (config_default None 0 0)
      = Ok (s :: (nat, unit, bytes, unit) zipfs)" by (rule hello_mount)
  have "\<exists>ino fh s1 s2. index_walk (fs_index s) [[100], [102]] = Ok (Some ino)
    \<and> fs_open hello_system ino O_RDONLY s = (s1, Ok (ReplyOpened fh FOPEN_KEEP_CACHE))
    \<and> fs_read hello_system fh 1 2 s1 = (s2, Ok (ReplyData (take 2 (drop 1 (loc_content hello_spec hello_loc)))))"
    by (rule mount_open_read [where meta = "hello_meta [100, 47, 102] 0x81A4" and m = Store and lo = 1
          and hint = 2 and reader = sample_guard and c = "config_default None 0 0" and k = File,
          OF hello_spec_ok _ hello_live hello_fits(2,3)])
      (use s hello_guard hello_tree(1) hello_finds hello_good in simp_all)
  then obtain ino fh s1 s2 where op: "fs_open hello_system ino O_RDONLY s = (s1, Ok (ReplyOpened fh FOPEN_KEEP_CACHE))"
    and rd: "fs_read hello_system fh 1 2 s1 = (s2, Ok (ReplyData [101, 108]))" unfolding hello_content by auto
  have "fs_inv hello_spec (sys_consts hello_system) s" using hello_mount_inv [OF s] by (simp add: mount_inv_def)
  from fs_open_ok(2) [OF hello_spec_ok this op refl] obtain f where "handle_get fh (fs_handles s1) = Some f" by auto
  moreover have "reaches hello_system s s1" using reaches.serve [OF reaches.start, of "Open ino O_RDONLY"] op by simp
  ultimately show thesis using that s op rd by blast
qed

lemma hello_readlink:
  assumes "zipfs_new std_consts 2 (map Inr hello_archive) sample_guard (config_default None 0 0) = Ok (s :: (nat, unit, bytes, unit) zipfs)"
  shows "\<exists>ino s'. index_walk (fs_index s) [[108]] = Ok (Some ino)
    \<and> fs_readlink hello_system ino s = (s', Ok (ReplyData [104, 101, 108, 108, 111]))"
proof -
  have "\<exists>ino s'. index_walk (fs_index s) [[108]] = Ok (Some ino)
      \<and> fs_readlink hello_system ino s = (s', Ok (ReplyData (loc_content hello_spec hello_loc)))"
    by (rule mount_readlink [where meta = "hello_meta [108] 0xA1FF" and m = Store and lo = 1
          and hint = 2 and reader = sample_guard and c = "config_default None 0 0",
          OF hello_spec_ok _ hello_live hello_fits(2,3)])
      (use assms hello_guard hello_tree(2) hello_finds hello_good in \<open>simp_all add: MAX_SYMLINK_def\<close>)
  then show ?thesis unfolding hello_content .
qed

lemma root_node:
  assumes "index_wf idx"
  obtains nd where "node_of idx ROOT_INO = Some nd" and "kind nd = Dir"
proof -
  have r: "0 < ROOT_INO" "ROOT_INO < length (nodes idx)" using assms by (simp_all add: index_wf_def ROOT_INO_def)
  then have "kind (nodes idx ! ROOT_INO) = Dir" using index_wfD(2) [OF assms r] by (simp add: place_wf_def Let_def)
  then show thesis using that node_of_Some [OF assms] r by blast
qed

end
