(* ===== verification/Rust_Str.thy ===== *)
theory Rust_Str
  imports Zip_Prelude
begin

text \<open>
  The parts of Rust's string library that the command line uses. A \<open>&str\<close> is the list of its UTF-8
  bytes, a HOL \<open>string\<close>, and so is an \<open>OsStr\<close>, whose bytes may be anything: \<open>to_str\<close> is the check.
  Parsing an unsigned integer follows \<open>from_str_radix\<close>, with its errors in the order it finds them.
\<close>

section \<open>UTF-8\<close>

abbreviation char_code :: "char \<Rightarrow> nat" where "char_code c \<equiv> of_char c"

definition byte_in :: "nat \<Rightarrow> nat \<Rightarrow> char \<Rightarrow> bool" where
  "byte_in lo hi c \<longleftrightarrow> lo \<le> char_code c \<and> char_code c \<le> hi"

definition continuation :: "char \<Rightarrow> bool" where
  "continuation c \<longleftrightarrow> byte_in 0x80 0xBF c"

text \<open>The number of bytes of the character a string starts with, or 0 where there is none.\<close>

definition char_len :: "string \<Rightarrow> nat" where
  "char_len s = (case s of
       [] \<Rightarrow> 0
     | a # s1 \<Rightarrow> if byte_in 0 0x7F a then 1 else (case s1 of
         [] \<Rightarrow> 0
       | b # s2 \<Rightarrow> if byte_in 0xC2 0xDF a \<and> continuation b then 2 else (case s2 of
           [] \<Rightarrow> 0
         | c # s3 \<Rightarrow>
             if continuation c \<and> (byte_in 0xE0 0xE0 a \<and> byte_in 0xA0 0xBF b
                 \<or> (byte_in 0xE1 0xEC a \<or> byte_in 0xEE 0xEF a) \<and> continuation b
                 \<or> byte_in 0xED 0xED a \<and> byte_in 0x80 0x9F b) then 3
             else (case s3 of
               [] \<Rightarrow> 0
             | d # _ \<Rightarrow> if continuation c \<and> continuation d \<and> (byte_in 0xF0 0xF0 a \<and> byte_in 0x90 0xBF b
                   \<or> byte_in 0xF1 0xF3 a \<and> continuation b
                   \<or> byte_in 0xF4 0xF4 a \<and> byte_in 0x80 0x8F b) then 4 else 0))))"

function utf8_valid :: "string \<Rightarrow> bool" where
  "utf8_valid s = (if s = [] then True else if char_len s = 0 then False else utf8_valid (drop (char_len s) s))"
  by auto
termination by (relation "measure length") auto

declare utf8_valid.simps [simp del]

definition to_str :: "string \<Rightarrow> string option" where
  "to_str s = (if utf8_valid s then Some s else None)"

lemma ascii_valid: "list_all (byte_in 0 0x7F) s \<Longrightarrow> utf8_valid s"
  by (induction s) (auto simp: utf8_valid.simps char_len_def)

text \<open>\<open>chars().count()\<close>\<close>

definition char_count :: "string \<Rightarrow> nat" where
  "char_count s = length (filter (\<lambda>c. \<not> continuation c) s)"

section \<open>Splitting and trimming\<close>

text \<open>\<open>split\<close> at a character\<close>

fun split_on :: "char \<Rightarrow> string \<Rightarrow> string list" where
  "split_on sep [] = [[]]"
| "split_on sep (c # s) =
     (if c = sep then [] # split_on sep s
      else (case split_on sep s of [] \<Rightarrow> [[c]] | w # ws \<Rightarrow> (c # w) # ws))"

fun split_once :: "char \<Rightarrow> string \<Rightarrow> (string \<times> string) option" where
  "split_once sep [] = None"
| "split_once sep (c # s) =
     (if c = sep then Some ([], s) else map_option (\<lambda>(k, v). (c # k, v)) (split_once sep s))"

text \<open>\<open>find\<close> of a character: its first position\<close>

fun find_char :: "char \<Rightarrow> string \<Rightarrow> nat option" where
  "find_char c [] = None"
| "find_char c (x # s) = (if x = c then Some 0 else map_option Suc (find_char c s))"

fun starts_with :: "string \<Rightarrow> string \<Rightarrow> bool" where
  "starts_with s [] = True"
| "starts_with [] (p # ps) = False"
| "starts_with (x # s) (p # ps) = (x = p \<and> starts_with s ps)"

lemma split_on_nonempty [simp]: "split_on sep s \<noteq> []"
  by (induction s) (auto split: list.splits)

lemma split_on_none: "sep \<notin> set s \<Longrightarrow> split_on sep s = [s]"
  by (induction s) auto

lemma split_on_append: "sep \<notin> set s \<Longrightarrow> split_on sep (s @ sep # t) = s # split_on sep t"
  by (induction s) auto

lemma split_once_append: "sep \<notin> set s \<Longrightarrow> split_once sep (s @ sep # t) = Some (s, t)"
  by (induction s) auto

lemma split_once_none: "sep \<notin> set s \<Longrightarrow> split_once sep s = None"
  by (induction s) auto

lemma split_once_Some: "split_once sep s = Some (k, v) \<Longrightarrow> s = k @ sep # v \<and> sep \<notin> set k"
  by (induction s arbitrary: k) (auto split: if_splits)

lemma split_once_eq_None: "split_once sep s = None \<longleftrightarrow> sep \<notin> set s"
  by (induction s) auto

lemma find_char_Some: "find_char c s = Some n \<Longrightarrow> n < length s \<and> s ! n = c \<and> c \<notin> set (take n s)"
  by (induction s arbitrary: n) (auto split: if_splits)

lemma find_char_None: "find_char c s = None \<longleftrightarrow> c \<notin> set s"
  by (induction s) auto

lemma starts_with_append: "starts_with s p \<longleftrightarrow> (\<exists>t. s = p @ t)"
  by (induction s p rule: starts_with.induct) auto

text \<open>The encodings of the white-space characters of Unicode.\<close>

definition whitespace :: "string list" where
  "whitespace = [CHR '' ''] # map (\<lambda>n. [char_of n]) [9..<14::nat] @ map (map char_of)
     [[0xC2, 0x85], [0xC2, 0xA0], [0xE1, 0x9A, 0x80], [0xE2, 0x80, 0xA8], [0xE2, 0x80, 0xA9],
      [0xE2, 0x80, 0xAF], [0xE2, 0x81, 0x9F], [0xE3, 0x80, 0x80::nat]]
     @ map (\<lambda>n. map char_of [0xE2, 0x80, n]) [0x80..<0x8B]"

fun first_prefix :: "string list \<Rightarrow> string \<Rightarrow> nat" where
  "first_prefix [] s = 0"
| "first_prefix (w # ws) s = (if w \<noteq> [] \<and> starts_with s w then length w else first_prefix ws s)"

lemma first_prefix_le: "first_prefix ws s \<le> length s"
  by (induction ws) (auto simp: starts_with_append)

function trim_prefixes :: "string list \<Rightarrow> string \<Rightarrow> string" where
  "trim_prefixes ws s = (if first_prefix ws s = 0 then s else trim_prefixes ws (drop (first_prefix ws s) s))"
  by auto
termination
proof (relation "measure (length \<circ> snd)")
  fix ws s
  assume "first_prefix ws s \<noteq> 0"
  then show "((ws, drop (first_prefix ws s) s), ws, s) \<in> measure (length \<circ> snd)"
    using first_prefix_le [of ws s] by auto
qed simp

declare trim_prefixes.simps [simp del]

text \<open>\<open>trim_start\<close>, \<open>trim_end\<close>, \<open>trim\<close> and \<open>trim_start_matches\<close> of a fixed string\<close>

definition trim_start :: "string \<Rightarrow> string" where
  "trim_start = trim_prefixes whitespace"

definition trim_end :: "string \<Rightarrow> string" where
  "trim_end s = rev (trim_prefixes (map rev whitespace) (rev s))"

definition trim :: "string \<Rightarrow> string" where
  "trim s = trim_end (trim_start s)"

definition trim_start_matches :: "string \<Rightarrow> string \<Rightarrow> string" where
  "trim_start_matches p s = trim_prefixes [p] s"

lemma trim_prefixes_le: "length (trim_prefixes ws s) \<le> length s"
proof (induction ws s rule: trim_prefixes.induct)
  case (1 ws s)
  show ?case by (cases "first_prefix ws s = 0") (use 1 in \<open>auto simp: trim_prefixes.simps [of ws s]\<close>)
qed

lemma trim_prefixes_suffix: "\<exists>p. s = p @ trim_prefixes ws s"
proof (induction ws s rule: trim_prefixes.induct)
  case (1 ws s)
  show ?case
  proof (cases "first_prefix ws s = 0")
    case False
    with 1 obtain p where "drop (first_prefix ws s) s = p @ trim_prefixes ws (drop (first_prefix ws s) s)" by blast
    then have "s = (take (first_prefix ws s) s @ p) @ trim_prefixes ws s"
      using False trim_prefixes.simps [of ws s] by (metis append.assoc append_take_drop_id)
    then show ?thesis by blast
  qed (simp add: trim_prefixes.simps [of ws s])
qed

lemma trim_prefixes_done: "first_prefix ws (trim_prefixes ws s) = 0"
proof (induction ws s rule: trim_prefixes.induct)
  case (1 ws s)
  show ?case by (cases "first_prefix ws s = 0") (use 1 in \<open>auto simp: trim_prefixes.simps [of ws s]\<close>)
qed

lemma trim_start_le: "length (trim_start s) \<le> length s"
  by (simp add: trim_start_def trim_prefixes_le)

lemma space_prefix: "first_prefix whitespace (CHR '' '' # s) = 1"
  by (simp add: whitespace_def)

lemma trim_start_no_space: "trim_start s \<noteq> CHR '' '' # t"
  using trim_prefixes_done [of whitespace s] space_prefix [of t] by (auto simp: trim_start_def)

lemma trim_start_drops_space: "length (trim_start (CHR '' '' # s)) \<le> length s"
  using trim_prefixes_le [of whitespace s] space_prefix [of s]
  by (simp add: trim_start_def trim_prefixes.simps [of _ "CHR '' '' # s"])

section \<open>Unsigned integers\<close>

datatype int_error = EmptyInt | InvalidDigit | PosOverflow

text \<open>The texts with which these errors are displayed.\<close>

definition int_error_text :: "int_error \<Rightarrow> string" where
  "int_error_text e = (case e of
       EmptyInt \<Rightarrow> ''cannot parse integer from empty string''
     | InvalidDigit \<Rightarrow> ''invalid digit found in string''
     | PosOverflow \<Rightarrow> ''number too large to fit in target type'')"

definition to_digit :: "nat \<Rightarrow> char \<Rightarrow> nat option" where
  "to_digit radix c = (if 48 \<le> char_code c \<and> char_code c < 48 + radix then Some (char_code c - 48) else None)"

fun read_digits :: "nat \<Rightarrow> nat \<Rightarrow> string \<Rightarrow> nat \<Rightarrow> (int_error, nat) rust" where
  "read_digits radix hi [] acc = Ok acc"
| "read_digits radix hi (c # s) acc = (case to_digit radix c of
       None \<Rightarrow> Err InvalidDigit
     | Some d \<Rightarrow> if hi < acc * radix then Err PosOverflow
                 else if hi < acc * radix + d then Err PosOverflow
                 else read_digits radix hi s (acc * radix + d))"

text \<open>\<open>from_str_radix\<close> of an unsigned type whose greatest value is \<open>hi\<close>, radix at most ten\<close>

definition from_str_radix :: "nat \<Rightarrow> nat \<Rightarrow> string \<Rightarrow> (int_error, nat) rust" where
  "from_str_radix radix hi s = (case s of
       [] \<Rightarrow> Err EmptyInt
     | c # t \<Rightarrow> if t = [] \<and> (c = CHR ''+'' \<or> c = CHR ''-'') then Err InvalidDigit
                else if c = CHR ''+'' then read_digits radix hi t 0
                else read_digits radix hi s 0)"

text \<open>The numerals of a radix and their values, and the numeral of a number.\<close>

definition is_numeral :: "nat \<Rightarrow> string \<Rightarrow> bool" where
  "is_numeral radix ds \<longleftrightarrow> ds \<noteq> [] \<and> list_all (\<lambda>c. to_digit radix c \<noteq> None) ds"

definition numeral_value :: "nat \<Rightarrow> string \<Rightarrow> nat" where
  "numeral_value radix ds = foldl (\<lambda>n c. n * radix + (char_code c - 48)) 0 ds"

fun decimal :: "nat \<Rightarrow> string" where
  "decimal n = (if n < 10 then [char_of (48 + n)] else decimal (n div 10) @ [char_of (48 + n mod 10)])"

declare decimal.simps [simp del]

lemma foldl_digits_le: "0 < r \<Longrightarrow> n \<le> foldl (\<lambda>n c. n * r + (char_code c - 48 :: nat)) n ds"
proof (induction ds arbitrary: n)
  case (Cons c ds)
  have "n \<le> n * r + (char_code c - 48)" using Cons.prems by (simp add: trans_le_add1)
  also note Cons.IH [OF Cons.prems, of "n * r + (char_code c - 48)"]
  finally show ?case by simp
qed simp

lemma read_digits_Ok:
  assumes "0 < r" and "acc \<le> hi"
  shows "read_digits r hi s acc = Ok n \<longleftrightarrow>
    list_all (\<lambda>c. to_digit r c \<noteq> None) s \<and> n = foldl (\<lambda>n c. n * r + (char_code c - 48)) acc s \<and> n \<le> hi"
  using assms(2)
proof (induction s arbitrary: acc)
  case (Cons c s)
  show ?case
  proof (cases "to_digit r c")
    case (Some d)
    then have d: "d = char_code c - 48" by (simp add: to_digit_def split: if_splits)
    show ?thesis
    proof (cases "hi < acc * r + d")
      case True
      with foldl_digits_le [OF assms(1), of "acc * r + d" s] Some d show ?thesis by auto
    next
      case False
      with Cons.IH [of "acc * r + d"] Some d show ?thesis by auto
    qed
  qed simp
qed auto

lemma plus_no_digit: "r \<le> 10 \<Longrightarrow> to_digit r CHR ''+'' = None" "r \<le> 10 \<Longrightarrow> to_digit r CHR ''-'' = None"
  by (simp_all add: to_digit_def)

lemma from_str_radix_Ok:
  assumes "0 < r" and "r \<le> 10"
  shows "from_str_radix r hi s = Ok n \<longleftrightarrow>
    (\<exists>ds. (s = ds \<or> s = CHR ''+'' # ds) \<and> is_numeral r ds \<and> n = numeral_value r ds \<and> n \<le> hi)"
proof (cases s)
  case Nil
  then show ?thesis by (simp add: from_str_radix_def is_numeral_def)
next
  case (Cons c t)
  have rd: "read_digits r hi u 0 = Ok n \<longleftrightarrow>
      list_all (\<lambda>c. to_digit r c \<noteq> None) u \<and> n = numeral_value r u \<and> n \<le> hi" for u
    using read_digits_Ok [OF assms(1), of 0 hi u n] by (simp add: numeral_value_def)
  show ?thesis
  proof (cases "c = CHR ''+''")
    case True
    with Cons rd [of t] plus_no_digit [OF assms(2)] show ?thesis
      by (auto simp: from_str_radix_def is_numeral_def)
  next
    case False
    with Cons rd [of s] plus_no_digit [OF assms(2)] show ?thesis
      by (auto simp: from_str_radix_def is_numeral_def simp del: read_digits.simps)
  qed
qed

lemma digit_char: "d < 10 \<Longrightarrow> to_digit 10 (char_of (48 + d)) = Some d" "d < 10 \<Longrightarrow> char_code (char_of (48 + d)) = 48 + d"
  by (simp_all add: to_digit_def of_char_mod_256)

lemma decimal_numeral: "is_numeral 10 (decimal n) \<and> numeral_value 10 (decimal n) = n"
proof (induction n rule: decimal.induct)
  case (1 n)
  show ?case
  proof (cases "n < 10")
    case True
    then show ?thesis
      using digit_char [of n] by (simp add: decimal.simps [of n] is_numeral_def numeral_value_def)
  next
    case False
    then show ?thesis
      using 1 digit_char [of "n mod 10"]
      by (simp add: decimal.simps [of n] is_numeral_def numeral_value_def)
  qed
qed

lemma read_decimal: "n \<le> hi \<Longrightarrow> from_str_radix 10 hi (decimal n) = Ok n"
  using decimal_numeral [of n] from_str_radix_Ok [of 10 hi "decimal n" n] by auto

end
