(* ===== verification/Cli.thy ===== *)
theory Cli
  imports Config Rust_Str
begin

text \<open>
  \<^verbatim>\<open>src/cli.rs\<close>: the settings of a mount, their two spellings, the help text made from them, and the
  option lists of \<open>mount(8)\<close>. A setting writes into the configuration before it can fail or after,
  so an operation returns the configuration beside its outcome. An error is its message, as in the
  code. Records written to the log are not part of the model.
\<close>

section \<open>Reading a value\<close>

definition map_err :: "('e \<Rightarrow> 'f) \<Rightarrow> ('e, 'a) rust \<Rightarrow> ('f, 'a) rust" where
  "map_err f m = (case m of Ok x \<Rightarrow> Ok x | Err e \<Rightarrow> Err (f e) | Panic \<Rightarrow> Panic | Hang \<Rightarrow> Hang)"

lemma map_err_simps [simp]:
  "map_err f (Ok x) = Ok x" "map_err f (Err e) = Err (f e)" "map_err f Panic = Panic" "map_err f Hang = Hang"
  by (simp_all add: map_err_def)

lemma map_err_eq_Ok [simp]: "map_err f m = Ok x \<longleftrightarrow> m = Ok x"
  by (cases m) auto

text \<open>Text between single quotation marks.\<close>

definition quote :: "string \<Rightarrow> string" where
  "quote s = [CHR 0x27] @ s @ [CHR 0x27]"

definition number :: "nat \<Rightarrow> string \<Rightarrow> (string, nat) rust" where
  "number hi v = map_err (\<lambda>e. ''expected a number: '' @ int_error_text e) (from_str_radix 10 hi v)"

definition parse_mode :: "string \<Rightarrow> (string, u16) rust" where
  "parse_mode v = map_err (\<lambda>e. ''expected an octal mode such as 644: '' @ int_error_text e)
     (rbind (from_str_radix 8 65535 (trim_start_matches ''0o'' v)) (\<lambda>m. Ok (of_nat m AND 0xFFF)))"

section \<open>The settings\<close>

datatype apply_how =
    Flag "config \<Rightarrow> config"
  | Value "string \<Rightarrow> (config, string, unit) act"

record setting =
  set_name :: string
  set_alias :: "string option"
  set_metavar :: "string option"
  set_help :: string
  set_apply :: apply_how

text \<open>\<open>|c, v| { c.field = f(v)?; Ok(()) }\<close>\<close>

definition set_with :: "(string \<Rightarrow> (string, 'a) rust) \<Rightarrow> ('a \<Rightarrow> config \<Rightarrow> config) \<Rightarrow> string \<Rightarrow> (config, string, unit) act" where
  "set_with f upd v c = (case f v of
     Ok x \<Rightarrow> (upd x c, Ok ()) | Err e \<Rightarrow> (c, Err e) | Panic \<Rightarrow> (c, Panic) | Hang \<Rightarrow> (c, Hang))"

definition SETTINGS :: "setting list" where
  "SETTINGS = [
     \<lparr> set_name = ''threads'', set_alias = None, set_metavar = Some ''N'',
       set_help = ''FUSE worker threads [default: cores, up to 8]'',
       set_apply = Value (set_with (number usize_max) (\<lambda>n c. c\<lparr>threads := n\<rparr>)) \<rparr>,
     \<lparr> set_name = ''no-verify'', set_alias = Some ''noverify'', set_metavar = None,
       set_help = ''skip the CRC32 check on entries that are read to the end'',
       set_apply = Flag (\<lambda>c. c\<lparr>verify := False\<rparr>) \<rparr>,
     \<lparr> set_name = ''verify'', set_alias = None, set_metavar = None,
       set_help = ''check entries against their CRC32 [default]'',
       set_apply = Flag (\<lambda>c. c\<lparr>verify := True\<rparr>) \<rparr>,
     \<lparr> set_name = ''source-buffer-size'', set_alias = None, set_metavar = Some ''N'',
       set_help = ''compressed bytes each decoder buffers [default: 524288]'',
       set_apply = Value (set_with (number usize_max) (\<lambda>n c. c\<lparr>source_buffer := n\<rparr>)) \<rparr>,
     \<lparr> set_name = ''decoders-per-file'', set_alias = None, set_metavar = Some ''N'',
       set_help = ''idle decoders one open file may keep [default: 4]'',
       set_apply = Value (set_with (number usize_max) (\<lambda>n c. c\<lparr>decoders_per_file := n\<rparr>)) \<rparr>,
     \<lparr> set_name = ''max-retained-decoders'', set_alias = None, set_metavar = Some ''N'',
       set_help = ''idle decoders the mount may keep [default: 64]'',
       set_apply = Value (set_with (number usize_max) (\<lambda>n c. c\<lparr>max_retained_decoders := n\<rparr>)) \<rparr>,
     \<lparr> set_name = ''uid'', set_alias = None, set_metavar = Some ''ID'',
       set_help = ''owner reported for every file [default: caller]'',
       set_apply = Value (set_with (number u32_max) (\<lambda>n c. c\<lparr>uid := n\<rparr>)) \<rparr>,
     \<lparr> set_name = ''gid'', set_alias = None, set_metavar = Some ''ID'',
       set_help = ''group reported for every file [default: caller]'',
       set_apply = Value (set_with (number u32_max) (\<lambda>n c. c\<lparr>gid := n\<rparr>)) \<rparr>,
     \<lparr> set_name = ''file-mode'', set_alias = None, set_metavar = Some ''MODE'',
       set_help = ''permissions for files whose entry records none [default: 644]'',
       set_apply = Value (set_with parse_mode (\<lambda>m c. c\<lparr>file_mode := m\<rparr>)) \<rparr>,
     \<lparr> set_name = ''dir-mode'', set_alias = None, set_metavar = Some ''MODE'',
       set_help = ''permissions for directories whose entry records none [default: 755]'',
       set_apply = Value (set_with parse_mode (\<lambda>m c. c\<lparr>dir_mode := m\<rparr>)) \<rparr>,
     \<lparr> set_name = ''umask'', set_alias = None, set_metavar = Some ''MASK'',
       set_help = ''bits to take away from both modes above'',
       set_apply = Value (set_with parse_mode (\<lambda>mask c. c\<lparr>file_mode := 0x1B6 AND NOT mask, dir_mode := 0x1FF AND NOT mask\<rparr>)) \<rparr>,
     \<lparr> set_name = ''fmask'', set_alias = None, set_metavar = Some ''MASK'',
       set_help = ''bits to take away from the file mode'',
       set_apply = Value (set_with parse_mode (\<lambda>mask c. c\<lparr>file_mode := 0x1B6 AND NOT mask\<rparr>)) \<rparr>,
     \<lparr> set_name = ''dmask'', set_alias = None, set_metavar = Some ''MASK'',
       set_help = ''bits to take away from the directory mode'',
       set_apply = Value (set_with parse_mode (\<lambda>mask c. c\<lparr>dir_mode := 0x1FF AND NOT mask\<rparr>)) \<rparr>,
     \<lparr> set_name = ''attr-ttl'', set_alias = None, set_metavar = Some ''SECS'',
       set_help = ''how long the kernel may cache metadata [default: 31536000]'',
       set_apply = Value (set_with (number u64_max) (\<lambda>n c. c\<lparr>attr_ttl := n\<rparr>)) \<rparr>,
     \<lparr> set_name = ''allow-other'', set_alias = None, set_metavar = None,
       set_help = ''let other users see the mount'',
       set_apply = Flag (\<lambda>c. c\<lparr>allow_other := True\<rparr>) \<rparr>,
     \<lparr> set_name = ''allow-root'', set_alias = None, set_metavar = None,
       set_help = ''let root see the mount'',
       set_apply = Flag (\<lambda>c. c\<lparr>allow_root := True\<rparr>) \<rparr>,
     \<lparr> set_name = ''auto-unmount'', set_alias = None, set_metavar = None,
       set_help = ''unmount if this process dies; needs --allow-other or --allow-root'',
       set_apply = Flag (\<lambda>c. c\<lparr>auto_unmount := True\<rparr>) \<rparr>]"

definition HELP_COLUMN :: nat where "HELP_COLUMN = 32"
definition HELP_WIDTH :: nat where "HELP_WIDTH = 80"

definition is_dash :: "char \<Rightarrow> bool" where
  "is_dash c \<longleftrightarrow> c = CHR ''-'' \<or> c = CHR ''_''"

definition same_name :: "string \<Rightarrow> string \<Rightarrow> bool" where
  "same_name a b \<longleftrightarrow> length a = length b \<and> list_all (\<lambda>(x, y). x = y \<or> (is_dash x \<and> is_dash y)) (zip a b)"

definition answers_to :: "setting \<Rightarrow> string \<Rightarrow> bool" where
  "answers_to s n \<longleftrightarrow> same_name (set_name s) n
     \<or> (case set_alias s of None \<Rightarrow> False | Some a \<Rightarrow> same_name a n)"

definition find_setting :: "string \<Rightarrow> setting option" where
  "find_setting n = List.find (\<lambda>s. answers_to s n) SETTINGS"

section \<open>Long options\<close>

text \<open>
  The parts of the \<open>lexopt\<close> crate the program calls: the two operations on the state of its parser,
  and the errors the program makes. A short option is the UTF-8 encoding of its character.
\<close>

datatype arg = ArgShort string | ArgLong string | ArgValue string

record ('p, 'e) lexopt =
  lx_next :: "('p, 'e, arg option) act"
  lx_value :: "('p, 'e, string) act"
  lx_custom :: "string \<Rightarrow> 'e"                     \<comment> \<open>\<open>lexopt::Error::from(String)\<close>\<close>
  lx_missing :: "string option \<Rightarrow> 'e"             \<comment> \<open>\<open>lexopt::Error::MissingValue\<close>\<close>
  lx_unexpected :: "arg \<Rightarrow> 'e"                    \<comment> \<open>\<open>Arg::unexpected\<close>\<close>

definition apply_long :: "('p, 'e) lexopt \<Rightarrow> setting \<Rightarrow> (config \<times> 'p, 'e, unit) act" where
  "apply_long lx s = (\<lambda>(c, p). case set_apply s of
       Flag f \<Rightarrow> ((f c, p), Ok ())
     | Value put \<Rightarrow> (case lx_value lx p of
           (p, Ok raw) \<Rightarrow> (case to_str raw of
               None \<Rightarrow> ((c, p), Err (lx_custom lx (''the value for '' @ quote (''--'' @ set_name s) @ '' is not valid text'')))
             | Some text \<Rightarrow> (case put text c of (c, r) \<Rightarrow>
                 ((c, p), map_err (\<lambda>reason. lx_custom lx (''option '' @ quote (''--'' @ set_name s) @ '': '' @ reason)) r)))
         | (p, Err e) \<Rightarrow> ((c, p), Err e)
         | (p, Panic) \<Rightarrow> ((c, p), Panic)
         | (p, Hang) \<Rightarrow> ((c, p), Hang)))"

section \<open>The help text\<close>

function pieces_loop :: "string \<Rightarrow> string list" where
  "pieces_loop rest = (if rest = [] then [] else
     let end_at = (if starts_with rest ''['' then (case find_char CHR '']'' rest of None \<Rightarrow> length rest | Some i \<Rightarrow> i + 1)
                   else (case find_char CHR '' '' rest of None \<Rightarrow> length rest | Some i \<Rightarrow> i))
     in take end_at rest # pieces_loop (trim_start (drop end_at rest)))"
  by auto
termination
proof (relation "measure length")
  fix rest :: string and x
  assume ne: "rest \<noteq> []"
    and x: "x = (if starts_with rest ''['' then (case find_char CHR '']'' rest of None \<Rightarrow> length rest | Some i \<Rightarrow> i + 1)
                 else (case find_char CHR '' '' rest of None \<Rightarrow> length rest | Some i \<Rightarrow> i))"
  have "length (trim_start (drop x rest)) < length rest"
  proof (cases x)
    case 0
    with ne x have "find_char CHR '' '' rest = Some 0" by (auto split: if_splits option.splits)
    with ne obtain t where "rest = CHR '' '' # t" using find_char_Some [of "CHR '' ''" rest 0] by (cases rest) auto
    with 0 trim_start_drops_space [of t] show ?thesis by simp
  next
    case (Suc k)
    with ne trim_start_le [of "drop x rest"] show ?thesis by (cases rest) auto
  qed
  then show "(trim_start (drop x rest), rest) \<in> measure length" by simp
qed simp

declare pieces_loop.simps [simp del]

definition pieces :: "string \<Rightarrow> string list" where
  "pieces text = pieces_loop (trim text)"

text \<open>The loop of \<open>wrap\<close>, with the finished lines and the line being filled.\<close>

fun wrap_step :: "nat \<Rightarrow> string \<Rightarrow> string list \<times> string \<Rightarrow> string list \<times> string" where
  "wrap_step width word (lines, line) =
     (if line = [] then (lines, line @ word)
      else if length line + 1 + length word \<le> width then (lines, line @ '' '' @ word)
      else (lines @ [line], word))"

definition wrap :: "string \<Rightarrow> nat \<Rightarrow> string list" where
  "wrap text width = (case fold (wrap_step width) (pieces text) ([], []) of (lines, line) \<Rightarrow>
     if line \<noteq> [] \<or> lines = [] then lines @ [line] else lines)"

text \<open>\<open>{start:<HELP_COLUMN$}\<close> pads with spaces on the right.\<close>

definition pad_right :: "nat \<Rightarrow> string \<Rightarrow> string" where
  "pad_right n s = s @ replicate (n - char_count s) CHR '' ''"

definition named :: "setting \<Rightarrow> string" where
  "named s = (case set_metavar s of
       Some metavar \<Rightarrow> ''      --'' @ set_name s @ '' '' @ metavar
     | None \<Rightarrow> ''      --'' @ set_name s)"

definition help_lines :: "setting \<Rightarrow> string list" where
  "help_lines s = map (\<lambda>(i, line). pad_right HELP_COLUMN (if i = 0 then named s else []) @ line @ [CHR 0x0A])
     (enumerate 0 (wrap (set_help s) (HELP_WIDTH - HELP_COLUMN)))"

definition settings_help :: string where
  "settings_help = concat (concat (map help_lines SETTINGS))"

section \<open>Option lists\<close>

definition IGNORED :: "string list" where
  "IGNORED = [
     ''ro'', ''atime'', ''noatime'', ''relatime'', ''norelatime'', ''strictatime'',
     ''nostrictatime'', ''diratime'', ''nodiratime'', ''dev'', ''nodev'', ''suid'', ''nosuid'',
     ''exec'', ''noexec'', ''sync'', ''async'', ''dirsync'', ''auto'', ''noauto'', ''defaults'',
     ''user'', ''users'', ''nouser'', ''owner'', ''group'', ''_netdev'', ''nofail'', ''silent'',
     ''loud'', ''seclabel'', ''default_permissions'']"

definition IGNORED_WITH_VALUE :: "string list" where
  "IGNORED_WITH_VALUE = [
     ''subtype'', ''fsname'', ''comment'', ''context'', ''fscontext'', ''defcontext'',
     ''rootcontext'']"

definition IGNORED_PREFIX :: string where "IGNORED_PREFIX = ''x-''"

definition ignored :: "string \<Rightarrow> bool" where
  "ignored key \<longleftrightarrow> key \<in> set IGNORED \<or> key \<in> set IGNORED_WITH_VALUE \<or> starts_with key IGNORED_PREFIX"

definition apply_one :: "string \<Rightarrow> (config, string, unit) act" where
  "apply_one opt c =
     (let (key, v) = (case split_once CHR ''='' opt of Some (k, x) \<Rightarrow> (k, Some x) | None \<Rightarrow> (opt, None))
      in case find_setting key of
          Some s \<Rightarrow> (case set_apply s of
              Flag f \<Rightarrow> if v \<noteq> None then (c, Err (''mount option '' @ quote key @ '' takes no value'')) else (f c, Ok ())
            | Value put \<Rightarrow> (case v of
                None \<Rightarrow> (c, Err (''mount option '' @ quote key @ '' needs a value''))
              | Some x \<Rightarrow> (case put x c of (c, r) \<Rightarrow>
                  (c, map_err (\<lambda>reason. ''mount option '' @ quote (key @ ''='' @ x) @ '': '' @ reason) r))))
        | None \<Rightarrow>
            if key = ''rw'' then (c, Ok ())
            else if key = ''remount'' then
              (if v \<noteq> None then (c, Err ''mount option 'remount' takes no value'') else (c, Ok ()))
            else (c, Ok ()))"

text \<open>A \<open>for\<close> loop over actions that stops at the first error.\<close>

fun for_act :: "('a \<Rightarrow> ('s, 'e, unit) act) \<Rightarrow> 'a list \<Rightarrow> ('s, 'e, unit) act" where
  "for_act f [] = (\<lambda>s. (s, Ok ()))"
| "for_act f (x # xs) = sbind (f x) (\<lambda>_. for_act f xs)"

definition apply_opts :: "string \<Rightarrow> (config, string, unit) act" where
  "apply_opts spec c = (case to_str spec of
       None \<Rightarrow> (c, Err ''option list is not valid text'')
     | Some text \<Rightarrow>
         let opts = filter (\<lambda>o1. o1 \<noteq> []) (split_on CHR '','' text) in
         if ''remount'' \<in> set opts \<and> ''rw'' \<in> set opts
         then (c, Err ''the mount is read-only, so 'remount,rw' cannot be honoured'')
         else for_act apply_one opts c)"

end
