(* ===== verification/Cli_Correct.thy ===== *)
theory Cli_Correct
  imports Cli
begin

text \<open>
  What the settings promise: a name finds exactly the setting it spells, in either spelling; a long
  option and an option list do the same; numbers are read back as they are printed; every value fits
  its field; an option list is refused for the reasons the code names and for no other; and the help
  is broken into lines without losing a word.
\<close>

section \<open>Names\<close>

text \<open>The spelling of a name with underscores.\<close>

definition canon :: "string \<Rightarrow> string" where
  "canon n = map (\<lambda>c. if is_dash c then CHR ''_'' else c) n"

definition keys :: "setting \<Rightarrow> string list" where
  "keys s = canon (set_name s) # (case set_alias s of None \<Rightarrow> [] | Some a \<Rightarrow> [canon a])"

lemma same_name_canon: "same_name a b \<longleftrightarrow> canon a = canon b"
proof (induction a arbitrary: b)
  case (Cons x a)
  then show ?case by (cases b) (auto simp: same_name_def canon_def is_dash_def)
qed (auto simp: same_name_def canon_def)

lemma answers_to_keys: "answers_to s n \<longleftrightarrow> canon n \<in> set (keys s)"
  by (auto simp: answers_to_def keys_def same_name_canon split: option.splits)

lemma distinct_concat_unique:
  "distinct (concat (map f xs)) \<Longrightarrow> x \<in> set xs \<Longrightarrow> y \<in> set xs \<Longrightarrow> k \<in> set (f x) \<Longrightarrow> k \<in> set (f y) \<Longrightarrow> x = y"
  by (induction xs) auto

lemma settings_keys: "concat (map keys SETTINGS) =
  [''threads'', ''no_verify'', ''noverify'', ''verify'', ''source_buffer_size'', ''decoders_per_file'',
   ''max_retained_decoders'', ''uid'', ''gid'', ''file_mode'', ''dir_mode'', ''umask'', ''fmask'', ''dmask'',
   ''attr_ttl'', ''allow_other'', ''allow_root'', ''auto_unmount'']"
  by (simp add: SETTINGS_def keys_def canon_def is_dash_def)

lemma setting_unique:
  assumes "s \<in> set SETTINGS" "t \<in> set SETTINGS" "answers_to s n" "answers_to t n"
  shows "s = t"
  by (rule distinct_concat_unique [of keys SETTINGS _ _ "canon n"])
    (use assms in \<open>simp_all add: answers_to_keys settings_keys\<close>)

lemma find_setting_Some: "find_setting n = Some s \<longleftrightarrow> s \<in> set SETTINGS \<and> answers_to s n"
proof
  assume "find_setting n = Some s"
  then show "s \<in> set SETTINGS \<and> answers_to s n" by (auto simp: find_setting_def find_Some_iff)
next
  assume s: "s \<in> set SETTINGS \<and> answers_to s n"
  then obtain t where t: "find_setting n = Some t" by (cases "find_setting n") (auto simp: find_setting_def find_None_iff)
  then have "t \<in> set SETTINGS \<and> answers_to t n" by (auto simp: find_setting_def find_Some_iff)
  with s t setting_unique show "find_setting n = Some s" by auto
qed

lemma setting_answers_own_name: "answers_to s (set_name s)"
  by (simp add: answers_to_def same_name_canon)

text \<open>
  C36. A name finds a setting exactly when it is the setting's name or its alias with dashes and
  underscores exchanged, and no name belongs to two settings.
\<close>

theorem find_setting_exact:
  "find_setting n = Some s \<longleftrightarrow>
     s \<in> set SETTINGS \<and> (canon n = canon (set_name s) \<or> (\<exists>a. set_alias s = Some a \<and> canon n = canon a))"
  by (cases "set_alias s") (auto simp: find_setting_Some answers_to_keys keys_def)

section \<open>The spelling of options\<close>

text \<open>Names consist of small letters and dashes, so no separator can be part of one.\<close>

definition name_char :: "char \<Rightarrow> bool" where
  "name_char c \<longleftrightarrow> byte_in 97 122 c \<or> is_dash c"

lemma canon_name_char: "list_all name_char (canon n) \<longleftrightarrow> list_all name_char n"
  by (induction n) (auto simp: canon_def name_char_def is_dash_def)

lemma keys_name_chars: "s \<in> set SETTINGS \<Longrightarrow> k \<in> set (keys s) \<Longrightarrow> list_all name_char k"
proof -
  assume "s \<in> set SETTINGS" "k \<in> set (keys s)"
  then have "k \<in> set (concat (map keys SETTINGS))" by auto
  moreover have "list_all (list_all name_char) (concat (map keys SETTINGS))"
    by (simp add: settings_keys name_char_def byte_in_def is_dash_def)
  ultimately show ?thesis unfolding list_all_iff by blast
qed

lemma answering_name_chars: "s \<in> set SETTINGS \<Longrightarrow> answers_to s n \<Longrightarrow> list_all name_char n"
  using keys_name_chars [of s "canon n"] by (simp add: answers_to_keys canon_name_char)

lemma name_char_facts: "name_char c \<Longrightarrow> c \<noteq> CHR ''='' \<and> c \<noteq> CHR '','' \<and> byte_in 0 0x7F c"
  by (auto simp: name_char_def byte_in_def is_dash_def)

lemma name_no_separator: "list_all name_char n \<Longrightarrow> CHR ''='' \<notin> set n \<and> CHR '','' \<notin> set n"
  using name_char_facts by (auto simp: list_all_iff)

lemma utf8_ascii_append: "list_all (byte_in 0 0x7F) a \<Longrightarrow> utf8_valid (a @ b) \<longleftrightarrow> utf8_valid b"
proof (induction a)
  case (Cons c a)
  then show ?case using utf8_valid.simps [of "c # a @ b"] by (simp add: char_len_def)
qed simp

lemma name_ascii: "list_all name_char n \<Longrightarrow> list_all (byte_in 0 0x7F) n"
  using name_char_facts by (auto simp: list_all_iff)

text \<open>A setting under a name, as an option list has it.\<close>

definition spelled :: "setting \<Rightarrow> string \<Rightarrow> string \<Rightarrow> string" where
  "spelled s n v = (case set_apply s of Flag _ \<Rightarrow> n | Value _ \<Rightarrow> n @ ''='' @ v)"

lemma apply_single:
  assumes "utf8_valid o1" "CHR '','' \<notin> set o1" "o1 \<noteq> []"
  shows "apply_opts o1 c = apply_one o1 c"
proof -
  have "for_act apply_one [o1] c = apply_one o1 c"
    by (cases "apply_one o1 c"; cases "snd (apply_one o1 c)") (auto simp: sbind_def)
  then show ?thesis using assms by (auto simp: apply_opts_def to_str_def split_on_none)
qed

lemma apply_one_setting:
  assumes s: "s \<in> set SETTINGS" "answers_to s n"
  shows "fst (apply_one (spelled s n v) c) = (case set_apply s of Flag f \<Rightarrow> f c | Value put \<Rightarrow> fst (put v c))"
    and "snd (apply_one (spelled s n v) c) = Ok () \<longleftrightarrow>
      (case set_apply s of Flag f \<Rightarrow> True | Value put \<Rightarrow> snd (put v c) = Ok ())"
proof -
  have n: "CHR ''='' \<notin> set n" using answering_name_chars [OF s] name_no_separator by blast
  have fs: "find_setting n = Some s" using s by (simp add: find_setting_Some)
  show "fst (apply_one (spelled s n v) c) = (case set_apply s of Flag f \<Rightarrow> f c | Value put \<Rightarrow> fst (put v c))"
    and "snd (apply_one (spelled s n v) c) = Ok () \<longleftrightarrow>
      (case set_apply s of Flag f \<Rightarrow> True | Value put \<Rightarrow> snd (put v c) = Ok ())"
    using n fs by (auto simp: apply_one_def spelled_def split_once_none split_once_append split: apply_how.splits prod.splits)
qed

lemma spelled_valid:
  assumes s: "s \<in> set SETTINGS" "answers_to s n" and v: "utf8_valid v" "CHR '','' \<notin> set v"
  shows "utf8_valid (spelled s n v) \<and> CHR '','' \<notin> set (spelled s n v) \<and> spelled s n v \<noteq> []"
proof -
  note cs = answering_name_chars [OF s]
  have "n \<noteq> []"
  proof
    assume "n = []"
    with s(2) have "[] \<in> set (keys s)" by (simp add: answers_to_keys canon_def)
    with s(1) have "[] \<in> set (concat (map keys SETTINGS))" by auto
    then show False by (simp add: settings_keys)
  qed
  moreover have "utf8_valid (n @ ''='' @ v)"
    using utf8_ascii_append [OF name_ascii [OF cs], of "''='' @ v"] utf8_ascii_append [of "''=''" v] v
    by (simp add: byte_in_def)
  ultimately show ?thesis
    using cs v name_no_separator [OF cs] ascii_valid [OF name_ascii [OF cs]] by (auto simp: spelled_def split: apply_how.splits)
qed

text \<open>
  C31. A long option and an option list do the same. For every setting, under any of its names: naming
  it in an option list with a value leaves the configuration as the long option with the same value
  leaves it, and the one succeeds exactly when the other does. A value with a comma cannot be given
  in a list.
\<close>

theorem long_and_list_agree:
  assumes s: "s \<in> set SETTINGS" "answers_to s n"
    and v: "lx_value lx p = (p', Ok v)" "utf8_valid v" "CHR '','' \<notin> set v"
  shows "fst (fst (apply_long lx s (c, p))) = fst (apply_opts (spelled s n v) c)
    \<and> (snd (apply_long lx s (c, p)) = Ok () \<longleftrightarrow> snd (apply_opts (spelled s n v) c) = Ok ())"
proof -
  have "apply_opts (spelled s n v) c = apply_one (spelled s n v) c"
    using apply_single spelled_valid [OF s v(2,3)] by blast
  then show ?thesis
    using apply_one_setting [OF s, of v c] v
    by (auto simp: apply_long_def to_str_def split: apply_how.splits prod.splits)
qed

text \<open>A parser that hands out one value, for concrete runs.\<close>

definition one_value :: "string \<Rightarrow> (unit, string) lexopt" where
  "one_value v = \<lparr> lx_next = (\<lambda>p. (p, Ok None)), lx_value = (\<lambda>p. (p, Ok v)), lx_custom = (\<lambda>m. m),
     lx_missing = (\<lambda>_. ''missing''), lx_unexpected = (\<lambda>_. ''unexpected'') \<rparr>"

theorem long_and_list_agree_witness:
  "fst (fst (apply_long (one_value ''3'') (SETTINGS ! 0) (config_default None 0 0, ()))) =
     fst (apply_opts ''threads=3'' (config_default None 0 0))
   \<and> (snd (apply_long (one_value ''3'') (SETTINGS ! 0) (config_default None 0 0, ())) = Ok () \<longleftrightarrow>
        snd (apply_opts ''threads=3'' (config_default None 0 0)) = Ok ())"
proof -
  have "SETTINGS ! 0 \<in> set SETTINGS" "answers_to (SETTINGS ! 0) ''threads''"
    and sp: "spelled (SETTINGS ! 0) ''threads'' ''3'' = ''threads=3''"
    by (simp_all add: SETTINGS_def answers_to_def same_name_def spelled_def)
  from long_and_list_agree [OF this(1,2), of "one_value ''3''" "()" "()" "''3''" "config_default None 0 0"]
  show ?thesis unfolding sp by (simp add: one_value_def ascii_valid byte_in_def)
qed

section \<open>Numbers\<close>

lemma read_digits_overflow:
  assumes "0 < r" "acc \<le> hi" "list_all (\<lambda>c. to_digit r c \<noteq> None) s"
    "hi < foldl (\<lambda>n c. n * r + (char_code c - 48)) acc s"
  shows "read_digits r hi s acc = Err PosOverflow"
  using assms(2-)
proof (induction s arbitrary: acc)
  case (Cons c s)
  then obtain d where d: "to_digit r c = Some d" by auto
  then have dv: "d = char_code c - 48" by (simp add: to_digit_def split: if_splits)
  show ?case
  proof (cases "hi < acc * r + d")
    case False
    with Cons.IH [of "acc * r + d"] Cons.prems d dv show ?thesis by simp
  qed (use d in simp)
qed simp

lemma numeral_no_sign: "is_numeral r ds \<Longrightarrow> r \<le> 10 \<Longrightarrow> from_str_radix r hi ds = read_digits r hi ds 0"
  using plus_no_digit [of r] by (cases ds) (auto simp: from_str_radix_def is_numeral_def)

lemma from_str_radix_overflow:
  assumes "is_numeral r ds" "0 < r" "r \<le> 10" "hi < numeral_value r ds"
  shows "from_str_radix r hi ds = Err PosOverflow"
  using assms read_digits_overflow [of r 0 hi ds]
  by (simp add: numeral_no_sign is_numeral_def numeral_value_def)

text \<open>
  C33. \<open>number\<close> reads exactly the decimal numerals whose value fits the field, with an optional plus
  sign: every number that fits is read back from the text it is printed as, and one that does not fit
  is refused with the message for it.
\<close>

theorem number_roundtrip:
  "(number hi s = Ok n \<longleftrightarrow>
      (\<exists>ds. (s = ds \<or> s = CHR ''+'' # ds) \<and> is_numeral 10 ds \<and> n = numeral_value 10 ds \<and> n \<le> hi))
   \<and> number hi (decimal n) =
      (if n \<le> hi then Ok n else Err ''expected a number: number too large to fit in target type'')"
proof -
  have "from_str_radix 10 hi (decimal n) = Err PosOverflow" if "hi < n"
    by (rule from_str_radix_overflow) (use that decimal_numeral [of n] in simp_all)
  then show ?thesis
    using from_str_radix_Ok [of 10 hi s n] read_decimal [of n hi]
    by (auto simp: number_def int_error_text_def)
qed

section \<open>The configuration keeps its types\<close>

text \<open>The widths of the fields of \<open>Config\<close>, and the mode bits, which every setting masks.\<close>

definition config_typed :: "config \<Rightarrow> bool" where
  "config_typed c \<longleftrightarrow> source_buffer c \<le> usize_max \<and> decoders_per_file c \<le> usize_max
     \<and> max_retained_decoders c \<le> usize_max \<and> threads c \<le> usize_max \<and> uid c \<le> u32_max \<and> gid c \<le> u32_max
     \<and> attr_ttl c \<le> u64_max \<and> file_mode c \<le> 0xFFF \<and> dir_mode c \<le> 0xFFF"

lemma number_le: "number hi v = Ok n \<Longrightarrow> n \<le> hi"
  using from_str_radix_Ok [of 10 hi v n] by (auto simp: number_def)

lemma parse_mode_le: "parse_mode v = Ok m \<Longrightarrow> m \<le> 0xFFF"
  by (auto simp: parse_mode_def word_and_le1)

lemma mask_le: "(0x1B6 :: u16) AND NOT m \<le> 0xFFF" "(0x1FF :: u16) AND NOT m \<le> 0xFFF"
proof -
  have "x AND NOT m \<le> 0xFFF" if "x \<le> 0xFFF" for x :: u16
    by (rule order_trans [OF _ that]) (simp add: word_and_le2)
  then show "(0x1B6 :: u16) AND NOT m \<le> 0xFFF" "(0x1FF :: u16) AND NOT m \<le> 0xFFF" by simp_all
qed

text \<open>A setting that keeps a property of the configuration, whatever value it is given.\<close>

definition setting_keeps :: "(config \<Rightarrow> bool) \<Rightarrow> apply_how \<Rightarrow> bool" where
  "setting_keeps P a \<longleftrightarrow> (case a of
     Flag f \<Rightarrow> (\<forall>c. P c \<longrightarrow> P (f c)) | Value put \<Rightarrow> (\<forall>v c. P c \<longrightarrow> P (fst (put v c))))"

lemma keeps_flag: "(\<And>c. P c \<Longrightarrow> P (f c)) \<Longrightarrow> setting_keeps P (Flag f)"
  by (simp add: setting_keeps_def)

lemma keeps_number: "(\<And>n c. P c \<Longrightarrow> n \<le> hi \<Longrightarrow> P (upd n c)) \<Longrightarrow> setting_keeps P (Value (set_with (number hi) upd))"
  by (auto simp: setting_keeps_def set_with_def dest: number_le split: rust.splits)

lemma keeps_mode: "(\<And>m c. P c \<Longrightarrow> m \<le> 0xFFF \<Longrightarrow> P (upd m c)) \<Longrightarrow> setting_keeps P (Value (set_with parse_mode upd))"
  by (auto simp: setting_keeps_def set_with_def dest: parse_mode_le split: rust.splits)

lemma settings_typed: "list_all (setting_keeps config_typed) (map set_apply SETTINGS)"
  unfolding SETTINGS_def list.map setting.simps list.pred_inject
  by (intro conjI TrueI keeps_flag keeps_number keeps_mode; simp add: config_typed_def mask_le)

lemma for_act_keeps:
  assumes "\<And>x s. x \<in> set xs \<Longrightarrow> P s \<Longrightarrow> P (fst (f x s))" and "P s"
  shows "P (fst (for_act f xs s))"
  using assms
proof (induction xs arbitrary: s)
  case (Cons x xs)
  then have "P (fst (f x s))" by simp
  moreover have "P (fst (for_act f xs t))" if "P t" for t using Cons that by simp
  ultimately show ?case by (auto simp: sbind_def split: prod.splits rust.splits)
qed simp

lemma setting_keeps_flag: "setting_keeps P a \<Longrightarrow> a = Flag f \<Longrightarrow> P c \<Longrightarrow> P (f c)"
  by (simp add: setting_keeps_def)

lemma setting_keeps_value: "setting_keeps P a \<Longrightarrow> a = Value put \<Longrightarrow> P c \<Longrightarrow> P (fst (put v c))"
  by (simp add: setting_keeps_def)

text \<open>The name and the value of an option of a list.\<close>

definition key_value :: "string \<Rightarrow> string \<times> string option" where
  "key_value opt = (case split_once CHR ''='' opt of Some (k, x) \<Rightarrow> (k, Some x) | None \<Rightarrow> (opt, None))"

lemma apply_one_unfold:
  assumes "key_value opt = (k, v)"
  shows "find_setting k = None \<Longrightarrow> apply_one opt c =
      (c, if k = ''remount'' \<and> v \<noteq> None then Err ''mount option 'remount' takes no value'' else Ok ())"
    and "find_setting k = Some s \<Longrightarrow> set_apply s = Flag f \<Longrightarrow> apply_one opt c =
      (if v = None then (f c, Ok ()) else (c, Err (''mount option '' @ quote k @ '' takes no value'')))"
    and "find_setting k = Some s \<Longrightarrow> set_apply s = Value put \<Longrightarrow> apply_one opt c = (case v of
      None \<Rightarrow> (c, Err (''mount option '' @ quote k @ '' needs a value''))
    | Some x \<Rightarrow> (fst (put x c), map_err (\<lambda>reason. ''mount option '' @ quote (k @ ''='' @ x) @ '': '' @ reason) (snd (put x c))))"
proof -
  have kv: "(case split_once CHR ''='' opt of Some (k, x) \<Rightarrow> (k, Some x) | None \<Rightarrow> (opt, None)) = (k, v)"
    using assms by (simp add: key_value_def)
  show "find_setting k = None \<Longrightarrow> apply_one opt c =
      (c, if k = ''remount'' \<and> v \<noteq> None then Err ''mount option 'remount' takes no value'' else Ok ())"
    and "find_setting k = Some s \<Longrightarrow> set_apply s = Flag f \<Longrightarrow> apply_one opt c =
      (if v = None then (f c, Ok ()) else (c, Err (''mount option '' @ quote k @ '' takes no value'')))"
    and "find_setting k = Some s \<Longrightarrow> set_apply s = Value put \<Longrightarrow> apply_one opt c = (case v of
      None \<Rightarrow> (c, Err (''mount option '' @ quote k @ '' needs a value''))
    | Some x \<Rightarrow> (fst (put x c), map_err (\<lambda>reason. ''mount option '' @ quote (k @ ''='' @ x) @ '': '' @ reason) (snd (put x c))))"
    unfolding apply_one_def kv by (auto simp: split_beta split: option.split)
qed

text \<open>The three ways an option of a list goes, as a rule for case analysis.\<close>

lemma apply_one_ways:
  obtains (foreign) k v where "key_value opt = (k, v)" "find_setting k = None"
  | (flag) k v s f where "key_value opt = (k, v)" "find_setting k = Some s" "set_apply s = Flag f"
  | (valued) k v s put where "key_value opt = (k, v)" "find_setting k = Some s" "set_apply s = Value put"
proof -
  obtain k v where kv: "key_value opt = (k, v)" by fastforce
  show thesis
  proof (cases "find_setting k")
    case None
    with kv show thesis by (rule foreign)
  next
    case (Some s)
    with kv flag valued show thesis by (cases "set_apply s") blast+
  qed
qed

lemma apply_one_fst:
  "fst (apply_one opt c) = (case find_setting (fst (key_value opt)) of
      None \<Rightarrow> c
    | Some s \<Rightarrow> (case (set_apply s, snd (key_value opt)) of
          (Flag f, None) \<Rightarrow> f c | (Value put, Some x) \<Rightarrow> fst (put x c) | _ \<Rightarrow> c))"
  by (cases opt rule: apply_one_ways) (auto simp: apply_one_unfold split: option.split)

lemma apply_one_keeps:
  assumes all: "list_all (setting_keeps P) (map set_apply SETTINGS)" and c: "P c"
  shows "P (fst (apply_one o1 c))"
proof (cases "find_setting (fst (key_value o1))")
  case (Some s)
  then have s: "setting_keeps P (set_apply s)" using all by (auto simp: find_setting_Some list_all_iff)
  show ?thesis
    using setting_keeps_flag [OF s _ c] setting_keeps_value [OF s _ c] Some c
    by (auto simp: apply_one_fst split: apply_how.splits option.splits)
qed (simp add: apply_one_fst c)

lemma apply_opts_keeps:
  assumes all: "list_all (setting_keeps P) (map set_apply SETTINGS)" and c: "P c"
  shows "P (fst (apply_opts spec c))"
proof -
  have "P (fst (for_act apply_one xs c))" for xs
    by (rule for_act_keeps [of xs P apply_one c]) (use apply_one_keeps [OF all] c in auto)
  with c show ?thesis by (simp add: apply_opts_def Let_def split: option.splits)
qed

lemma apply_long_keeps:
  assumes all: "list_all (setting_keeps P) (map set_apply SETTINGS)" "s \<in> set SETTINGS" and c: "P c"
  shows "P (fst (fst (apply_long lx s (c, p))))"
proof -
  have s: "setting_keeps P (set_apply s)" using all by (auto simp: list_all_iff)
  show ?thesis
  proof (cases "set_apply s")
    case (Flag f)
    with setting_keeps_flag [OF s _ c] show ?thesis by (simp add: apply_long_def)
  next
    case (Value put)
    note put = setting_keeps_value [OF s Value c]
    obtain p' r where r: "lx_value lx p = (p', r)" by fastforce
    show ?thesis
    proof (cases r)
      case (Ok raw)
      with put c r Value show ?thesis by (cases "to_str raw") (simp_all add: apply_long_def split_beta)
    qed (use c r Value in \<open>simp_all add: apply_long_def\<close>)
  qed
qed

text \<open>
  Whatever an option list says, and whether or not it is refused, the configuration keeps its
  types: every number fits the width of its field and the modes have no bits beyond the twelve of a
  Unix mode.
\<close>

lemma options_keep_types:
  "config_typed c \<Longrightarrow> config_typed (fst (apply_opts spec c))"
  by (rule apply_opts_keeps [OF settings_typed])

text \<open>
  The mask options set the modes from 666 and 777: what \<open>file-mode\<close> and \<open>dir-mode\<close> said before is
  overwritten, not masked.
\<close>

lemma umask_overwrites_modes:
  assumes "parse_mode v = Ok m"
  shows "file_mode (fst (apply_one (''umask='' @ v) c)) = 0x1B6 AND NOT m
    \<and> dir_mode (fst (apply_one (''umask='' @ v) c)) = 0x1FF AND NOT m"
proof -
  have kv: "key_value (''umask='' @ v) = (''umask'', Some v)" by (simp add: key_value_def)
  have "map_option set_apply (find_setting ''umask'') =
      Some (Value (set_with parse_mode (\<lambda>mask c. c\<lparr>file_mode := 0x1B6 AND NOT mask, dir_mode := 0x1FF AND NOT mask\<rparr>)))"
    by (simp add: find_setting_def SETTINGS_def answers_to_def same_name_def is_dash_def)
  then obtain s where "find_setting ''umask'' = Some s"
    and "set_apply s = Value (set_with parse_mode (\<lambda>mask c. c\<lparr>file_mode := 0x1B6 AND NOT mask, dir_mode := 0x1FF AND NOT mask\<rparr>))"
    by auto
  then show ?thesis using assms by (simp only: apply_one_unfold(3) [OF kv]) (simp add: set_with_def)
qed

section \<open>The outcome of an option list\<close>

lemma set_with_outcome: "snd (set_with f upd v c) = snd (set_with f upd v c')"
  by (simp add: set_with_def split: rust.splits)

definition fixed_outcome :: "apply_how \<Rightarrow> bool" where
  "fixed_outcome a \<longleftrightarrow> (case a of Flag f \<Rightarrow> True | Value put \<Rightarrow> (\<forall>v c c'. snd (put v c) = snd (put v c')))"

lemma settings_fixed: "list_all fixed_outcome (map set_apply SETTINGS)"
  unfolding SETTINGS_def list.map setting.simps list.pred_inject fixed_outcome_def apply_how.case
  by (intro conjI TrueI allI set_with_outcome list.pred_inject(1))

lemma setting_fixed: "find_setting k = Some s \<Longrightarrow> set_apply s = Value put \<Longrightarrow> snd (put v c) = snd (put v c')"
proof -
  assume "find_setting k = Some s" "set_apply s = Value put"
  then have "fixed_outcome (Value put)" using settings_fixed by (auto simp: find_setting_Some list_all_iff)
  then show ?thesis by (simp add: fixed_outcome_def)
qed

lemma apply_one_outcome: "snd (apply_one opt c) = snd (apply_one opt c')"
proof (cases opt rule: apply_one_ways)
  case (valued k v s put)
  then show ?thesis using setting_fixed [OF valued(2,3), of _ c c'] by (simp add: apply_one_unfold split: option.split)
qed (simp_all add: apply_one_unfold)

lemma for_act_Ok:
  assumes "\<And>x s s'. snd (f x s) = snd (f x s')"
  shows "snd (for_act f xs s) = Ok () \<longleftrightarrow> list_all (\<lambda>x. snd (f x t) = Ok ()) xs"
proof (induction xs arbitrary: s)
  case (Cons x xs)
  have "snd (f x s) = snd (f x t)" by (rule assms)
  with Cons.IH show ?case by (auto simp: sbind_def split: prod.splits rust.splits)
qed simp

text \<open>The options of a list, and why one of them is refused.\<close>

definition options_of :: "string \<Rightarrow> string list" where
  "options_of spec = filter (\<lambda>o1. o1 \<noteq> []) (split_on CHR '','' spec)"

definition acceptable :: "string \<Rightarrow> bool" where
  "acceptable opt = (case find_setting (fst (key_value opt)) of
       None \<Rightarrow> fst (key_value opt) \<noteq> ''remount'' \<or> snd (key_value opt) = None
     | Some s \<Rightarrow> (case (set_apply s, snd (key_value opt)) of
           (Flag f, v) \<Rightarrow> v = None
         | (Value put, None) \<Rightarrow> False
         | (Value put, Some x) \<Rightarrow> snd (put x (config_default None 0 0)) = Ok ()))"

lemma apply_one_acceptable: "snd (apply_one opt c) = Ok () \<longleftrightarrow> acceptable opt"
proof (cases opt rule: apply_one_ways)
  case (valued k v s put)
  then show ?thesis
    using setting_fixed [OF valued(2,3), of _ c "config_default None 0 0"]
    by (auto simp: apply_one_unfold acceptable_def split: option.split)
qed (simp_all add: apply_one_unfold acceptable_def)

text \<open>
  C32. When an option list is refused. A list is accepted exactly when it is text, does not ask in
  either order for a remount that is writable, and each of its options is acceptable on its own: an
  option that names no setting is, unless it is \<open>remount\<close> with a value. The outcome does not depend on the
  configuration; a request for a writable remount is refused before anything is applied; and a list
  of options that name no setting leaves the configuration alone.
\<close>

theorem option_list_outcome:
  "(snd (apply_opts spec c) = Ok () \<longleftrightarrow>
      utf8_valid spec \<and> \<not> (''remount'' \<in> set (options_of spec) \<and> ''rw'' \<in> set (options_of spec))
      \<and> list_all acceptable (options_of spec))
   \<and> (''remount'' \<in> set (options_of spec) \<and> ''rw'' \<in> set (options_of spec) \<longrightarrow> fst (apply_opts spec c) = c)
   \<and> (list_all (\<lambda>opt. find_setting (fst (key_value opt)) = None) (options_of spec) \<longrightarrow> fst (apply_opts spec c) = c)"
proof -
  have "fst (for_act apply_one xs c) = c" if "list_all (\<lambda>opt. find_setting (fst (key_value opt)) = None) xs" for xs
    using that for_act_keeps [of xs "\<lambda>d. d = c" apply_one c] by (simp add: apply_one_fst list_all_iff)
  moreover have "snd (for_act apply_one xs c) = Ok () \<longleftrightarrow> list_all acceptable xs" for xs
    using for_act_Ok [of apply_one xs c c, OF apply_one_outcome] by (simp add: apply_one_acceptable)
  ultimately show ?thesis
    by (simp add: apply_opts_def to_str_def options_of_def)
qed

theorem option_list_outcome_witness:
  "fst (apply_opts ''threads=3,rw,remount'' (config_default None 0 0)) = config_default None 0 0
   \<and> snd (apply_opts ''threads=3,rw,remount'' (config_default None 0 0)) \<noteq> Ok ()
   \<and> fst (apply_opts ''noatime,x-new'' (config_default None 0 0)) = config_default None 0 0
   \<and> snd (apply_opts ''noatime,x-new'' (config_default None 0 0)) = Ok ()"
proof -
  have *: "options_of ''threads=3,rw,remount'' = [''threads=3'', ''rw'', ''remount'']"
    "options_of ''noatime,x-new'' = [''noatime'', ''x-new'']" "utf8_valid ''noatime,x-new''"
    by (simp_all add: options_of_def ascii_valid byte_in_def)
  have kv: "key_value ''noatime'' = (''noatime'', None)" "key_value ''x-new'' = (''x-new'', None)"
    by (simp_all add: key_value_def)
  have none: "find_setting ''noatime'' = None" "find_setting ''x-new'' = None"
    by (simp_all add: find_setting_def SETTINGS_def answers_to_def same_name_def is_dash_def)
  show ?thesis
    using option_list_outcome [of "''threads=3,rw,remount''" "config_default None 0 0"]
      option_list_outcome [of "''noatime,x-new''" "config_default None 0 0"]
    by (simp add: * kv none acceptable_def)
qed

section \<open>Breaking the help into lines\<close>

lemma pieces_loop_nonempty:
  "\<not> starts_with rest '' '' \<Longrightarrow> p \<in> set (pieces_loop rest) \<Longrightarrow> p \<noteq> []"
proof (induction rest rule: pieces_loop.induct)
  case (1 rest)
  define e where "e = (if starts_with rest ''['' then (case find_char CHR '']'' rest of None \<Rightarrow> length rest | Some i \<Rightarrow> i + 1)
      else (case find_char CHR '' '' rest of None \<Rightarrow> length rest | Some i \<Rightarrow> i))"
  show ?case
  proof (cases "rest = []")
    case True
    with 1(3) show ?thesis by (simp add: pieces_loop.simps [of "[]"])
  next
    case False
    then have eq: "pieces_loop rest = take e rest # pieces_loop (trim_start (drop e rest))"
      using pieces_loop.simps [of rest] by (simp add: e_def Let_def)
    have "find_char CHR '' '' rest \<noteq> Some 0" using 1(2) False by (cases rest) auto
    then have "e \<noteq> 0" using False by (auto simp: e_def split: option.splits)
    moreover have "\<not> starts_with (trim_start (drop e rest)) '' ''"
      using trim_start_no_space [of "drop e rest"] by (auto simp: starts_with_append)
    ultimately show ?thesis using "1.IH" [OF False e_def] 1(3) False by (auto simp: eq)
  qed
qed

lemma trim_no_space: "\<not> starts_with (trim text) '' ''"
proof
  assume "starts_with (trim text) '' ''"
  then obtain t where t: "trim text = CHR '' '' # t" by (auto simp: starts_with_append)
  obtain q where "rev (trim_start text) = q @ rev (trim text)"
    using trim_prefixes_suffix [of "rev (trim_start text)" "map rev whitespace"] by (auto simp: trim_def trim_end_def)
  then have "trim_start text = trim text @ rev q" by (metis rev_append rev_rev_ident)
  with t trim_start_no_space [of "text" "t @ rev q"] show False by simp
qed

lemma pieces_nonempty: "list_all (\<lambda>w. w \<noteq> []) (pieces text)"
  unfolding pieces_def list_all_iff using pieces_loop_nonempty [OF trim_no_space] by blast

text \<open>Pieces joined with single spaces.\<close>

fun join :: "string list \<Rightarrow> string" where
  "join [] = []"
| "join [w] = w"
| "join (w # ws) = w @ '' '' @ join ws"

lemma join_snoc: "g \<noteq> [] \<Longrightarrow> join (g @ [w]) = join g @ '' '' @ w"
  by (induction g rule: join.induct) auto

lemma join_nonempty: "g \<noteq> [] \<Longrightarrow> list_all (\<lambda>w. w \<noteq> []) g \<Longrightarrow> join g \<noteq> []"
  by (cases g rule: join.cases) auto

text \<open>A line is pieces that fit, or a piece of its own.\<close>

definition line_ok :: "nat \<Rightarrow> string list \<Rightarrow> bool" where
  "line_ok width g \<longleftrightarrow> length g = 1 \<or> length (join g) \<le> width"

definition wrapped :: "nat \<Rightarrow> string list \<Rightarrow> string list \<times> string \<Rightarrow> bool" where
  "wrapped width ws ls \<longleftrightarrow> (\<exists>gs g. ws = concat gs @ g \<and> fst ls = map join gs \<and> snd ls = join g
     \<and> list_all (line_ok width) gs \<and> list_all (\<lambda>g. g \<noteq> []) gs \<and> line_ok width g \<and> (g = [] \<longrightarrow> gs = []))"

lemma wrap_step_wrapped:
  assumes "wrapped width ws ls" and ne: "list_all (\<lambda>w. w \<noteq> []) (ws @ [w])"
  shows "wrapped width (ws @ [w]) (wrap_step width w ls)"
proof -
  obtain lines line where ls: "ls = (lines, line)" by fastforce
  from assms(1) obtain gs g where g: "ws = concat gs @ g" "lines = map join gs" "line = join g"
      "list_all (line_ok width) gs" "list_all (\<lambda>g. g \<noteq> []) gs" "line_ok width g" "g = [] \<longrightarrow> gs = []"
    by (auto simp: wrapped_def ls)
  have empty: "line = [] \<longleftrightarrow> g = []" using g(1,3) ne join_nonempty [of g] by auto
  consider (first) "g = []" | (more) "g \<noteq> []" "length line + 1 + length w \<le> width"
    | (new) "g \<noteq> []" "\<not> length line + 1 + length w \<le> width" by blast
  then show ?thesis
  proof cases
    case first
    with g empty ls show ?thesis unfolding wrapped_def by (intro exI [of _ "[]"] exI [of _ "[w]"]) (simp add: line_ok_def)
  next
    case more
    with g empty ls show ?thesis unfolding wrapped_def
      by (intro exI [of _ gs] exI [of _ "g @ [w]"]) (simp add: line_ok_def join_snoc)
  next
    case new
    with g empty ls show ?thesis unfolding wrapped_def
      by (intro exI [of _ "gs @ [g]"] exI [of _ "[w]"]) (simp add: line_ok_def)
  qed
qed

lemma wrap_loop_wrapped:
  "list_all (\<lambda>w. w \<noteq> []) (vs @ ws) \<Longrightarrow> wrapped width vs ls \<Longrightarrow> wrapped width (vs @ ws) (fold (wrap_step width) ws ls)"
proof (induction ws arbitrary: vs ls)
  case (Cons w ws)
  then show ?case using wrap_step_wrapped [of width vs ls w] Cons.IH [of "vs @ [w]" "wrap_step width w ls"] by simp
qed simp

text \<open>
  \<open>wrap\<close> breaks a text into lines without losing, splitting or moving a piece: the lines are the
  pieces in their order, joined with single spaces, and a line is wider than asked for only when it is
  one piece. A text with nothing in it is one empty line.
\<close>

lemma wrap_lines:
  "\<exists>gs. concat gs = pieces text \<and> wrap text width = map join gs \<and> gs \<noteq> []
     \<and> list_all (\<lambda>g. length g = 1 \<or> length (join g) \<le> width) gs"
proof -
  obtain lines line where ll: "fold (wrap_step width) (pieces text) ([], []) = (lines, line)" by fastforce
  have "wrapped width ([] @ pieces text) (lines, line)"
    unfolding ll[symmetric] by (rule wrap_loop_wrapped)
      (auto simp: pieces_nonempty wrapped_def line_ok_def intro!: exI [of _ "[]"])
  then obtain gs g where g: "pieces text = concat gs @ g" "lines = map join gs" "line = join g"
      "list_all (line_ok width) gs" "line_ok width g" "g = [] \<longrightarrow> gs = []"
    by (auto simp: wrapped_def)
  have "wrap text width = (if line \<noteq> [] \<or> lines = [] then lines @ [line] else lines)" by (simp add: wrap_def ll)
  moreover have "g \<noteq> [] \<Longrightarrow> line \<noteq> []" using g pieces_nonempty [of "text"] join_nonempty [of g] by auto
  ultimately have "wrap text width = map join (gs @ [g])" using g by auto
  with g show ?thesis by (intro exI [of _ "gs @ [g]"]) (auto simp: line_ok_def [abs_def])
qed

end
