(* ===== verification/Launch_Args.thy ===== *)
theory Launch_Args
  imports Cli_Correct
begin

text \<open>
  \<^verbatim>\<open>src/main.rs\<close>, \<open>parse\<close> and \<open>started_as_mount_helper\<close>: the command line. The parser of the
  \<open>lexopt\<close> crate is an argument, a record of its operations on its own state; the loop over it runs
  on fuel, and a parser that uses up the command line needs no more fuel than there is to read.
  What \<open>--help\<close> and \<open>--version\<close> print is not modelled: they end the parse with no arguments.
\<close>

section \<open>The name of the program\<close>

text \<open>\<open>Path::file_name\<close>: the last component, unless it is the root or a parent.\<close>

definition file_name :: "string \<Rightarrow> string option" where
  "file_name path = (case rev (filter (\<lambda>c. c \<noteq> [] \<and> c \<noteq> ''.'') (split_on CHR ''/'' path)) of
       [] \<Rightarrow> None
     | c # _ \<Rightarrow> if c = ''..'' then None else Some c)"

definition started_as_mount_helper :: "string option \<Rightarrow> bool" where
  "started_as_mount_helper argv0 = (case argv0 of
       None \<Rightarrow> False
     | Some path \<Rightarrow> (case file_name path of None \<Rightarrow> False | Some name \<Rightarrow> starts_with name ''mount.''))"

section \<open>Arguments\<close>

record args =
  a_archive :: string
  a_mountpoint :: string
  a_config :: config
  a_verbosity :: nat
  a_foreground :: bool
  a_fake :: bool

text \<open>The variables of \<open>parse\<close>.\<close>

record parsing =
  p_archive :: "string option"
  p_mountpoint :: "string option"
  p_config :: config
  p_verbosity :: nat
  p_foreground :: bool
  p_fake :: bool

definition saturating_add_u8 :: "nat \<Rightarrow> nat \<Rightarrow> nat" where
  "saturating_add_u8 a b = min (a + b) 255"

text \<open>One argument. The value tells whether the parse goes on.\<close>

definition parse_arg :: "('p, 'e) lexopt \<Rightarrow> bool \<Rightarrow> arg \<Rightarrow> (parsing \<times> 'p, 'e, bool) act" where
  "parse_arg lx helper a = (\<lambda>(s, p).
     if a = ArgShort ''o'' then
       (case lx_value lx p of
          (p, Ok spec) \<Rightarrow> (case apply_opts spec (p_config s) of (c, r) \<Rightarrow>
            ((s\<lparr>p_config := c\<rparr>, p), rbind (map_err (lx_custom lx) r) (\<lambda>_. Ok True)))
        | (p, Err e) \<Rightarrow> ((s, p), Err e) | (p, Panic) \<Rightarrow> ((s, p), Panic) | (p, Hang) \<Rightarrow> ((s, p), Hang))
     else if a = ArgShort ''f'' \<and> helper then ((s\<lparr>p_fake := True\<rparr>, p), Ok True)
     else if a = ArgShort ''f'' \<or> a = ArgLong ''foreground'' then ((s\<lparr>p_foreground := True\<rparr>, p), Ok True)
     else if (a = ArgShort ''s'' \<or> a = ArgShort ''n'') \<and> helper then ((s, p), Ok True)
     else if a = ArgShort ''s'' then ((s\<lparr>p_config := (p_config s)\<lparr>threads := 1\<rparr>\<rparr>, p), Ok True)
     else if a = ArgShort ''t'' \<and> helper then
       (case lx_value lx p of
          (p, Ok _) \<Rightarrow> ((s, p), Ok True)
        | (p, Err e) \<Rightarrow> ((s, p), Err e) | (p, Panic) \<Rightarrow> ((s, p), Panic) | (p, Hang) \<Rightarrow> ((s, p), Hang))
     else if a = ArgShort ''N'' \<and> helper then
       ((s, p), Err (lx_custom lx ''mounting into another namespace is not supported''))
     else if a = ArgShort ''v'' \<or> a = ArgLong ''verbose'' then
       ((s\<lparr>p_verbosity := saturating_add_u8 (p_verbosity s) 1\<rparr>, p), Ok True)
     else if a = ArgShort ''h'' \<or> a = ArgLong ''help'' then ((s, p), Ok False)
     else if a = ArgShort ''V'' \<or> a = ArgLong ''version'' then ((s, p), Ok False)
     else (case a of
         ArgLong name \<Rightarrow> (case find_setting name of
             None \<Rightarrow> ((s, p), Err (lx_custom lx (''invalid option '' @ quote (''--'' @ name))))
           | Some t \<Rightarrow> (case apply_long lx t (p_config s, p) of ((c, p), r) \<Rightarrow>
               ((s\<lparr>p_config := c\<rparr>, p), rbind r (\<lambda>_. Ok True))))
       | ArgValue v \<Rightarrow>
           if p_archive s = None then ((s\<lparr>p_archive := Some v\<rparr>, p), Ok True)
           else if p_mountpoint s = None then ((s\<lparr>p_mountpoint := Some v\<rparr>, p), Ok True)
           else ((s, p), Err (lx_unexpected lx a))
       | ArgShort _ \<Rightarrow> ((s, p), Err (lx_unexpected lx a))))"

text \<open>The loop. The result is whether the command line was read to its end.\<close>

fun parse_loop :: "('p, 'e) lexopt \<Rightarrow> bool \<Rightarrow> nat \<Rightarrow> (parsing \<times> 'p, 'e, bool) act" where
  "parse_loop lx helper 0 (s, p) = ((s, p), Hang)"
| "parse_loop lx helper (Suc fuel) (s, p) = (case lx_next lx p of
       (p, Ok None) \<Rightarrow> ((s, p), Ok True)
     | (p, Ok (Some a)) \<Rightarrow> (case parse_arg lx helper a (s, p) of
           ((s, p), Ok True) \<Rightarrow> parse_loop lx helper fuel (s, p)
         | r \<Rightarrow> r)
     | (p, Err e) \<Rightarrow> ((s, p), Err e) | (p, Panic) \<Rightarrow> ((s, p), Panic) | (p, Hang) \<Rightarrow> ((s, p), Hang))"

definition parsing_start :: "config \<Rightarrow> parsing" where
  "parsing_start c = \<lparr> p_archive = None, p_mountpoint = None, p_config = c, p_verbosity = 0,
     p_foreground = False, p_fake = False \<rparr>"

definition parse_args :: "('p, 'e) lexopt \<Rightarrow> nat \<Rightarrow> string option \<Rightarrow> config \<Rightarrow> 'p \<Rightarrow> ('e, args option) rust" where
  "parse_args lx fuel argv0 c p = (case parse_loop lx (started_as_mount_helper argv0) fuel (parsing_start c, p) of
       ((s, p), Ok True) \<Rightarrow> (case (p_archive s, p_mountpoint s) of
           (Some archive, Some mountpoint) \<Rightarrow>
             Ok (Some \<lparr> a_archive = archive, a_mountpoint = mountpoint, a_config = p_config s,
               a_verbosity = p_verbosity s, a_foreground = p_foreground s, a_fake = p_fake s \<rparr>)
         | _ \<Rightarrow> Err (lx_missing lx (Some ''ARCHIVE and MOUNTPOINT'')))
     | (_, Ok False) \<Rightarrow> Ok None
     | (_, Err e) \<Rightarrow> Err e | (_, Panic) \<Rightarrow> Panic | (_, Hang) \<Rightarrow> Hang)"

section \<open>Parsing ends\<close>

text \<open>An outcome that is a value or an error.\<close>

definition settled :: "('e, 'a) rust \<Rightarrow> bool" where
  "settled r \<longleftrightarrow> r \<noteq> Panic \<and> r \<noteq> Hang"

lemma settled_simps [simp]: "settled (Ok x)" "settled (Err e)" "\<not> settled Panic" "\<not> settled Hang"
  by (simp_all add: settled_def)

lemma settled_map_err [simp]: "settled (map_err f r) = settled r"
  by (cases r) simp_all

lemma settled_rbind: "settled r \<Longrightarrow> (\<And>x. settled (f x)) \<Longrightarrow> settled (rbind r f)"
  by (cases r) simp_all

lemma settled_read_digits: "settled (read_digits r hi s acc)"
  by (induction r hi s acc rule: read_digits.induct) (auto split: option.splits)

lemma settled_from_str: "settled (from_str_radix r hi s)"
  by (simp add: from_str_radix_def settled_read_digits del: read_digits.simps split: list.splits)

lemma settled_number: "settled (number hi v)"
  by (simp add: number_def settled_from_str)

lemma settled_mode: "settled (parse_mode v)"
  by (simp add: parse_mode_def settled_rbind settled_from_str)

lemma settled_set_with: "settled (f v) \<Longrightarrow> settled (snd (set_with f upd v c))"
  by (cases "f v") (simp_all add: set_with_def)

definition settled_setting :: "apply_how \<Rightarrow> bool" where
  "settled_setting a \<longleftrightarrow> (case a of Flag f \<Rightarrow> True | Value put \<Rightarrow> (\<forall>v c. settled (snd (put v c))))"

lemma settings_settled: "list_all settled_setting (map set_apply SETTINGS)"
  unfolding SETTINGS_def list.map setting.simps list.pred_inject settled_setting_def apply_how.case
  by (intro conjI TrueI allI settled_set_with settled_number settled_mode list.pred_inject(1))

lemma settled_setting_of: "s \<in> set SETTINGS \<Longrightarrow> settled_setting (set_apply s)"
  using settings_settled by (auto simp: list_all_iff)

lemma settled_apply_one: "settled (snd (apply_one opt c))"
proof (cases opt rule: apply_one_ways)
  case (valued k v s put)
  then have "settled (snd (put x c))" for x
    using settled_setting_of [of s] by (auto simp: find_setting_Some settled_setting_def)
  with valued show ?thesis by (simp add: apply_one_unfold split: option.split)
qed (simp_all add: apply_one_unfold)

lemma settled_for_act: "(\<And>x s. settled (snd (f x s))) \<Longrightarrow> settled (snd (for_act f xs s))"
proof (induction xs arbitrary: s)
  case (Cons x xs)
  then have "settled (snd (f x s))" "\<And>t. settled (snd (for_act f xs t))" by simp_all
  then show ?case by (auto simp: sbind_def split: prod.splits rust.splits)
qed simp

lemma settled_apply_opts: "settled (snd (apply_opts spec c))"
  using settled_for_act [of apply_one, OF settled_apply_one] by (simp add: apply_opts_def Let_def split: option.splits)

text \<open>
  A parser that uses up the command line: \<open>left\<close> bounds what is left to read, an argument takes some
  of it, a value never adds to it, and neither operation panics or runs forever.
\<close>

definition consumes :: "('p, 'e) lexopt \<Rightarrow> ('p \<Rightarrow> nat) \<Rightarrow> bool" where
  "consumes lx left \<longleftrightarrow>
     (\<forall>p. settled (snd (lx_next lx p)) \<and> settled (snd (lx_value lx p)) \<and> left (fst (lx_value lx p)) \<le> left p)
     \<and> (\<forall>p p' a. lx_next lx p = (p', Ok (Some a)) \<longrightarrow> left p' < left p)"

lemma consumes_value:
  "consumes lx left \<Longrightarrow> lx_value lx p = (p', r) \<Longrightarrow> left p' \<le> left p \<and> settled r"
  unfolding consumes_def by (metis fst_conv snd_conv)

lemma apply_long_consumes:
  assumes lx: "consumes lx left" and t: "t \<in> set SETTINGS" and eq: "apply_long lx t (c, p) = ((c', p'), r)"
  shows "left p' \<le> left p \<and> settled r"
proof (cases "set_apply t")
  case (Flag f)
  with eq show ?thesis by (auto simp: apply_long_def)
next
  case (Value put)
  then have put: "settled (snd (put v c))" for v using settled_setting_of [OF t] by (simp add: settled_setting_def)
  obtain q w where q: "lx_value lx p = (q, w)" by fastforce
  note consumes_value [OF lx q]
  with eq q Value put show ?thesis
    by (cases w) (auto simp: apply_long_def split_beta split: option.splits)
qed

lemma parse_arg_consumes:
  assumes lx: "consumes lx left" and eq: "parse_arg lx helper a (s, p) = ((s', p'), r)"
  shows "left p' \<le> left p \<and> settled r"
proof -
  obtain q w where q: "lx_value lx p = (q, w)" by fastforce
  note cv = consumes_value [OF lx q]
  consider (list) "a = ArgShort ''o''" | (type) "a = ArgShort ''t''" "helper"
    | (long) name t where "a = ArgLong name" "find_setting name = Some t"
    | (rest) "a \<noteq> ArgShort ''o''" "\<not> (a = ArgShort ''t'' \<and> helper)" "\<forall>name. a = ArgLong name \<longrightarrow> find_setting name = None"
    by (metis not_None_eq)
  then show ?thesis
  proof cases
    case list
    with eq q cv settled_apply_opts show ?thesis
      by (cases w) (auto simp: parse_arg_def split_beta intro!: settled_rbind)
  next
    case type
    with eq q cv show ?thesis by (cases w) (auto simp: parse_arg_def)
  next
    case long
    obtain c q2 r2 where al: "apply_long lx t (p_config s, p) = ((c, q2), r2)" by (metis surj_pair)
    have "left q2 \<le> left p \<and> settled r2" using apply_long_consumes [OF lx _ al] long(2) by (simp add: find_setting_Some)
    with long eq al show ?thesis by (auto simp: parse_arg_def intro!: settled_rbind split: if_splits)
  next
    case rest
    then have "left (snd (fst (parse_arg lx helper a (s, p)))) \<le> left p \<and> settled (snd (parse_arg lx helper a (s, p)))"
      by (cases a) (simp_all add: parse_arg_def, blast)
    with eq show ?thesis by simp
  qed
qed

lemma parse_loop_ends:
  assumes lx: "consumes lx left"
  shows "left p < fuel \<Longrightarrow> settled (snd (parse_loop lx helper fuel (s, p)))
    \<and> (left p < fuel' \<longrightarrow> parse_loop lx helper fuel' (s, p) = parse_loop lx helper fuel (s, p))"
proof (induction fuel arbitrary: fuel' s p)
  case (Suc fuel)
  obtain q w where q: "lx_next lx p = (q, w)" by fastforce
  have w: "settled w" using lx q unfolding consumes_def by (metis snd_conv)
  show ?case
  proof (cases "\<exists>a. w = Ok (Some a)")
    case True
    then obtain a where a: "w = Ok (Some a)" ..
    then have lt: "left q < left p" using lx q unfolding consumes_def by blast
    obtain s2 q2 r where pa: "parse_arg lx helper a (s, q) = ((s2, q2), r)" by (metis surj_pair)
    have pc: "left q2 \<le> left q \<and> settled r" by (rule parse_arg_consumes [OF lx pa])
    with Suc.prems lt have fuel: "left q2 < fuel" by simp
    show ?thesis
    proof (cases fuel')
      case 0
      with Suc.IH [OF fuel, of s2 0] pc q a pa show ?thesis by (auto split: rust.splits bool.splits)
    next
      case (Suc k)
      have "left p < fuel' \<longrightarrow> left q2 < k" using pc lt Suc by simp
      with Suc.IH [OF fuel, of s2 k] pc q a pa Suc show ?thesis by (auto split: rust.splits bool.splits)
    qed
  next
    case False
    with w q show ?thesis by (cases fuel') (auto split: rust.splits option.splits)
  qed
qed simp

lemma parse_args_settled:
  assumes "settled (snd (parse_loop lx (started_as_mount_helper argv0) fuel (parsing_start c, p)))"
  shows "settled (parse_args lx fuel argv0 c p)"
proof -
  obtain s q r where run: "parse_loop lx (started_as_mount_helper argv0) fuel (parsing_start c, p) = ((s, q), r)"
    by (metis surj_pair)
  show ?thesis
  proof (cases r)
    case (Ok full)
    with run show ?thesis
      by (cases full; cases "p_archive s"; cases "p_mountpoint s") (simp_all add: parse_args_def)
  qed (use run assms in \<open>simp_all add: parse_args_def\<close>)
qed

text \<open>
  C34. Parsing ends. With a parser that uses up the command line, fuel for one round more than there is
  to read is enough: the parse returns arguments, nothing to do, or an error, never a panic, and more
  fuel changes nothing.
\<close>

theorem parse_terminates:
  assumes lx: "consumes lx left" and fuel: "left p < fuel" "left p < fuel'"
  shows "((\<exists>r. parse_args lx fuel argv0 c p = Ok r) \<or> (\<exists>e. parse_args lx fuel argv0 c p = Err e))
    \<and> parse_args lx fuel' argv0 c p = parse_args lx fuel argv0 c p"
proof -
  let ?run = "\<lambda>n. parse_loop lx (started_as_mount_helper argv0) n (parsing_start c, p)"
  have ends: "settled (snd (?run fuel))" "?run fuel' = ?run fuel"
    using parse_loop_ends [OF lx fuel(1), of "started_as_mount_helper argv0" "parsing_start c" fuel'] fuel(2) by auto
  have "settled (parse_args lx fuel argv0 c p)" by (rule parse_args_settled [OF ends(1)])
  then have "(\<exists>r. parse_args lx fuel argv0 c p = Ok r) \<or> (\<exists>e. parse_args lx fuel argv0 c p = Err e)"
    by (cases "parse_args lx fuel argv0 c p") simp_all
  moreover have "parse_args lx fuel' argv0 c p = parse_args lx fuel argv0 c p" by (simp add: parse_args_def ends(2))
  ultimately show ?thesis by blast
qed

text \<open>
  A parser for concrete runs: a list of arguments that are already told apart, where the value of an
  option is the next one.
\<close>

definition told_apart :: "(arg list, string) lexopt" where
  "told_apart = \<lparr>
     lx_next = (\<lambda>p. case p of [] \<Rightarrow> ([], Ok None) | a # p \<Rightarrow> (p, Ok (Some a))),
     lx_value = (\<lambda>p. case p of ArgValue v # p \<Rightarrow> (p, Ok v) | _ \<Rightarrow> (p, Err ''missing'')),
     lx_custom = (\<lambda>m. m), lx_missing = (\<lambda>_. ''missing''), lx_unexpected = (\<lambda>_. ''unexpected'') \<rparr>"

lemma told_apart_consumes: "consumes told_apart length"
  by (auto simp: consumes_def told_apart_def split: list.splits arg.splits)

theorem parse_terminates_witness:
  "((\<exists>r. parse_args told_apart 9 None (config_default None 0 0) [ArgValue ''a.zip'', ArgLong ''threads'', ArgValue ''2''] = Ok r)
    \<or> (\<exists>e. parse_args told_apart 9 None (config_default None 0 0) [ArgValue ''a.zip'', ArgLong ''threads'', ArgValue ''2''] = Err e))
   \<and> parse_args told_apart 4 None (config_default None 0 0) [ArgValue ''a.zip'', ArgLong ''threads'', ArgValue ''2'']
     = parse_args told_apart 9 None (config_default None 0 0) [ArgValue ''a.zip'', ArgLong ''threads'', ArgValue ''2'']"
  by (rule parse_terminates [OF told_apart_consumes]) simp_all

section \<open>What a parse returns\<close>

definition parsing_ok :: "bool \<Rightarrow> parsing \<Rightarrow> bool" where
  "parsing_ok helper s \<longleftrightarrow> config_typed (p_config s) \<and> p_verbosity s \<le> 255 \<and> (p_fake s \<longrightarrow> helper)
     \<and> (p_archive s = None \<longrightarrow> p_mountpoint s = None)"

lemma parse_arg_ok:
  assumes ok: "parsing_ok helper s"
  shows "parsing_ok helper (fst (fst (parse_arg lx helper a (s, p))))"
proof -
  have c: "config_typed (p_config s)" using ok by (simp add: parsing_ok_def)
  obtain q w where q: "lx_value lx p = (q, w)" by fastforce
  consider (list) "a = ArgShort ''o''" | (type) "a = ArgShort ''t''" "helper"
    | (long) name t where "a = ArgLong name" "find_setting name = Some t"
    | (rest) "a \<noteq> ArgShort ''o''" "\<not> (a = ArgShort ''t'' \<and> helper)" "\<forall>name. a = ArgLong name \<longrightarrow> find_setting name = None"
    by (metis not_None_eq)
  then show ?thesis
  proof cases
    case list
    with ok q apply_opts_keeps [OF settings_typed c] show ?thesis
      by (cases w) (simp_all add: parse_arg_def split_beta parsing_ok_def)
  next
    case type
    with ok q show ?thesis by (cases w) (simp_all add: parse_arg_def)
  next
    case long
    have "config_typed (fst (fst (apply_long lx t (p_config s, p))))"
      by (rule apply_long_keeps [OF settings_typed _ c]) (use long(2) in \<open>simp add: find_setting_Some\<close>)
    with long ok show ?thesis by (simp add: parse_arg_def split_beta parsing_ok_def saturating_add_u8_def)
  next
    case rest
    with ok show ?thesis
      by (cases a) (auto simp: parse_arg_def parsing_ok_def saturating_add_u8_def config_typed_def)
  qed
qed

lemma parse_loop_ok: "parsing_ok helper s \<Longrightarrow> parsing_ok helper (fst (fst (parse_loop lx helper fuel (s, p))))"
proof (induction fuel arbitrary: s p)
  case (Suc fuel)
  obtain q w where q: "lx_next lx p = (q, w)" by fastforce
  show ?case
  proof (cases "\<exists>a. w = Ok (Some a)")
    case True
    then obtain a where a: "w = Ok (Some a)" ..
    obtain s2 q2 r where pa: "parse_arg lx helper a (s, q) = ((s2, q2), r)" by (metis surj_pair)
    have ok2: "parsing_ok helper s2" using parse_arg_ok [OF Suc.prems, of lx a q] pa by simp
    show ?thesis
    proof (cases "r = Ok True")
      case True
      with q a pa Suc.IH [OF ok2, of q2] show ?thesis by simp
    next
      case False
      with q a pa ok2 show ?thesis by (cases r) auto
    qed
  next
    case False
    with q Suc.prems show ?thesis by (cases w) auto
  qed
qed simp

text \<open>
  C35. What a parse returns is fit to use: every field of the configuration is within its type whatever
  the options said, the verbosity stopped at its greatest value, and a mount is only pretended when
  the program was started as a mount helper.
\<close>

theorem parse_returns_typed:
  assumes "parse_args lx fuel argv0 c p = Ok (Some a)" and "config_typed c"
  shows "config_typed (a_config a) \<and> a_verbosity a \<le> 255 \<and> (a_fake a \<longrightarrow> started_as_mount_helper argv0)"
proof -
  obtain s q r where run: "parse_loop lx (started_as_mount_helper argv0) fuel (parsing_start c, p) = ((s, q), r)"
    by (metis surj_pair)
  have "parsing_ok (started_as_mount_helper argv0) (parsing_start c)"
    using assms(2) by (simp add: parsing_ok_def parsing_start_def)
  from parse_loop_ok [OF this, of lx fuel p] run have ok: "parsing_ok (started_as_mount_helper argv0) s" by simp
  have "r = Ok True" using assms(1) run by (cases r; cases "r = Ok True") (auto simp: parse_args_def)
  with ok assms(1) run show ?thesis
    by (auto simp: parse_args_def parsing_ok_def split: option.splits)
qed

theorem parse_returns_typed_witness:
  "\<exists>a. parse_args told_apart 9 (Some ''/sbin/mount.zipfs'') (config_default None 0 0)
      [ArgValue ''a.zip'', ArgValue ''/mnt'', ArgShort ''f'', ArgShort ''v''] = Ok (Some a)
    \<and> config_typed (a_config a) \<and> a_verbosity a \<le> 255
    \<and> (a_fake a \<longrightarrow> started_as_mount_helper (Some ''/sbin/mount.zipfs''))"
proof -
  have c: "config_typed (config_default None 0 0)"
    by (simp add: config_typed_def config_default_def DEFAULT_SOURCE_BUFFER_def)
  have h: "started_as_mount_helper (Some ''/sbin/mount.zipfs'')"
    by (simp add: started_as_mount_helper_def file_name_def)
  obtain a where a: "parse_args told_apart 9 (Some ''/sbin/mount.zipfs'') (config_default None 0 0)
      [ArgValue ''a.zip'', ArgValue ''/mnt'', ArgShort ''f'', ArgShort ''v''] = Ok (Some a)"
    by (simp add: parse_args_def h parse_arg_def told_apart_def parsing_start_def numeral_nat)
  from parse_returns_typed [OF a c] a show ?thesis by blast
qed

end
