(* ===== verification/Detach.thy ===== *)
theory Detach
  imports Index_Types Cli
begin

text \<open>
  \<^verbatim>\<open>src/main.rs\<close>, from \<open>daemonize\<close> to \<open>redirect_standard_streams\<close>: the fork that leaves a child to
  serve the mount, the pipe that carries its verdict, and the process that reports it. The outcomes of
  the system calls are arguments; the bytes that pass through the pipe and the descriptors of the child
  are computed. \<open>fork\<close> returns twice, so \<open>daemonize\<close> is a function of the process it returns in.
\<close>

section \<open>The pipe\<close>

definition READY :: byte where "READY = 0"

text \<open>What \<open>read\<close> and \<open>write\<close> return, with \<open>Got []\<close> for the end of the pipe.\<close>

datatype read_outcome = Got bytes | ReadInterrupted | ReadFailed
datatype write_outcome = Wrote nat | WriteInterrupted | WriteFailed

text \<open>What the first process says before it leaves, and its exit code.\<close>

datatype child_report = StoppedEarly | ChildSaid bytes

type_synonym parent_exit = "nat \<times> child_report option"

definition leave_failing :: "bytes \<Rightarrow> parent_exit" where
  "leave_failing message = (1, Some (if message = [] then StoppedEarly else ChildSaid message))"

fun await_child :: "bytes \<Rightarrow> read_outcome list \<Rightarrow> (unit, parent_exit) rust" where
  "await_child message [] = Hang"
| "await_child message (ReadInterrupted # rs) = await_child message rs"
| "await_child message (ReadFailed # rs) = Ok (leave_failing message)"
| "await_child message (Got buf # rs) =
     (if buf = [] then Ok (leave_failing message)
      else if message = [] \<and> hd buf = READY then Ok (0, None)
      else await_child (message @ buf) rs)"

text \<open>\<open>send\<close>: the bytes that were written, and whether the loop ended.\<close>

fun send_bytes :: "bytes \<Rightarrow> write_outcome list \<Rightarrow> bytes \<times> (unit, unit) rust" where
  "send_bytes [] ws = ([], Ok ())"
| "send_bytes (b # bs) [] = ([], Hang)"
| "send_bytes (b # bs) (WriteInterrupted # ws) = send_bytes (b # bs) ws"
| "send_bytes (b # bs) (WriteFailed # ws) = ([], Ok ())"
| "send_bytes (b # bs) (Wrote n # ws) =
     (if n = 0 then ([], Ok ())
      else if length (b # bs) < n then (b # bs, Panic)
      else (case send_bytes (drop n (b # bs)) ws of (sent, r) \<Rightarrow> (take n (b # bs) @ sent, r)))"

section \<open>Leaving the terminal\<close>

text \<open>The descriptors of a process: what each of them is open on.\<close>

datatype open_on = DevNull | Elsewhere nat

type_synonym descriptors = "int \<Rightarrow> open_on option"

text \<open>
  The system calls of the child: the error of \<open>setsid\<close> and of \<open>chdir\<close> if they fail, what \<open>open\<close> of
  \<open>/dev/null\<close> returns, and the error of \<open>dup2\<close> onto a descriptor.
\<close>

record detach_sys =
  sys_setsid :: "io_error option"
  sys_chdir :: "io_error option"
  sys_open_null :: "io_error + int"
  sys_dup2 :: "int \<Rightarrow> io_error option"

definition dup_null :: "detach_sys \<Rightarrow> int \<Rightarrow> int \<Rightarrow> (descriptors, io_error, unit) act" where
  "dup_null sys null target fds = (case sys_dup2 sys target of
       Some e \<Rightarrow> (fds(null := None), Err e)
     | None \<Rightarrow> (fds(target := fds null), Ok ()))"

definition redirect_standard_streams :: "detach_sys \<Rightarrow> (descriptors, io_error, unit) act" where
  "redirect_standard_streams sys fds = (case sys_open_null sys of
       Inl e \<Rightarrow> (fds, Err e)
     | Inr null \<Rightarrow> sbind (for_act (dup_null sys null) [0, 1, 2])
         (\<lambda>_ fds. (if 2 < null then fds(null := None) else fds, Ok ())) (fds(null := Some DevNull)))"

definition detach :: "detach_sys \<Rightarrow> (descriptors, io_error, unit) act" where
  "detach sys fds = (case sys_setsid sys of
       Some e \<Rightarrow> (fds, Err e)
     | None \<Rightarrow> (case sys_chdir sys of
           Some e \<Rightarrow> (fds, Err e)
         | None \<Rightarrow> redirect_standard_streams sys fds))"

section \<open>The fork\<close>

datatype detach_error = Local io_error | Reported

datatype side = InParent | InChild

text \<open>How \<open>daemonize\<close> ends in a process: it leaves, or it returns, having sent bytes down the pipe.\<close>

datatype daemon_end =
    Leaves "(unit, parent_exit) rust"
  | Returns "(detach_error, unit) rust" bytes

record daemon_sys =
  sys_pipe :: "io_error option"
  sys_fork :: "io_error option"
  sys_detach :: detach_sys
  sys_writes :: "write_outcome list"
  sys_reads :: "read_outcome list"
  sys_describe :: "io_error \<Rightarrow> bytes"              \<comment> \<open>the text of an error\<close>

definition verdict :: "daemon_sys \<Rightarrow> (io_error, unit) rust \<Rightarrow> bytes" where
  "verdict sys r = (case r of Err e \<Rightarrow> sys_describe sys e | _ \<Rightarrow> [READY])"

definition daemonize :: "daemon_sys \<Rightarrow> side \<Rightarrow> descriptors \<Rightarrow> descriptors \<times> daemon_end" where
  "daemonize sys side fds = (case sys_pipe sys of
       Some e \<Rightarrow> (fds, Returns (Err (Local e)) [])
     | None \<Rightarrow> (case sys_fork sys of
           Some e \<Rightarrow> (fds, Returns (Err (Local e)) [])
         | None \<Rightarrow> (case side of
               InParent \<Rightarrow> (fds, Leaves (await_child [] (sys_reads sys)))
             | InChild \<Rightarrow> (case detach (sys_detach sys) fds of (fds, detached) \<Rightarrow>
                 (case send_bytes (verdict sys detached) (sys_writes sys) of
                    (sent, Ok _) \<Rightarrow> (fds, Returns (map_err (\<lambda>_. Reported) detached) sent)
                  | (sent, Panic) \<Rightarrow> (fds, Returns Panic sent)
                  | (sent, _) \<Rightarrow> (fds, Returns Hang sent))))))"

section \<open>The verdict arrives\<close>

text \<open>
  What the pipe promises: \<open>read\<close> hands out what was written, in order, in pieces of at most the
  buffer's length, and reports the end only after all of it and after the writer closed its end,
  which comes. Reads may be interrupted or fail at any point.
\<close>

fun delivers :: "bytes \<Rightarrow> read_outcome list \<Rightarrow> bool" where
  "delivers bs [] = False"
| "delivers bs (ReadInterrupted # rs) = delivers bs rs"
| "delivers bs (ReadFailed # rs) = True"
| "delivers bs (Got buf # rs) =
     (if buf = [] then bs = []
      else length buf \<le> 256 \<and> take (length buf) bs = buf \<and> delivers (drop (length buf) bs) rs)"

lemma await_refusal:
  assumes "delivers bs rs" and "message = [] \<Longrightarrow> bs \<noteq> [] \<Longrightarrow> hd bs \<noteq> READY"
  shows "\<exists>rep. await_child message rs = Ok (1, Some rep)
    \<and> (ReadFailed \<notin> set rs \<longrightarrow> rep = (if message @ bs = [] then StoppedEarly else ChildSaid (message @ bs)))"
  using assms
proof (induction bs rs arbitrary: message rule: delivers.induct)
  case (4 bs buf rs)
  show ?case
  proof (cases "buf = []")
    case True
    with 4(2) show ?thesis by (simp add: leave_failing_def)
  next
    case False
    with 4(2) have bs: "bs = buf @ drop (length buf) bs" and del: "delivers (drop (length buf) bs) rs"
      by (auto, metis append_take_drop_id)
    have "\<not> (message = [] \<and> hd buf = READY)" using 4(3) bs False by (metis append_is_Nil_conv hd_append2)
    moreover have "\<exists>rep. await_child (message @ buf) rs = Ok (1, Some rep) \<and> (ReadFailed \<notin> set rs \<longrightarrow>
        rep = (if (message @ buf) @ drop (length buf) bs = [] then StoppedEarly else ChildSaid ((message @ buf) @ drop (length buf) bs)))"
      by (rule "4.IH") (use False del in simp_all)
    moreover have "(message @ buf) @ drop (length buf) bs = message @ bs" using bs by simp
    ultimately show ?thesis using False by auto
  qed
qed (auto simp: leave_failing_def)

lemma await_ready:
  assumes "delivers bs rs" and "bs \<noteq> []" and "hd bs = READY"
  shows "await_child [] rs = Ok (0, None) \<or> (ReadFailed \<in> set rs \<and> await_child [] rs = Ok (1, Some StoppedEarly))"
  using assms
proof (induction bs rs rule: delivers.induct)
  case (4 bs buf rs)
  then have "buf \<noteq> []" and "take (length buf) bs = buf" by (auto split: if_splits)
  then have "hd buf = hd bs" by (metis hd_append2 append_take_drop_id)
  with 4 \<open>buf \<noteq> []\<close> show ?case by simp
qed (auto simp: leave_failing_def)

lemma send_bytes_prefix: "\<exists>t. bs = fst (send_bytes bs ws) @ t"
proof (induction bs ws rule: send_bytes.induct)
  case (5 b bs n ws)
  show ?case
  proof (cases "n = 0 \<or> length (b # bs) < n")
    case False
    with 5 obtain t where "drop n (b # bs) = fst (send_bytes (drop n (b # bs)) ws) @ t" by auto
    then have "b # bs = (take n (b # bs) @ fst (send_bytes (drop n (b # bs)) ws)) @ t" by (metis append.assoc append_take_drop_id)
    with False show ?thesis by (auto simp: split_beta simp del: take_Suc_Cons drop_Suc_Cons)
  qed auto
qed auto

lemma parent_verdict:
  assumes forked: "sys_pipe sys = None" "sys_fork sys = None"
    and child: "daemonize sys InChild fds = (fds', Returns r sent)" "r \<noteq> Panic" "r \<noteq> Hang"
    and pipe: "delivers sent (sys_reads sys)"
    and texts: "\<And>e. sys_describe sys e \<noteq> [] \<and> hd (sys_describe sys e) \<noteq> READY"
  shows "\<exists>code rep. daemonize sys InParent fds = (fds, Leaves (Ok (code, rep)))
    \<and> (code = 0 \<longrightarrow> r = Ok ())
    \<and> (sent \<noteq> [] \<and> ReadFailed \<notin> set (sys_reads sys) \<longrightarrow>
         (if r = Ok () then code = 0 else code = 1 \<and> rep = Some (ChildSaid sent)))"
proof -
  obtain d where d: "r = map_err (\<lambda>_. Reported) d" "sent = fst (send_bytes (verdict sys d) (sys_writes sys))"
    using child forked by (auto simp: daemonize_def split: prod.splits rust.splits)
  obtain t where t: "verdict sys d = sent @ t" using send_bytes_prefix [of "verdict sys d" "sys_writes sys"] d(2) by auto
  have par: "daemonize sys InParent fds = (fds, Leaves (await_child [] (sys_reads sys)))"
    using forked by (simp add: daemonize_def)
  show ?thesis
  proof (cases d)
    case (Ok u)
    show ?thesis
    proof (cases "sent = []")
      case True
      then obtain rep where "await_child [] (sys_reads sys) = Ok (1, Some rep)" using await_refusal [OF pipe, of "[]"] by auto
      with par True show ?thesis by simp
    next
      case False
      with Ok t have "hd sent = READY" by (cases sent) (auto simp: verdict_def)
      from await_ready [OF pipe False this] par d(1) Ok show ?thesis by auto
    qed
  next
    case (Err e)
    have "hd sent \<noteq> READY" if "sent \<noteq> []" using that texts [of e] t Err by (cases sent) (auto simp: verdict_def)
    then obtain rep where "await_child [] (sys_reads sys) = Ok (1, Some rep)"
      and "ReadFailed \<notin> set (sys_reads sys) \<longrightarrow> rep = (if sent = [] then StoppedEarly else ChildSaid sent)"
      using await_refusal [OF pipe, of "[]"] by auto
    with par d(1) Err show ?thesis by auto
  qed (use d(1) child in simp_all)
qed


text \<open>A run in which the child detaches and the byte arrives after an interrupted read.\<close>

definition calm_daemon :: daemon_sys where
  "calm_daemon = \<lparr> sys_pipe = None, sys_fork = None,
     sys_detach = \<lparr> sys_setsid = None, sys_chdir = None, sys_open_null = Inr 7, sys_dup2 = (\<lambda>_. None) \<rparr>,
     sys_writes = [WriteInterrupted, Wrote 1], sys_reads = [ReadInterrupted, Got [0], Got []],
     sys_describe = (\<lambda>_. [69]) \<rparr>"

definition shell_descriptors :: descriptors where
  "shell_descriptors = (\<lambda>fd. if 0 \<le> fd \<and> fd \<le> 2 then Some (Elsewhere 1) else None)"

lemma calm_child: "\<exists>fds'. daemonize calm_daemon InChild shell_descriptors = (fds', Returns (Ok ()) [0])"
  by (auto simp: daemonize_def calm_daemon_def detach_def redirect_standard_streams_def sbind_def dup_null_def
      verdict_def READY_def)


section \<open>The standard streams\<close>

text \<open>
  A child that detaches has its three standard streams on \<open>/dev/null\<close> and has opened nothing else
  for good: when \<open>open\<close> returns a descriptor that was free, every other descriptor is as it was.
\<close>

lemma detached_streams:
  assumes "detach sys fds = (fds', Ok ())" and "sys_open_null sys = Inr null" and "fds null = None" and "0 \<le> null"
  shows "fds' fd = (if fd = 0 \<or> fd = 1 \<or> fd = 2 then Some DevNull else fds fd)"
proof -
  have dup: "sys_dup2 sys 0 = None \<and> sys_dup2 sys 1 = None \<and> sys_dup2 sys 2 = None"
    using assms(1,2) by (auto simp: detach_def redirect_standard_streams_def sbind_def dup_null_def split: option.splits)
  then show ?thesis
    using assms by (auto simp: detach_def redirect_standard_streams_def sbind_def dup_null_def split: option.splits if_splits)
qed

end
