(* ===== verification/Launch.thy ===== *)
theory Launch
  imports Hello Launch_Args Detach
begin

text \<open>
  \<^verbatim>\<open>src/main.rs\<close>, \<open>check_mountpoint\<close>, \<open>run\<close> and \<open>main\<close>: from the arguments to a served mount. What the
  program asks of the system and of the \<open>fuser\<close> crate is in a record of outcomes, the \<open>world\<close>; a run
  returns what it did with them, the mounts it made and the session it served, beside how it ended.
  Messages of errors keep their parts: the context is a constructor, the source its argument.
\<close>

section \<open>Sessions\<close>

datatype mount_option =
    RO | NoAtime | NoSuid | NoDev | FSName string | Subtype string | DefaultPermissions | AutoUnmount

datatype session_acl = AclAll | AclRootAndOwner | AclOwner

record session_config =
  mount_options :: "mount_option list"
  session_acl :: session_acl
  n_threads :: "nat option"
  clone_fd :: bool

definition session_config_of :: "string \<Rightarrow> config \<Rightarrow> session_config" where
  "session_config_of fsname c =
     (let options = [RO, NoAtime, NoSuid, NoDev, FSName fsname, Subtype ''zipfs'', DefaultPermissions];
          options = (if auto_unmount c then options @ [AutoUnmount] else options) in
      \<lparr> mount_options = options,
        session_acl = (if allow_other c then AclAll else if allow_root c then AclRootAndOwner else AclOwner),
        n_threads = Some (threads c),
        clone_fd = True \<rparr>)"

section \<open>The world\<close>

text \<open>What the calls that open an archive answer, as \<open>guard_open\<close> takes them.\<close>

record open_answers =
  op_env :: environment
  op_file :: "io_error + unit"
  op_fstatfs :: "io_error + int"
  op_canonical :: "io_error + bytes list"
  op_dir :: "io_error + unit"

record 'w world =
  w_consts :: ext_consts
  w_metadata :: "string \<Rightarrow> (io_error, bool) rust"         \<comment> \<open>\<open>fs::metadata\<close>: whether it is a directory\<close>
  w_opening :: "string \<Rightarrow> open_answers"
  w_locate :: "nat \<Rightarrow> (guarded_file, zip_error, nat \<times> (zip_error + 'w zip_record) list) act"
    \<comment> \<open>\<open>ZipLocator::locate_in_reader\<close> for a file of that length: the hint and the records\<close>
  w_session :: "session_config \<Rightarrow> (io_error, unit) rust"  \<comment> \<open>\<open>Session::new\<close>\<close>
  w_serve :: "(io_error, unit) rust"                      \<comment> \<open>\<open>Session::run\<close>\<close>
  w_daemon :: daemon_sys
  w_descriptors :: descriptors
  w_display :: "string \<Rightarrow> string"                         \<comment> \<open>\<open>Path::display\<close>\<close>
  w_describe :: "io_error \<Rightarrow> string"

text \<open>\<open>Archive::open\<close>: the guard, then the central directory found through it.\<close>

definition archive_open :: "'w world \<Rightarrow> string \<Rightarrow> (nat \<times> (zip_error + 'w zip_record) list \<times> guarded_file) result" where
  "archive_open W path =
     (let op = w_opening W path in
      rbind (map_err Io (guard_open (op_env op) (op_file op) (op_fstatfs op) (op_canonical op) (op_dir op))) (\<lambda>reader.
      case w_locate W (guard_len reader) reader of (reader, dir) \<Rightarrow>
        rbind (map_err Zip dir) (\<lambda>(hint, records). Ok (hint, records, reader))))"

datatype run_error =
    NeedsAllow
  | BadMountPoint io_kind string
  | CannotOpen string error
  | CannotIndex string error
  | CannotMount string string io_error
  | CannotDetach io_error
  | ServeStopped string io_error

definition check_mountpoint :: "'w world \<Rightarrow> string \<Rightarrow> (run_error, unit) rust" where
  "check_mountpoint W path = (case w_metadata W path of
       Ok is_dir \<Rightarrow>
         if is_dir then Ok ()
         else Err (BadMountPoint InvalidInput (''mount point '' @ quote (w_display W path) @ '' is not a directory''))
     | Err e \<Rightarrow>
         if io_kind_of e = NotFound
         then Err (BadMountPoint (io_kind_of e)
           (''mount point '' @ quote (w_display W path) @ '' does not exist; create it first''))
         else Err (BadMountPoint (io_kind_of e)
           (''cannot access mount point '' @ quote (w_display W path) @ '': '' @ w_describe W e))
     | Panic \<Rightarrow> Panic | Hang \<Rightarrow> Hang)"

section \<open>Running\<close>

datatype 'f event = Mounts 'f session_config | Serves 'f

datatype run_end = Ended "(run_error, unit) rust" | LeftWith nat

text \<open>The part of \<open>run\<close> that comes before the mount: the file system, or \<open>None\<close> for a dry run.\<close>

definition prepare :: "'w world \<Rightarrow> args \<Rightarrow> (run_error, ('d, 'z, 'h, 'w) zipfs option) rust" where
  "prepare W args =
     (if auto_unmount (a_config args) \<and> \<not> allow_other (a_config args) \<and> \<not> allow_root (a_config args)
      then Err NeedsAllow
      else rbind (check_mountpoint W (a_mountpoint args)) (\<lambda>_.
        rbind (map_err (CannotOpen (w_display W (a_archive args))) (archive_open W (a_archive args))) (\<lambda>(hint, records, reader).
        rbind (map_err (CannotIndex (w_display W (a_archive args)))
            (zipfs_new (w_consts W) hint records reader (a_config args))) (\<lambda>fs.
          Ok (if a_fake args then None else Some fs)))))"

definition serve_session :: "'w world \<Rightarrow> args \<Rightarrow> 'f \<Rightarrow> 'f event list \<times> run_end" where
  "serve_session W args fs =
     ([Serves fs], Ended (map_err (ServeStopped (w_display W (a_mountpoint args))) (w_serve W)))"

definition mount_and_serve ::
  "'w world \<Rightarrow> side \<Rightarrow> args \<Rightarrow> ('d, 'z, 'h, 'w) zipfs \<Rightarrow> ('d, 'z, 'h, 'w) zipfs event list \<times> run_end" where
  "mount_and_serve W side args fs =
     (let sc = session_config_of (w_display W (a_archive args)) (fs_config fs) in
      case map_err (CannotMount (w_display W (a_archive args)) (w_display W (a_mountpoint args))) (w_session W sc) of
        Ok _ \<Rightarrow>
          (case (if a_foreground args then serve_session W args fs
                 else case snd (daemonize (w_daemon W) side (w_descriptors W)) of
                     Leaves (Ok (code, rep)) \<Rightarrow> ([], LeftWith code)
                   | Leaves _ \<Rightarrow> ([], Ended Hang)
                   | Returns (Ok _) sent \<Rightarrow> serve_session W args fs
                   | Returns (Err (Local e)) sent \<Rightarrow> ([], Ended (Err (CannotDetach e)))
                   | Returns (Err Reported) sent \<Rightarrow> ([], Ended (Ok ()))
                   | Returns Panic sent \<Rightarrow> ([], Ended Panic)
                   | Returns Hang sent \<Rightarrow> ([], Ended Hang))
           of (evs, e) \<Rightarrow> (Mounts fs sc # evs, e))
      | Err e \<Rightarrow> ([], Ended (Err e))
      | Panic \<Rightarrow> ([], Ended Panic)
      | Hang \<Rightarrow> ([], Ended Hang))"

definition run :: "'w world \<Rightarrow> side \<Rightarrow> args \<Rightarrow> ('d, 'z, 'h, 'w) zipfs event list \<times> run_end" where
  "run W side args = (case prepare W args of
       Ok (Some fs) \<Rightarrow> mount_and_serve W side args fs
     | Ok None \<Rightarrow> ([], Ended (Ok ()))
     | Err e \<Rightarrow> ([], Ended (Err e))
     | Panic \<Rightarrow> ([], Ended Panic)
     | Hang \<Rightarrow> ([], Ended Hang))"

text \<open>\<open>main\<close>: the level the log is set to, and the exit code; a process that runs on has none.\<close>

datatype log_level = LevelWarn | LevelInfo | LevelDebug | LevelTrace

definition log_level_of :: "nat \<Rightarrow> log_level" where
  "log_level_of verbosity = (if verbosity = 0 then LevelWarn else if verbosity = 1 then LevelInfo
     else if verbosity = 2 then LevelDebug else LevelTrace)"

definition exit_code :: "run_end \<Rightarrow> nat option" where
  "exit_code e = (case e of
     Ended (Ok _) \<Rightarrow> Some 0 | Ended (Err _) \<Rightarrow> Some 1 | Ended Panic \<Rightarrow> Some 101 | Ended Hang \<Rightarrow> None | LeftWith n \<Rightarrow> Some n)"

definition main_program ::
  "'w world \<Rightarrow> side \<Rightarrow> ('e, args option) rust \<Rightarrow> ('d, 'z, 'h, 'w) zipfs event list \<times> nat option" where
  "main_program W side parsed = (case parsed of
       Ok (Some args) \<Rightarrow> (case run W side args of (evs, e) \<Rightarrow> (evs, exit_code e))
     | Ok None \<Rightarrow> ([], Some 0)
     | Err e \<Rightarrow> ([], Some 1)
     | Panic \<Rightarrow> ([], Some 101)
     | Hang \<Rightarrow> ([], None))"

section \<open>What a run does\<close>

lemma prepare_Some:
  assumes "prepare W args = Ok (Some fs)"
  shows "w_metadata W (a_mountpoint args) = Ok True" and "\<not> a_fake args"
    and "\<exists>hint records reader. archive_open W (a_archive args) = Ok (hint, records, reader)
      \<and> zipfs_new (w_consts W) hint records reader (a_config args) = Ok fs"
    and "auto_unmount (a_config args) \<Longrightarrow> allow_other (a_config args) \<or> allow_root (a_config args)"
  using assms by (auto simp: prepare_def check_mountpoint_def split: if_splits rust.splits)

lemma prepare_None: "prepare W args = Ok None \<Longrightarrow> a_fake args"
  by (auto simp: prepare_def split: if_splits)

lemma serve_session_no_mount: "Mounts fs sc \<notin> set (fst (serve_session W args f))"
  by (simp add: serve_session_def)

lemma mount_and_serve_mounts:
  assumes "Mounts f sc \<in> set (fst (mount_and_serve W side args fs))"
  shows "f = fs \<and> sc = session_config_of (w_display W (a_archive args)) (fs_config fs)"
proof -
  let ?sc = "session_config_of (w_display W (a_archive args)) (fs_config fs)"
  obtain r where r: "w_session W ?sc = r" by blast
  with assms have "\<exists>u. r = Ok u" by (cases r) (simp_all add: mount_and_serve_def Let_def)
  then obtain u where "w_session W ?sc = Ok u" using r by blast
  then obtain evs e where "mount_and_serve W side args fs = (Mounts fs ?sc # evs, e)" and "Mounts f sc \<notin> set evs"
    using serve_session_no_mount [of f sc W args fs]
    by (auto simp: mount_and_serve_def Let_def split_beta split: daemon_end.splits rust.splits detach_error.splits)
  with assms show ?thesis by simp
qed

lemma run_mounts:
  "Mounts fs sc \<in> set (fst (run W side args)) \<Longrightarrow> prepare W args = Ok (Some fs)
    \<and> sc = session_config_of (w_display W (a_archive args)) (fs_config fs)"
  by (auto simp: run_def split: rust.splits option.splits dest: mount_and_serve_mounts)

lemma zipfs_new_config: "zipfs_new xc hint records reader c = Ok fs \<Longrightarrow> fs_config fs = clamp c"
  by (auto simp: zipfs_new_def Let_def)

lemma clamp_flags [simp]:
  "allow_other (clamp c) = allow_other c" "allow_root (clamp c) = allow_root c" "auto_unmount (clamp c) = auto_unmount c"
  by (simp_all add: clamp_def Let_def)


text \<open>A world in which everything works, with the small archive.\<close>

definition hello_world :: "unit world" where
  "hello_world = \<lparr> w_consts = std_consts, w_metadata = (\<lambda>_. Ok True),
     w_opening = (\<lambda>_. \<lparr> op_env = quiet_env sample_stamp hello_bytes, op_file = Inr (), op_fstatfs = Inr 0,
       op_canonical = Inr [[97]], op_dir = Inr () \<rparr>),
     w_locate = (\<lambda>_ reader. (reader, Ok (2, map Inr hello_archive))), w_session = (\<lambda>_. Ok ()), w_serve = Ok (),
     w_daemon = calm_daemon, w_descriptors = shell_descriptors, w_display = (\<lambda>p. p), w_describe = (\<lambda>_. ''error'') \<rparr>"

definition hello_args :: args where
  "hello_args = \<lparr> a_archive = ''a.zip'', a_mountpoint = ''/mnt'', a_config = config_default None 0 0,
     a_verbosity = 0, a_foreground = False, a_fake = False \<rparr>"

lemma hello_prepare:
  obtains fs :: "(nat, unit, bytes, unit) zipfs" where "prepare hello_world hello_args = Ok (Some fs)"
proof -
  obtain g where g: "archive_open hello_world ''a.zip'' = Ok (2, map Inr hello_archive, g)"
    by (simp add: archive_open_def hello_world_def Let_def guard_open_def guard_new_def quiet_env_def)
  obtain fs :: "(nat, unit, bytes, unit) zipfs"
    where "zipfs_new std_consts 2 (map Inr hello_archive) g (config_default None 0 0) = Ok fs"
    by (rule hello_mount)
  with g have "prepare hello_world hello_args = Ok (Some fs)"
    by (simp add: prepare_def check_mountpoint_def hello_args_def) (simp add: hello_world_def config_default_def Let_def)
  then show thesis by (rule that)
qed


text \<open>
  C16. Success means a served mount. When the program is run to detach and the process the caller waits
  for exits with success, the child it left behind, in the same world, has mounted the file system
  built from the archive it opened and serves it, so that what is shown of mounts holds of what it
  serves, provided the pipe between them delivers what the child wrote.
\<close>

theorem exit_success_serves:
  assumes args: "parsed = Ok (Some args)" "\<not> a_fake args" "\<not> a_foreground args"
    and parent: "snd (main_program W InParent parsed :: ('d, 'z, 'h, 'w) zipfs event list \<times> nat option) = Some 0"
    and child: "snd (daemonize (w_daemon W) InChild (w_descriptors W)) = Returns r sent" "r \<noteq> Panic" "r \<noteq> Hang"
    and pipe: "delivers sent (sys_reads (w_daemon W))"
    and texts: "\<And>e. sys_describe (w_daemon W) e \<noteq> [] \<and> hd (sys_describe (w_daemon W) e) \<noteq> READY"
  shows "\<exists>fs sc hint records reader.
      fst (main_program W InChild parsed :: ('d, 'z, 'h, 'w) zipfs event list \<times> nat option) = [Mounts fs sc, Serves fs]
    \<and> archive_open W (a_archive args) = Ok (hint, records, reader)
    \<and> zipfs_new (w_consts W) hint records reader (a_config args) = Ok fs"
proof -
  let ?D = "w_daemon W" and ?fds = "w_descriptors W"
  obtain evs e where run: "(run W InParent args :: ('d, 'z, 'h, 'w) zipfs event list \<times> run_end) = (evs, e)" by fastforce
  have e0: "exit_code e = Some 0" using parent run args(1) by (simp add: main_program_def)
  obtain fs :: "('d, 'z, 'h, 'w) zipfs" where fs: "prepare W args = Ok (Some fs)"
    using run e0 prepare_None [of W args] args(2) by (auto simp: run_def exit_code_def split: rust.splits option.splits)
  let ?sc = "session_config_of (w_display W (a_archive args)) (fs_config fs)"
  obtain u where u: "w_session W ?sc = Ok u"
    using run e0 fs by (cases "w_session W ?sc") (auto simp: run_def mount_and_serve_def Let_def exit_code_def)
  have forked: "sys_pipe ?D = None" "sys_fork ?D = None"
    using run e0 fs u args(3) by (auto simp: run_def mount_and_serve_def Let_def exit_code_def daemonize_def split: option.splits)
  obtain fds' where c: "daemonize ?D InChild ?fds = (fds', Returns r sent)" using child(1) by (metis prod.collapse)
  obtain code rep where p: "daemonize ?D InParent ?fds = (?fds, Leaves (Ok (code, rep)))" and v: "code = 0 \<longrightarrow> r = Ok ()"
    using parent_verdict [OF forked c child(2,3) pipe texts] by blast
  have "code = 0" using run e0 fs u args(3) p by (auto simp: run_def mount_and_serve_def Let_def exit_code_def)
  with v have "r = Ok ()" by simp
  then have "fst (main_program W InChild parsed) = [Mounts fs ?sc, Serves fs]"
    using fs u args c by (simp add: main_program_def run_def mount_and_serve_def Let_def serve_session_def split_beta)
  with prepare_Some(3) [OF fs] show ?thesis by blast
qed

theorem exit_success_serves_witness:
  "\<exists>fs sc hint records reader.
      fst (main_program hello_world InChild (Ok (Some hello_args) :: (string, args option) rust)
     :: (nat, unit, bytes, unit) zipfs event list \<times> nat option) = [Mounts fs sc, Serves fs]
    \<and> archive_open hello_world (a_archive hello_args) = Ok (hint, records, reader)
    \<and> zipfs_new (w_consts hello_world) hint records reader (a_config hello_args) = Ok fs"
proof (rule exit_success_serves [of _ hello_args _ "Ok ()" "[0]"])
  obtain fs :: "(nat, unit, bytes, unit) zipfs" where fs: "prepare hello_world hello_args = Ok (Some fs)"
    by (rule hello_prepare)
  have "daemonize calm_daemon InParent shell_descriptors = (shell_descriptors, Leaves (Ok (0, None)))"
    by (simp add: daemonize_def calm_daemon_def READY_def)
  with fs show "snd (main_program hello_world InParent (Ok (Some hello_args) :: (string, args option) rust)
      :: (nat, unit, bytes, unit) zipfs event list \<times> nat option) = Some 0"
    by (simp add: main_program_def run_def mount_and_serve_def Let_def exit_code_def split_beta)
      (simp add: hello_world_def hello_args_def)
  show "snd (daemonize (w_daemon hello_world) InChild (w_descriptors hello_world)) = Returns (Ok ()) [0]"
    using calm_child by (auto simp: hello_world_def)
qed (simp_all add: hello_args_def hello_world_def calm_daemon_def READY_def)

end
