(* ===== verification/Syslog.thy ===== *)
theory Syslog
  imports Rust_Str Cli
begin

text \<open>
  \<^verbatim>\<open>src/main.rs\<close>, \<open>Syslog\<close> and \<open>timestamp\<close>: the log of a detached process. A record goes to the syslog
  daemon line by line, each line one datagram; a line the daemon does not take is counted, and a later
  record tells the count. The clock, \<open>localtime_r\<close>, the constants of \<open>libc\<close> and what the socket answers
  are arguments: the socket's answers are a list, one for each attempt. The counters are those of one
  thread's view, with no other thread between its steps; \<open>Syslog_Steps\<close> has the threads together. The buffer a thread keeps for its datagrams is
  emptied before use, so it is not part of the state.
\<close>

section \<open>Timestamps\<close>

record tm =
  tm_mon :: int
  tm_mday :: int
  tm_hour :: int
  tm_min :: int
  tm_sec :: int

definition show_int :: "int \<Rightarrow> string" where
  "show_int z = (if z < 0 then CHR ''-'' # decimal (nat (- z)) else decimal (nat z))"

text \<open>\<open>{:2}\<close> and \<open>{:02}\<close>\<close>

definition pad2 :: "int \<Rightarrow> string" where
  "pad2 z = replicate (2 - length (show_int z)) CHR '' '' @ show_int z"

definition zero2 :: "int \<Rightarrow> string" where
  "zero2 z = (if z < 0 then CHR ''-'' # replicate (2 - length (show_int z)) CHR ''0'' @ decimal (nat (- z))
     else replicate (2 - length (show_int z)) CHR ''0'' @ show_int z)"

definition MONTHS :: "string list" where
  "MONTHS = [''Jan'', ''Feb'', ''Mar'', ''Apr'', ''May'', ''Jun'', ''Jul'', ''Aug'', ''Sep'', ''Oct'', ''Nov'', ''Dec'']"

text \<open>The text is written into fifteen blanks, as far as it fits.\<close>

definition timestamp :: "tm \<Rightarrow> string" where
  "timestamp t =
     (let month = (if 0 \<le> tm_mon t \<and> nat (tm_mon t) < length MONTHS then MONTHS ! nat (tm_mon t) else MONTHS ! 0);
          line = month @ '' '' @ pad2 (tm_mday t) @ '' '' @ zero2 (tm_hour t) @ '':'' @ zero2 (tm_min t) @ '':'' @ zero2 (tm_sec t)
      in take 15 (line @ replicate 15 CHR '' ''))"

section \<open>Sending\<close>

datatype level = LError | LWarn | LInfo | LDebug | LTrace

record syslog_env =
  log_daemon :: nat
  log_err :: nat
  log_warning :: nat
  log_info :: nat
  log_debug :: nat
  localtime :: "int \<Rightarrow> tm"
  pid :: nat

datatype answer = Taken | SendInterrupted | Refused

text \<open>What a datagram carries: a line of a record, or a report of a number of dropped lines.\<close>

datatype cargo = Line | Report nat

record logger =
  dropped :: nat                                  \<comment> \<open>\<open>DROPPED\<close>\<close>
  reported :: int                                 \<comment> \<open>\<open>REPORTED\<close>\<close>
  cached_stamp :: "int \<times> string"                  \<comment> \<open>\<open>STAMP\<close>\<close>
  answers :: "answer list"                        \<comment> \<open>of the socket, to come\<close>
  sends :: "(cargo \<times> bool \<times> string \<times> bool) list"  \<comment> \<open>cargo, waiting, datagram, taken\<close>

fun send_loop :: "answer list \<Rightarrow> (answer list \<times> bool) option" where
  "send_loop [] = None"
| "send_loop (SendInterrupted # as) = send_loop as"
| "send_loop (Taken # as) = Some (as, True)"
| "send_loop (Refused # as) = Some (as, False)"

definition send_datagram :: "cargo \<Rightarrow> string \<Rightarrow> bool \<Rightarrow> (logger, unit, bool) act" where
  "send_datagram c datagram wait s = (case send_loop (answers s) of
       None \<Rightarrow> (s, Hang)
     | Some (as, taken) \<Rightarrow> (s\<lparr>answers := as, sends := sends s @ [(c, wait, datagram, taken)]\<rparr>, Ok taken))"

definition header :: "syslog_env \<Rightarrow> nat \<Rightarrow> int \<Rightarrow> (logger, unit, string) act" where
  "header E severity now s =
     (let s = (if fst (cached_stamp s) \<noteq> now then s\<lparr>cached_stamp := (now, timestamp (localtime E now))\<rparr> else s) in
      (s, Ok (''<'' @ decimal (log_daemon E OR severity) @ ''>'' @ snd (cached_stamp s)
              @ '' zipfs['' @ decimal (pid E) @ '']: '')))"

definition severity_of :: "syslog_env \<Rightarrow> level \<Rightarrow> nat" where
  "severity_of E l = (case l of LError \<Rightarrow> log_err E | LWarn \<Rightarrow> log_warning E | LInfo \<Rightarrow> log_info E
     | LDebug \<Rightarrow> log_debug E | LTrace \<Rightarrow> log_debug E)"

definition newline :: char where "newline = CHR 0x0A"
definition nul :: char where "nul = CHR 0x00"

definition count_dropped :: "nat \<Rightarrow> logger \<Rightarrow> logger" where
  "count_dropped n s = s\<lparr>dropped := (dropped s + n) mod (usize_max + 1)\<rparr>"

text \<open>One line, with the flags \<open>wait\<close> and \<open>sent\<close> of the loop.\<close>

definition send_line :: "string \<Rightarrow> string \<Rightarrow> (logger \<times> bool \<times> bool, unit, unit) act" where
  "send_line head line = (\<lambda>(s, wait, sent). case send_datagram Line (head @ filter (\<lambda>b. b \<noteq> nul) line) wait s of
       (s, Ok True) \<Rightarrow> ((s, wait, True), Ok ())
     | (s, Ok False) \<Rightarrow> ((count_dropped 1 s, False, sent), Ok ())
     | (s, Err e) \<Rightarrow> ((s, wait, sent), Err e) | (s, Panic) \<Rightarrow> ((s, wait, sent), Panic) | (s, Hang) \<Rightarrow> ((s, wait, sent), Hang))"

definition lines_of :: "string \<Rightarrow> string list" where
  "lines_of message =
     (if newline \<in> set message \<or> nul \<in> set message then filter (\<lambda>l. l \<noteq> []) (split_on newline message)
      else if message \<noteq> [] then [message] else [])"

definition report_dropped :: "syslog_env \<Rightarrow> int \<Rightarrow> (logger, unit, unit) act" where
  "report_dropped E now s =
     (if reported s = now then (s, Ok ())
      else let s = s\<lparr>reported := now\<rparr>; n = dropped s; s = s\<lparr>dropped := 0\<rparr> in
        if n = 0 then (s, Ok ())
        else sbind (header E (log_warning E) now) (\<lambda>head.
          sbind (send_datagram (Report n) (head @ ''syslog did not take '' @ decimal n @ '' log lines'') False)
            (\<lambda>taken s. (if taken then s else count_dropped n s, Ok ()))) s)"

definition send_record :: "syslog_env \<Rightarrow> level \<times> string \<times> int \<Rightarrow> (logger, unit, unit) act" where
  "send_record E = (\<lambda>(level, message, now). sbind (header E (severity_of E level) now) (\<lambda>head s.
     case for_act (send_line head) (lines_of message) (s, level = LError, False) of
       ((s, wait, sent), Ok _) \<Rightarrow> if \<not> sent \<or> dropped s = 0 then (s, Ok ()) else report_dropped E now s
     | ((s, wait, sent), Err e) \<Rightarrow> (s, Err e) | ((s, wait, sent), Panic) \<Rightarrow> (s, Panic) | ((s, wait, sent), Hang) \<Rightarrow> (s, Hang)))"

section \<open>No line is lost in silence\<close>

text \<open>The lines the daemon took, the lines it was told it missed, and the answers it still gives.\<close>

definition taken_lines :: "logger \<Rightarrow> nat" where
  "taken_lines s = length (filter (\<lambda>(c, _, _, ok). c = Line \<and> ok) (sends s))"

definition announced :: "logger \<Rightarrow> nat" where
  "announced s = sum_list (map (\<lambda>(c, _, _, ok). case c of Report n \<Rightarrow> if ok then n else 0 | Line \<Rightarrow> 0) (sends s))"

definition answers_left :: "logger \<Rightarrow> nat" where
  "answers_left s = length (filter (\<lambda>a. a \<noteq> SendInterrupted) (answers s))"

text \<open>Every line so far is taken, announced or still counted.\<close>

definition balance :: "logger \<Rightarrow> nat" where
  "balance s = taken_lines s + announced s + dropped s"

lemma send_loop_answers:
  "0 < length (filter (\<lambda>a. a \<noteq> SendInterrupted) as) \<Longrightarrow> \<exists>as' ok. send_loop as = Some (as', ok)
    \<and> length (filter (\<lambda>a. a \<noteq> SendInterrupted) as) = Suc (length (filter (\<lambda>a. a \<noteq> SendInterrupted) as'))"
  by (induction as rule: send_loop.induct) auto

lemma send_datagram_ok:
  assumes "0 < answers_left s"
  obtains s' ok where "send_datagram c d wait s = (s', Ok ok)" and "answers_left s = Suc (answers_left s')"
    and "dropped s' = dropped s" and "taken_lines s' = taken_lines s + (if c = Line \<and> ok then 1 else 0)"
    and "announced s' = announced s + (case c of Report n \<Rightarrow> if ok then n else 0 | Line \<Rightarrow> 0)"
proof -
  obtain as ok where "send_loop (answers s) = Some (as, ok)"
    and "answers_left s = Suc (length (filter (\<lambda>a. a \<noteq> SendInterrupted) as))"
    using send_loop_answers [of "answers s"] assms by (auto simp: answers_left_def)
  then show thesis
    by (intro that [of "s\<lparr>answers := as, sends := sends s @ [(c, wait, d, ok)]\<rparr>" ok])
      (simp_all add: send_datagram_def answers_left_def taken_lines_def announced_def)
qed

lemma header_ok:
  obtains s' h where "header E sev now s = (s', Ok h)" "answers_left s' = answers_left s" "dropped s' = dropped s"
    "taken_lines s' = taken_lines s" "announced s' = announced s" "reported s' = reported s"
  by (simp add: header_def Let_def answers_left_def taken_lines_def announced_def)

lemma send_line_ok:
  assumes "0 < answers_left s" and "balance s < usize_max"
  obtains s' w' b' where "send_line h line (s, w, b) = ((s', w', b'), Ok ())"
    and "answers_left s = Suc (answers_left s')" and "balance s' = Suc (balance s)"
proof -
  obtain s1 ok where s1: "send_datagram Line (h @ filter (\<lambda>b. b \<noteq> nul) line) w s = (s1, Ok ok)"
    "answers_left s = Suc (answers_left s1)" "dropped s1 = dropped s"
    "taken_lines s1 = taken_lines s + (if ok then 1 else 0)" "announced s1 = announced s"
    by (rule send_datagram_ok [OF assms(1), of Line "h @ filter (\<lambda>b. b \<noteq> nul) line" w]) simp
  have d: "dropped s < usize_max" using assms(2) by (simp add: balance_def)
  show thesis
  proof (cases ok)
    case True
    with s1 show thesis by (intro that [of s1 w True]) (simp_all add: send_line_def balance_def)
  next
    case False
    with s1 d show thesis
      by (intro that [of "count_dropped 1 s1" False b])
        (simp_all add: send_line_def balance_def count_dropped_def answers_left_def taken_lines_def announced_def)
  qed
qed

lemma send_lines_ok:
  assumes "length ls \<le> answers_left s" and "balance s + length ls \<le> usize_max"
  obtains s' w' b' where "for_act (send_line h) ls (s, w, b) = ((s', w', b'), Ok ())"
    and "answers_left s = length ls + answers_left s'" and "balance s' = balance s + length ls"
  using assms
proof (induction ls arbitrary: s w b thesis)
  case (Cons l ls)
  obtain s1 w1 b1 where s1: "send_line h l (s, w, b) = ((s1, w1, b1), Ok ())"
    "answers_left s = Suc (answers_left s1)" "balance s1 = Suc (balance s)"
    by (rule send_line_ok [of s h l w b]) (use Cons.prems in auto)
  obtain s2 w2 b2 where "for_act (send_line h) ls (s1, w1, b1) = ((s2, w2, b2), Ok ())"
    "answers_left s1 = length ls + answers_left s2" "balance s2 = balance s1 + length ls"
    by (rule Cons.IH [of s1 w1 b1]) (use Cons.prems s1 in auto)
  with s1 show ?case by (intro Cons.prems(1)) auto
qed simp

lemma report_ok:
  assumes "0 < answers_left s" and "balance s \<le> usize_max"
  obtains s' where "report_dropped E now s = (s', Ok ())" and "answers_left s \<le> Suc (answers_left s')"
    and "balance s' = balance s"
proof (cases "reported s = now \<or> dropped s = 0")
  case True
  let ?s = "if reported s = now then s else s\<lparr>reported := now, dropped := 0\<rparr>"
  show thesis
    using True by (intro that [of ?s])
      (auto simp: report_dropped_def Let_def balance_def answers_left_def taken_lines_def announced_def)
next
  case False
  let ?s = "s\<lparr>reported := now, dropped := 0\<rparr>"
  have q: "answers_left ?s = answers_left s" "taken_lines ?s = taken_lines s" "announced ?s = announced s"
    by (simp_all add: answers_left_def taken_lines_def announced_def)
  obtain s1 h where h: "header E (log_warning E) now ?s = (s1, Ok h)" "answers_left s1 = answers_left s"
    "dropped s1 = 0" "taken_lines s1 = taken_lines s" "announced s1 = announced s"
    by (rule header_ok [of E "log_warning E" now ?s]) (simp add: q)
  let ?d = "h @ ''syslog did not take '' @ decimal (dropped s) @ '' log lines''"
  obtain s2 ok where s2: "send_datagram (Report (dropped s)) ?d False s1 = (s2, Ok ok)"
    "answers_left s = Suc (answers_left s2)" "dropped s2 = 0" "taken_lines s2 = taken_lines s"
    "announced s2 = announced s + (if ok then dropped s else 0)"
    by (rule send_datagram_ok [of s1 "Report (dropped s)" ?d False]) (use assms(1) h in simp_all)
  have "report_dropped E now s = (if ok then s2 else count_dropped (dropped s) s2, Ok ())"
    using False h(1) s2(1) by (simp add: report_dropped_def Let_def)
  moreover have "dropped s \<le> usize_max" using assms(2) by (simp add: balance_def)
  ultimately show thesis using s2
    by (intro that [of "if ok then s2 else count_dropped (dropped s) s2"])
      (auto simp: balance_def count_dropped_def answers_left_def taken_lines_def announced_def)
qed

abbreviation line_count :: "level \<times> string \<times> int \<Rightarrow> nat" where
  "line_count r \<equiv> length (lines_of (fst (snd r)))"

lemma send_record_ok:
  assumes "Suc (line_count r) \<le> answers_left s" and "balance s + line_count r \<le> usize_max"
  obtains s' where "send_record E r s = (s', Ok ())" and "answers_left s \<le> Suc (line_count r + answers_left s')"
    and "balance s' = balance s + line_count r"
proof -
  obtain l m now where r: "r = (l, m, now)" by (cases r) auto
  obtain s1 h where h: "header E (severity_of E l) now s = (s1, Ok h)" "answers_left s1 = answers_left s" "balance s1 = balance s"
    by (rule header_ok [of E "severity_of E l" now s]) (simp add: balance_def)
  obtain s2 w b where ls: "for_act (send_line h) (lines_of m) (s1, l = LError, False) = ((s2, w, b), Ok ())"
    "answers_left s1 = length (lines_of m) + answers_left s2" "balance s2 = balance s1 + length (lines_of m)"
    by (rule send_lines_ok [of "lines_of m" s1 h "l = LError" False]) (use assms r h in auto)
  obtain s3 where s3: "report_dropped E now s2 = (s3, Ok ())" "answers_left s2 \<le> Suc (answers_left s3)" "balance s3 = balance s2"
    by (rule report_ok [of s2 E now]) (use assms r h ls in auto)
  have "send_record E r s = (if \<not> b \<or> dropped s2 = 0 then s2 else s3, Ok ())"
    using r h(1) ls(1) s3(1) by (simp add: send_record_def)
  with r h ls s3 show thesis by (intro that [of "if \<not> b \<or> dropped s2 = 0 then s2 else s3"]) auto
qed

lemma send_records_ok:
  assumes "sum_list (map (\<lambda>r. Suc (line_count r)) rs) \<le> answers_left s" and "balance s + sum_list (map line_count rs) \<le> usize_max"
  shows "\<exists>s'. for_act (send_record E) rs s = (s', Ok ()) \<and> balance s' = balance s + sum_list (map line_count rs)"
  using assms
proof (induction rs arbitrary: s)
  case (Cons r rs)
  obtain s1 where s1: "send_record E r s = (s1, Ok ())" "answers_left s \<le> Suc (line_count r + answers_left s1)"
    "balance s1 = balance s + line_count r"
    by (rule send_record_ok [of r s E]) (use Cons.prems in auto)
  with Cons.IH [of s1] Cons.prems show ?case by auto
qed simp

text \<open>
  C29. No log line is lost in silence. Whatever the daemon answers, as long as it answers, every record is
  dealt with and every line of every record is one that the daemon took, one that a report told the
  daemon it missed, or one that the counter still holds for a later report; none is counted twice.
\<close>

theorem syslog_accounts:
  assumes "sum_list (map (\<lambda>r. Suc (line_count r)) rs) \<le> answers_left s"
    and "balance s + sum_list (map line_count rs) \<le> usize_max"
  shows "\<exists>s'. for_act (send_record E) rs s = (s', Ok ())
    \<and> taken_lines s' + announced s' + dropped s' = taken_lines s + announced s + dropped s + sum_list (map line_count rs)"
  using send_records_ok [OF assms] by (simp add: balance_def)

text \<open>A daemon that takes one line, refuses the next, and recovers.\<close>

definition moody_logger :: logger where
  "moody_logger = \<lparr> dropped = 0, reported = 0, cached_stamp = (-1, []),
     answers = [SendInterrupted, Taken, Refused, Taken, Taken, Taken, Taken], sends = [] \<rparr>"

definition linux_syslog :: syslog_env where
  "linux_syslog = \<lparr> log_daemon = 24, log_err = 3, log_warning = 4, log_info = 6, log_debug = 7,
     localtime = (\<lambda>_. \<lparr> tm_mon = 9, tm_mday = 2, tm_hour = 21, tm_min = 41, tm_sec = 39 \<rparr>), pid = 7 \<rparr>"

theorem syslog_accounts_witness:
  "\<exists>s'. for_act (send_record linux_syslog) [(LError, ''one'' @ [CHR 0x0A] @ ''two'', 5), (LWarn, ''plain'', 6)] moody_logger = (s', Ok ())
    \<and> taken_lines s' + announced s' + dropped s' = 3"
proof -
  have "lines_of (''one'' @ [CHR 0x0A] @ ''two'') = [''one'', ''two'']" "lines_of ''plain'' = [''plain'']"
    by (simp_all add: lines_of_def newline_def nul_def)
  then show ?thesis
    using syslog_accounts [of "[(LError, ''one'' @ [CHR 0x0A] @ ''two'', 5), (LWarn, ''plain'', 6)]" moody_logger linux_syslog]
    by (simp add: answers_left_def moody_logger_def balance_def taken_lines_def announced_def numeral_3_eq_3)
qed

end
