(* ===== verification/Console.thy ===== *)
theory Console
  imports Launch Syslog
begin

text \<open>
  What the program prints, in \<^verbatim>\<open>src/main.rs\<close>: the usage text, the logger before and after the process
  detaches, and the summary of a build.
\<close>

section \<open>Usage\<close>

definition unlines :: "string list \<Rightarrow> string" where
  "unlines ls = concat (map (\<lambda>l. l @ [newline]) ls)"

definition USAGE_HEAD :: string where
  "USAGE_HEAD = unlines [
     ''zipfs - mount a zip archive as a read-only filesystem'',
     [],
     ''Usage: zipfs [OPTIONS] <ARCHIVE> <MOUNTPOINT>'',
     [],
     ''Options:'']"

definition USAGE_TAIL :: string where
  "USAGE_TAIL = unlines [
     ''  -o OPT[,OPT...]               any option above, without the dashes, as'',
     ''                                mount(8) and fstab spell it'',
     ''  -f, --foreground              stay in the foreground and keep logging to'',
     ''                                standard error, not to syslog'',
     ''  -s                            serve with one thread, the same as --threads 1'',
     ''  -v, --verbose                 log more; repeat for debug and trace'',
     ''  -h, --help                    print this help'',
     ''  -V, --version                 print the version'',
     [],
     ''Without --foreground the process forks once the mount is ready and the first'',
     ''process exits, so a script can mount and then read without waiting. After the'',
     ''fork, logs go to syslog as 'zipfs'; see them with 'journalctl -t zipfs'.'',
     [],
     ''Started under a name that begins with 'mount.', as mount(8) starts a helper,'',
     ''the short options take their mount(8) meanings instead: -s tolerates unknown'',
     ''options, -f does everything but the mount, -n is accepted and does nothing,'',
     ''and -t names the type. Use --foreground and --threads to reach what -f and -s'',
     ''mean otherwise.'']"

definition usage :: string where
  "usage = USAGE_HEAD @ settings_help @ USAGE_TAIL"

section \<open>Logging\<close>

text \<open>The order of the levels, most important first.\<close>

definition rank :: "level \<Rightarrow> nat" where
  "rank l = (case l of LError \<Rightarrow> 1 | LWarn \<Rightarrow> 2 | LInfo \<Rightarrow> 3 | LDebug \<Rightarrow> 4 | LTrace \<Rightarrow> 5)"

definition max_rank :: "log_level \<Rightarrow> nat" where
  "max_rank m = (case m of LevelWarn \<Rightarrow> 2 | LevelInfo \<Rightarrow> 3 | LevelDebug \<Rightarrow> 4 | LevelTrace \<Rightarrow> 5)"

definition log_enabled :: "log_level \<Rightarrow> level \<Rightarrow> bool" where
  "log_enabled m l \<longleftrightarrow> rank l \<le> max_rank m"

definition level_name :: "level \<Rightarrow> string" where
  "level_name l = (case l of LError \<Rightarrow> ''error'' | LWarn \<Rightarrow> ''warning'' | LInfo \<Rightarrow> ''info''
     | LDebug \<Rightarrow> ''debug'' | LTrace \<Rightarrow> ''trace'')"

text \<open>The log of a process: the syslog once it is open, and what standard error was given.\<close>

record console =
  con_syslog :: "logger option"
  con_stderr :: "string list"

definition logger_log :: "syslog_env \<Rightarrow> log_level \<Rightarrow> level \<times> string \<times> int \<Rightarrow> (console, unit, unit) act" where
  "logger_log E m = (\<lambda>(l, message, now) k.
     if \<not> log_enabled m l then (k, Ok ())
     else case con_syslog k of
       Some s \<Rightarrow> (case send_record E (l, message, now) s of (s, r) \<Rightarrow> (k\<lparr>con_syslog := Some s\<rparr>, r))
     | None \<Rightarrow> (k\<lparr>con_stderr := con_stderr k @ [''zipfs: '' @ level_name l @ '': '' @ message @ [newline]]\<rparr>, Ok ()))"

definition report :: "build_stats \<Rightarrow> (level \<times> string) list" where
  "report st = (LInfo, ''indexed '' @ decimal (st_entries st) @ '' entries and '' @ decimal (st_synthetic_dirs st) @ '' implied directories'')
     # (if 0 < st_rejected_paths st then [(LWarn, decimal (st_rejected_paths st) @ '' entries had an unusable path'')] else [])
     @ (if 0 < st_rejected_sizes st then [(LWarn, decimal (st_rejected_sizes st) @ '' entries had an untrustworthy compressed size'')] else [])
     @ (if 0 < st_duplicates st then [(LWarn, decimal (st_duplicates st) @ '' entries lost their name to an earlier one'')] else [])
     @ (if 0 < st_encrypted st then [(LWarn, decimal (st_encrypted st) @ '' entries are encrypted and cannot be read'')] else [])
     @ (if 0 < st_unsupported st then [(LWarn, decimal (st_unsupported st) @ '' entries use a compression method that is not supported'')] else [])"

section \<open>A quiet program\<close>

text \<open>
  A program that was not asked to say more logs warnings and errors only, whatever its verbosity says
  beyond the greatest level, and more verbosity never hides a record.
\<close>

lemma log_enabled_default: "log_enabled (log_level_of 0) l \<longleftrightarrow> l = LError \<or> l = LWarn"
  by (cases l) (simp_all add: log_enabled_def log_level_of_def rank_def max_rank_def)

lemma log_enabled_mono: "v \<le> w \<Longrightarrow> log_enabled (log_level_of v) l \<Longrightarrow> log_enabled (log_level_of w) l"
  by (cases l) (auto simp: log_enabled_def log_level_of_def rank_def max_rank_def split: if_splits)

text \<open>
  By default the summary of a build is silent exactly when every entry of the archive can be reached
  and decoded: no path and no size was rejected, no name was lost, nothing is encrypted or unsupported.
\<close>

lemma report_silent:
  "filter (\<lambda>(l, _). log_enabled (log_level_of 0) l) (report st) = [] \<longleftrightarrow>
     st_rejected_paths st = 0 \<and> st_rejected_sizes st = 0 \<and> st_duplicates st = 0 \<and> st_encrypted st = 0 \<and> st_unsupported st = 0"
  by (simp add: report_def log_enabled_default)

text \<open>A record that is logged goes to one place: a detached process writes nothing to standard error.\<close>

lemma logger_log_detached:
  "con_syslog k = Some s \<Longrightarrow> logger_log E m r k = (k', x) \<Longrightarrow> con_stderr k' = con_stderr k \<and> con_syslog k' \<noteq> None"
  by (auto simp: logger_log_def split: prod.splits if_splits)

end
