(* ===== verification/Syslog_Steps.thy ===== *)
theory Syslog_Steps
  imports Syslog
begin

text \<open>
  \<open>Syslog::send_record\<close> under every interleaving of the threads that log. The counter and the second of
  the last report are atomics that all threads share; a thread is a program counter that stands between
  two operations on them or on the socket, and a step is one such operation. What the daemon answers is
  the choice of the step.
\<close>

section \<open>Threads\<close>

datatype pc =
    Sending "string list" bool bool   \<comment> \<open>the lines to come, \<open>wait\<close> and \<open>sent\<close>\<close>
  | Counting "string list" bool       \<comment> \<open>a line was refused, \<open>fetch_add(1)\<close> is next\<close>
  | Checking                          \<comment> \<open>\<open>DROPPED.load\<close> is next\<close>
  | Loading                           \<comment> \<open>\<open>REPORTED.load\<close> is next\<close>
  | Exchanging int                    \<comment> \<open>\<open>compare_exchange\<close> from this value is next\<close>
  | Swapping                          \<comment> \<open>\<open>DROPPED.swap(0)\<close> is next\<close>
  | Reporting nat                     \<comment> \<open>the report of this many lines is next\<close>
  | Restoring nat                     \<comment> \<open>the report was refused, \<open>fetch_add\<close> is next\<close>
  | Returned

record thread =
  th_now :: int
  th_pc :: pc

text \<open>
  The shared state: the atomics, and a tally of the lines the daemon was handed, those it took, those
  it was told of, and the seconds of the reports, latest first.
\<close>

record shared =
  sh_dropped :: nat
  sh_reported :: int
  sh_handed :: nat
  sh_taken :: nat
  sh_announced :: nat
  sh_reports :: "int list"

definition thread_start :: "level \<times> string \<times> int \<Rightarrow> thread" where
  "thread_start = (\<lambda>(l, message, now). \<lparr> th_now = now, th_pc = Sending (lines_of message) (l = LError) False \<rparr>)"

definition thread_step :: "bool \<Rightarrow> shared \<times> thread \<Rightarrow> shared \<times> thread" where
  "thread_step ok = (\<lambda>(s, t). case th_pc t of
       Sending (l # ls) wait sent \<Rightarrow>
         if ok then (s\<lparr>sh_handed := sh_handed s + 1, sh_taken := sh_taken s + 1\<rparr>, t\<lparr>th_pc := Sending ls wait True\<rparr>)
         else (s\<lparr>sh_handed := sh_handed s + 1\<rparr>, t\<lparr>th_pc := Counting ls sent\<rparr>)
     | Counting ls sent \<Rightarrow>
         (s\<lparr>sh_dropped := (sh_dropped s + 1) mod (usize_max + 1)\<rparr>, t\<lparr>th_pc := Sending ls False sent\<rparr>)
     | Sending [] wait sent \<Rightarrow> (s, t\<lparr>th_pc := if sent then Checking else Returned\<rparr>)
     | Checking \<Rightarrow> (s, t\<lparr>th_pc := if sh_dropped s = 0 then Returned else Loading\<rparr>)
     | Loading \<Rightarrow> (s, t\<lparr>th_pc := if sh_reported s = th_now t then Returned else Exchanging (sh_reported s)\<rparr>)
     | Exchanging seen \<Rightarrow>
         if sh_reported s = seen
         then (s\<lparr>sh_reported := th_now t, sh_reports := th_now t # sh_reports s\<rparr>, t\<lparr>th_pc := Swapping\<rparr>)
         else (s, t\<lparr>th_pc := Returned\<rparr>)
     | Swapping \<Rightarrow> (s\<lparr>sh_dropped := 0\<rparr>, t\<lparr>th_pc := if sh_dropped s = 0 then Returned else Reporting (sh_dropped s)\<rparr>)
     | Reporting n \<Rightarrow>
         if ok then (s\<lparr>sh_announced := sh_announced s + n\<rparr>, t\<lparr>th_pc := Returned\<rparr>)
         else (s, t\<lparr>th_pc := Restoring n\<rparr>)
     | Restoring n \<Rightarrow> (s\<lparr>sh_dropped := (sh_dropped s + n) mod (usize_max + 1)\<rparr>, t\<lparr>th_pc := Returned\<rparr>)
     | Returned \<Rightarrow> (s, t))"

section \<open>Interleavings\<close>

text \<open>A thread takes a step, or logs another record once it has returned from the last.\<close>

inductive logging :: "shared \<times> thread list \<Rightarrow> shared \<times> thread list \<Rightarrow> bool" where
  step: "i < length ts \<Longrightarrow> thread_step ok (s, ts ! i) = (s', t') \<Longrightarrow> logging (s, ts) (s', ts[i := t'])"
| log: "i < length ts \<Longrightarrow> th_pc (ts ! i) = Returned \<Longrightarrow> logging (s, ts) (s, ts[i := thread_start r])"

inductive_cases loggingE: "logging (s, ts) st"

text \<open>The lines a thread holds: refused and not yet counted, or taken off the counter and not yet announced.\<close>

definition held :: "thread \<Rightarrow> nat" where
  "held t = (case th_pc t of Counting _ _ \<Rightarrow> 1 | Reporting n \<Rightarrow> n | Restoring n \<Rightarrow> n | _ \<Rightarrow> 0)"

definition accounted :: "shared \<times> thread list \<Rightarrow> bool" where
  "accounted = (\<lambda>(s, ts). sh_handed s \<le> usize_max \<longrightarrow>
     sh_taken s + sh_announced s + sh_dropped s + sum_list (map held ts) = sh_handed s)"

definition reports_apart :: "shared \<times> thread list \<Rightarrow> bool" where
  "reports_apart = (\<lambda>(s, ts). distinct_adj (sh_reports s) \<and> (sh_reports s \<noteq> [] \<longrightarrow> hd (sh_reports s) = sh_reported s)
     \<and> (\<forall>t \<in> set ts. \<forall>seen. th_pc t = Exchanging seen \<longrightarrow> seen \<noteq> th_now t))"

lemma held_update: "i < length ts \<Longrightarrow> sum_list (map held (ts[i := t])) + held (ts ! i) = sum_list (map held ts) + held t"
proof (induction ts arbitrary: i)
  case (Cons u ts)
  then show ?case by (cases i) auto
qed simp

lemma thread_step_tally:
  assumes "thread_step ok (s, t) = (s', t')" and "sh_dropped s + held t \<le> usize_max"
  shows "sh_handed s \<le> sh_handed s'"
    and "sh_taken s' + sh_announced s' + sh_dropped s' + held t' + sh_handed s
       = sh_taken s + sh_announced s + sh_dropped s + held t + sh_handed s'"
  using assms by (auto simp: thread_step_def held_def split: pc.splits list.splits if_splits)

lemma thread_step_handed: "thread_step ok (s, t) = (s', t') \<Longrightarrow> sh_handed s \<le> sh_handed s'"
  by (auto simp: thread_step_def split: pc.splits list.splits if_splits)

lemma accounted_step:
  assumes "logging st st'" and "accounted st"
  shows "accounted st'"
  using assms
proof cases
  case (step i ts ok s s' t')
  show ?thesis unfolding accounted_def step prod.case
  proof
    assume "sh_handed s' \<le> usize_max"
    with thread_step_handed [OF step(4)] have "sh_handed s \<le> usize_max" by simp
    with assms(2) have eq: "sh_taken s + sh_announced s + sh_dropped s + sum_list (map held ts) = sh_handed s"
      by (simp add: accounted_def step)
    have "held (ts ! i) \<le> sum_list (map held ts)" using step(3) by (simp add: member_le_sum_list)
    with eq \<open>sh_handed s \<le> usize_max\<close> have "sh_dropped s + held (ts ! i) \<le> usize_max" by simp
    from thread_step_tally(2) [OF step(4) this] held_update [OF step(3), of t'] eq
    show "sh_taken s' + sh_announced s' + sh_dropped s' + sum_list (map held (ts[i := t'])) = sh_handed s'" by simp
  qed
next
  case (log i ts s r)
  have "held (thread_start r) = 0" by (cases r) (simp add: thread_start_def held_def)
  moreover have "held (ts ! i) = 0" using log by (simp add: held_def)
  ultimately show ?thesis using assms(2) held_update [OF log(3), of "thread_start r"] by (simp add: accounted_def log)
qed

lemma reports_apart_step:
  assumes "logging st st'" and "reports_apart st"
  shows "reports_apart st'"
  using assms
proof cases
  case (step i ts ok s s' t')
  let ?t = "ts ! i"
  have t: "\<And>seen. th_pc ?t = Exchanging seen \<Longrightarrow> seen \<noteq> th_now ?t" using assms(2) step by (auto simp: reports_apart_def)
  have sh: "distinct_adj (sh_reports s)" "sh_reports s \<noteq> [] \<longrightarrow> hd (sh_reports s) = sh_reported s"
    using assms(2) by (simp_all add: reports_apart_def step)
  have now: "distinct_adj (sh_reports s') \<and> (sh_reports s' \<noteq> [] \<longrightarrow> hd (sh_reports s') = sh_reported s')"
    using step(4) sh t
    by (auto simp: thread_step_def distinct_adj_Cons split: pc.splits list.splits if_splits)
  have "\<forall>seen. th_pc t' = Exchanging seen \<longrightarrow> seen \<noteq> th_now t'"
    using step(4) by (auto simp: thread_step_def split: pc.splits list.splits if_splits)
  with now assms(2) show ?thesis
    by (auto simp: reports_apart_def step dest!: set_update_subset_insert [THEN subsetD])
next
  case (log i ts s r)
  have "th_pc (thread_start r) \<noteq> Exchanging seen" for seen by (cases r) (simp add: thread_start_def)
  with assms(2) show ?thesis by (auto simp: reports_apart_def log dest!: set_update_subset_insert [THEN subsetD])
qed

lemma logging_invariant: "logging\<^sup>*\<^sup>* st st' \<Longrightarrow> accounted st \<Longrightarrow> reports_apart st \<Longrightarrow> accounted st' \<and> reports_apart st'"
  by (induction rule: rtranclp_induct) (auto intro: accounted_step reports_apart_step)

definition quiet_shared :: shared where
  "quiet_shared = \<lparr> sh_dropped = 0, sh_reported = 0, sh_handed = 0, sh_taken = 0, sh_announced = 0, sh_reports = [] \<rparr>"

definition idle_thread :: thread where
  "idle_thread = \<lparr> th_now = 0, th_pc = Returned \<rparr>"

text \<open>
  C30. No log line is lost between threads. However the steps of any number of threads interleave and
  whatever the daemon answers, every line the daemon was handed is taken, announced as missed, on the
  counter, or in the hands of one thread that is about to count or announce it, as long as the lines fit
  the counter; so once every thread has returned they are all taken, announced or counted. Two reports in
  a row are never made for the same second.
\<close>

theorem log_lines_accounted:
  assumes "logging\<^sup>*\<^sup>* (quiet_shared, replicate n idle_thread) (s, ts)" and "sh_handed s \<le> usize_max"
  shows "sh_taken s + sh_announced s + sh_dropped s + sum_list (map held ts) = sh_handed s
    \<and> (list_all (\<lambda>t. th_pc t = Returned) ts \<longrightarrow> sh_taken s + sh_announced s + sh_dropped s = sh_handed s)
    \<and> distinct_adj (sh_reports s)"
proof -
  have "accounted (quiet_shared, replicate n idle_thread)" "reports_apart (quiet_shared, replicate n idle_thread)"
    by (simp_all add: accounted_def reports_apart_def quiet_shared_def idle_thread_def held_def sum_list_replicate)
  from logging_invariant [OF assms(1) this]
  have eq: "sh_taken s + sh_announced s + sh_dropped s + sum_list (map held ts) = sh_handed s" and "distinct_adj (sh_reports s)"
    using assms(2) by (simp_all add: accounted_def reports_apart_def)
  moreover have "sh_taken s + sh_announced s + sh_dropped s = sh_handed s" if "list_all (\<lambda>t. th_pc t = Returned) ts"
  proof -
    have "sum_list (map held ts) = 0" using that by (induction ts) (simp_all add: held_def)
    with eq show ?thesis by simp
  qed
  ultimately show ?thesis by blast
qed

text \<open>A thread on its own, for concrete runs: the daemon's answers in order.\<close>

fun solo :: "bool list \<Rightarrow> shared \<times> thread \<Rightarrow> shared \<times> thread" where
  "solo [] st = st"
| "solo (ok # oks) st = solo oks (thread_step ok st)"

lemma solo_logging: "solo oks (s, t) = (s', t') \<Longrightarrow> logging\<^sup>*\<^sup>* (s, [t]) (s', [t'])"
proof (induction oks arbitrary: s t)
  case (Cons ok oks)
  obtain s1 t1 where st: "thread_step ok (s, t) = (s1, t1)" by fastforce
  have "logging (s, [t]) (s1, [t1])" using logging.step [of 0 "[t]" ok s s1 t1] st by simp
  moreover have "logging\<^sup>*\<^sup>* (s1, [t1]) (s', [t'])" using Cons st by simp
  ultimately show ?case by (rule converse_rtranclp_into_rtranclp)
qed simp

text \<open>A thread logs two lines, the second is refused, and the report of it is taken.\<close>

theorem log_lines_accounted_witness:
  "\<exists>s ts. logging\<^sup>*\<^sup>* (quiet_shared, replicate 1 idle_thread) (s, ts) \<and> sh_handed s = 2 \<and> sh_announced s = 1
    \<and> sh_taken s + sh_announced s + sh_dropped s = sh_handed s \<and> distinct_adj (sh_reports s)"
proof -
  let ?r = "(LError, ''one'' @ [CHR 0x0A] @ ''two'', 5 :: int)"
  have ls: "lines_of (''one'' @ [CHR 0x0A] @ ''two'') = [''one'', ''two'']" by (simp add: lines_of_def newline_def nul_def)
  obtain s t where run: "solo [True, False, True, True, True, True, True, True, True] (quiet_shared, thread_start ?r) = (s, t)"
    and s: "sh_handed s = 2" "sh_announced s = 1" "th_pc t = Returned"
    by (simp add: thread_start_def ls del: append.simps) (simp add: thread_step_def quiet_shared_def)
  have "logging (quiet_shared, [idle_thread]) (quiet_shared, [thread_start ?r])"
    using logging.log [of 0 "[idle_thread]" quiet_shared ?r] by (simp add: idle_thread_def)
  then have "logging\<^sup>*\<^sup>* (quiet_shared, [idle_thread]) (s, [t])"
    using solo_logging [OF run] by (rule converse_rtranclp_into_rtranclp)
  with log_lines_accounted [of 1 s "[t]"] s show ?thesis by auto
qed

end
