(* ===== verification/Spec2Isabelle.thy ===== *)
theory Spec2Isabelle
  imports Build_Correct Pool_Steps Console Syslog_Steps
begin

text \<open>
  A verification of \<open>zipfs\<close>, a program that mounts a zip archive as a read-only FUSE file system.

  \<^bold>\<open>The program.\<close> \<open>main\<close> reads the command line (\<^verbatim>\<open>src/main.rs\<close>, \<^verbatim>\<open>src/cli.rs\<close>), opens the archive
  through a guard that remembers what the file looked like (\<^verbatim>\<open>src/guard.rs\<close>, \<^verbatim>\<open>src/archive.rs\<close>), builds
  a tree of its central directory (\<^verbatim>\<open>src/index/build.rs\<close>, \<^verbatim>\<open>src/index/intern.rs\<close>, \<^verbatim>\<open>src/index.rs\<close>), mounts,
  detaches from the terminal and serves requests (\<^verbatim>\<open>src/fs.rs\<close>). A read of a stored file goes to the
  guard; a read of a compressed file takes a decoder from the pool of its handle (\<^verbatim>\<open>src/handle.rs\<close>,
  \<^verbatim>\<open>src/pool.rs\<close>), which pumps compressed bytes from a buffered source through a codec
  (\<^verbatim>\<open>src/decode.rs\<close>, \<^verbatim>\<open>src/source.rs\<close>, \<^verbatim>\<open>src/codec.rs\<close>) and checks the size and the checksum at the end.

  \<^bold>\<open>How it is modelled.\<close> Every function is a HOL function of the same name, as far as HOL allows it. A
  result is a value of \<open>rust\<close>: a value, an error, a panic or a loop that does not end, so that the
  theorems can say that the last two do not happen. State that survives an error is returned beside
  the result (\<open>act\<close>). Code that is not in the repository is an argument: the system calls of the guard are
  an \<open>environment\<close>, \<open>rawzip\<close> gives the records and the place of an entry, \<open>flate2\<close>, \<open>zstd-safe\<close> and
  \<open>crc32fast\<close> are \<open>libs\<close>, \<open>lexopt\<close> and \<open>fuser\<close> are records of operations and outcomes, with what the program
  relies on stated as a contract (\<open>decompressor\<close>, \<open>spec_ok\<close>, \<open>consumes\<close>, \<open>delivers\<close>). Each contract is shown to
  be satisfiable by an instance, and is used at a concrete input in a witness.

  \<^bold>\<open>Theories and sources.\<close>
  \<^item> \<open>Zip_Prelude\<close>: outcomes, actions, checked and wrapping arithmetic, slices; \<open>Rust_Str\<close>: UTF-8, splitting,
    trimming and reading numbers as Rust's library does.
  \<^item> \<open>Index_Types\<close> (\<^verbatim>\<open>index.rs\<close>, \<^verbatim>\<open>lib.rs\<close>), \<open>Hash\<close> (\<^verbatim>\<open>hash.rs\<close>), \<open>Interner\<close> (\<^verbatim>\<open>index/intern.rs\<close>), \<open>Path_Rules\<close>,
    \<open>Civil_Time\<close>, \<open>Builder\<close>, \<open>Finish\<close> (\<^verbatim>\<open>index/build.rs\<close>): the definitions of the index. \<open>Builder_Tree\<close>,
    \<open>Builder_Correct\<close>, \<open>Builder_Counts\<close>, \<open>Builder_Total\<close>, \<open>Group_Correct\<close>, \<open>Finish_Correct\<close>, \<open>Finish_Index\<close>,
    \<open>Index_Tree\<close> and \<open>Build_Correct\<close> show that the finished index is the abstract tree of the records, that
    it is well formed, that no path leaves it, that the counters account for every record, and that a
    build of records that fit 32-bit numbers succeeds.
  \<^item> \<open>Guard\<close>, \<open>Archive\<close>, \<open>Source\<close>: the bytes read are the bytes of the mounted file, or an error, and a
    change found once is never forgotten.
  \<^item> \<open>Codec\<close>, \<open>Decode\<close>, with \<open>Decode_Correct\<close>, \<open>Decode_Reads\<close>, \<open>Decode_Live\<close>: a read at an offset returns only
    bytes of the decoded entry at that offset, all of them when nothing is wrong, and an entry is marked
    verified only if it matches its record.
  \<^item> \<open>Pool\<close>, \<open>Pool_Correct\<close>, \<open>Pool_Steps\<close>, \<open>Handle\<close>, \<open>Handle_Correct\<close>: the limits on idle decoders under every
    interleaving of workers; handles name their file until they are released.
  \<^item> \<open>Config\<close>, \<open>Attr\<close>, \<open>Fs\<close> (\<^verbatim>\<open>config.rs\<close>, \<^verbatim>\<open>attr.rs\<close>, \<^verbatim>\<open>fs.rs\<close>), with \<open>Fs_Inv\<close>, \<open>Fs_Ops\<close>, \<open>Fs_Dir\<close>, \<open>Fs_Serve\<close>,
    \<open>Fs_Mount\<close>, \<open>Fs_Live\<close>, \<open>Fs_Path\<close>: the requests, the invariant of a mount over every sequence of requests,
    and the way from a record of the archive to the bytes a reader gets. \<open>Hello\<close> is a small mount for the
    witnesses. The properties that span these components are in this theory.
  \<^item> \<open>Cli\<close>, \<open>Cli_Correct\<close> (\<^verbatim>\<open>cli.rs\<close>), \<open>Launch_Args\<close>, \<open>Detach\<close>, \<open>Launch\<close>, \<open>Syslog\<close>, \<open>Syslog_Steps\<close>, \<open>Console\<close> (\<^verbatim>\<open>main.rs\<close>): the
    settings and their two spellings, the command line, the fork and its verdict, what is mounted and what
    the exit code means, the log of the detached process, also with its threads interleaved, and what the
    program prints.

  \<^bold>\<open>Interfaces.\<close> \<open>intern_table\<close> is what the builder asks of the interner, \<open>tree_lookup\<close> what paths ask of the
  index, \<open>decompressor\<close> and \<open>live_decompressor\<close> what a decoder asks of a codec, \<open>handle_store\<close> what the file
  system asks of the handle table; each is interpreted on the definitions of the program.

  \<^bold>\<open>Fuel and bounds.\<close> The probing loops of the interner run for as many rounds as there are slots, and a
  table that is at most half full has a free one. The loops of the decoder have fuel that depends on the bytes
  still to produce and to consume; a step that does neither is an error of the code. The parser's loop has
  fuel for the command line. In each case it is proved that the fuel is enough. Sizes are natural numbers
  with the width written out where the code checks or wraps; \<open>usize\<close> has 64 bits. Theorems on builds assume
  records that fit 32-bit counters, and theorems on decoding an uncompressed size below the greatest 64-bit
  number, where the extra byte of the check would wrap the position.

  \<^bold>\<open>Not modelled.\<close> The records the components write to the log, and the texts of \<open>Display\<close>; the
  thread-local scratch buffers, which are cleared before use; what \<open>init\<close> asks of the kernel beyond sizes;
  the order of relaxed atomics between threads other than the pool's budget and the counters of the log,
  whose steps interleave; the
  counter of handles wrapping around after 64 bits of opens; the opening of the syslog socket and the panic
  hook; the code of other crates; tests and packaging.
\<close>

section \<open>Properties of a mount\<close>

text \<open>
  C1. From the central directory to the bytes of a file. For every record that the tree of the
  archive has at a path, the mount finds a node at that path, opening it succeeds, and reading through
  the new handle at any offset returns the bytes of the entry, decoded by its method, as many as were
  asked for and exist. Nobody touches the archive, the crates work as documented, and the entry has
  the size and the checksum of its record.
\<close>

theorem mounted_file_reads:
  assumes "spec_ok S M" and "sys_env S = quiet_env (ms_opened M) (ms_content M)"
    and "live_libs (sys_libs S) (ms_hist M) (ms_decode M) accepts"
    and "fits rs" and "sizes_small rs" and "zipfs_new (sys_consts S) hint (map Inr rs) reader c = Ok s"
    and "calm (ms_opened M) reader"
    and "fold (spec_record (sys_consts S)) rs spec_empty q = Some (k, Some meta)" and "k \<noteq> Dir"
    and "entry_method (sys_consts S) meta = Some m" and "\<not> encrypted meta"
    and "loc = \<lparr> loc_data_start = lo, loc_compressed_size = compressed_size meta, loc_method = m \<rparr>"
    and "finds (ms_opened M) (sys_get_entry S) (wayfinder meta) lo (compressed_size meta)"
    and "good_entry M accepts loc meta" and "offset \<le> u64_max"
  shows "\<exists>ino fh s1 s2. index_walk (fs_index s) q = Ok (Some ino)
    \<and> fs_open S ino O_RDONLY s = (s1, Ok (ReplyOpened fh FOPEN_KEEP_CACHE))
    \<and> fs_read S fh offset sz s1 = (s2, Ok (ReplyData (take sz (drop offset (loc_content M loc)))))"
  by (rule mount_open_read [OF assms])

text \<open>C1 on the sample archive: two bytes of \<open>d/f\<close> from its second byte on.\<close>

theorem mounted_file_reads_witness:
  "\<exists>s ino fh s1 s2. zipfs_new std_consts 2 (map Inr hello_archive) sample_guard (config_default None 0 0) = Ok s
    \<and> index_walk (fs_index s) [[100], [102]] = Ok (Some ino)
    \<and> fs_open hello_system ino O_RDONLY s = (s1, Ok (ReplyOpened fh FOPEN_KEEP_CACHE))
    \<and> fs_read hello_system fh 1 2 s1 = (s2, Ok (ReplyData [101, 108]))"
proof -
  obtain s where s: "zipfs_new std_consts 2 (map Inr hello_archive) sample_guard (config_default None 0 0)
      = Ok (s :: (nat, unit, bytes, unit) zipfs)" by (rule hello_mount)
  have "\<exists>ino fh s1 s2. index_walk (fs_index s) [[100], [102]] = Ok (Some ino)
    \<and> fs_open hello_system ino O_RDONLY s = (s1, Ok (ReplyOpened fh FOPEN_KEEP_CACHE))
    \<and> fs_read hello_system fh 1 2 s1 = (s2, Ok (ReplyData (take 2 (drop 1 (loc_content hello_spec hello_loc)))))"
    by (rule mounted_file_reads [where meta = "hello_meta [100, 47, 102] 0x81A4" and m = Store and lo = 1
          and hint = 2 and reader = sample_guard and c = "config_default None 0 0" and k = File,
          OF hello_spec_ok _ hello_live hello_fits(2,3)])
      (use s hello_guard hello_tree(1) hello_finds hello_good in simp_all)
  with s show ?thesis unfolding hello_content by auto
qed





text \<open>
  C14. What \<open>readlink\<close> replies, in every state of a mount, is the whole content of the entry of that
  symbolic link: as many bytes as its record declares, and those the archive held; a target that was
  read before is never that of another link.
\<close>

theorem readlink_target:
  assumes "spec_ok S M" and "fits rs" and "sizes_small rs" and "zipfs_new (sys_consts S) hint (map Inr rs) reader c = Ok s0"
    and "gf_opened reader = ms_opened M" and "reaches S s0 s" and "fs_readlink S ino s = (s', Ok q)"
  shows "\<exists>t nd. q = ReplyData t \<and> node_of (fs_index s') ino = Some nd \<and> kind nd = Symlink
    \<and> whole_of M (sys_consts S) (metas (fs_index s') ! meta_idx nd) t"
proof -
  have inv: "fs_inv M (sys_consts S) s" and links: "links_inv M (sys_consts S) (fs_index s)"
    using mount_reached [OF assms(1-6)] by (simp_all add: mount_inv_def)
  obtain t where t: "q = ReplyData t" "ino \<in> link_inos (fs_index s)" "whole_of M (sys_consts S) (link_meta (fs_index s') ino) t"
    using fs_readlink_ok(2) [OF assms(1) inv links assms(7) refl] by blast
  have "keeps M (sys_consts S) s (s', Ok q)" by (rule fs_readlink_keeps [OF assms(1) inv assms(7)])
  then have wf: "index_wf (fs_index s')" and same: "nodes (fs_index s') = nodes (fs_index s)"
    by (simp_all add: keeps_def fs_inv_def fs_le_def index_le_def)
  have "node_of (fs_index s') ino = Some (nodes (fs_index s') ! ino)" using node_of_Some [OF wf] t(2) by (simp add: link_inos_def same)
  then show ?thesis using t by (auto simp: link_inos_def link_meta_def same)
qed

text \<open>C14 on the sample archive: the link \<open>l\<close>.\<close>

theorem readlink_target_witness:
  "\<exists>s0 ino s'. zipfs_new std_consts 2 (map Inr hello_archive) sample_guard (config_default None 0 0) = Ok s0
    \<and> index_walk (fs_index s0) [[108]] = Ok (Some ino) \<and> fs_readlink hello_system ino s0 = (s', Ok (ReplyData [104, 101, 108, 108, 111]))
    \<and> (\<exists>nd. node_of (fs_index s') ino = Some nd \<and> kind nd = Symlink
         \<and> whole_of hello_spec std_consts (metas (fs_index s') ! meta_idx nd) [104, 101, 108, 108, 111])"
proof -
  obtain s where s: "zipfs_new std_consts 2 (map Inr hello_archive) sample_guard (config_default None 0 0)
      = Ok (s :: (nat, unit, bytes, unit) zipfs)" by (rule hello_mount)
  obtain ino s' where rl: "index_walk (fs_index s) [[108]] = Ok (Some ino)"
    "fs_readlink hello_system ino s = (s', Ok (ReplyData [104, 101, 108, 108, 111]))" using hello_readlink [OF s] by blast
  from readlink_target [OF hello_spec_ok hello_fits(2,3) _ _ reaches.start rl(2), of 2 sample_guard "config_default None 0 0"] s hello_guard(2)
  have "\<exists>nd. node_of (fs_index s') ino = Some nd \<and> kind nd = Symlink
         \<and> whole_of hello_spec std_consts (metas (fs_index s') ! meta_idx nd) [104, 101, 108, 108, 111]" by auto
  with s rl show ?thesis by blast
qed

text \<open>
  C13. Listing a directory page by page, each page from the cursor of the last entry and with a
  buffer of any size that has room for one entry, gives the entries \<open>.\<close> and \<open>..\<close> and then every
  child exactly once, sorted by name: a name is listed with an inode exactly when \<open>lookup\<close> finds that
  inode under the name.
\<close>

theorem readdir_lists_children:
  assumes "index_wf (fs_index s)" and "node_of (fs_index s) ino = Some nd" and "kind nd = Dir"
    and "\<forall>full \<in> set fulls. \<forall>e. \<not> full [] e" and "child_len nd + 2 \<le> length fulls"
    and "es = read_pages (\<lambda>full off. dir_page (snd (fs_readdir full ino off s))) de_offset fulls 0"
  shows "length es = child_len nd + 2 \<and> map de_name (take 2 es) = [DOT, DOTDOT] \<and> sorted_wrt (<) (map de_name (drop 2 es))
    \<and> (lookup (fs_index s) ino nm = Ok (Some i) \<longleftrightarrow> (\<exists>e \<in> set (drop 2 es). de_name e = nm \<and> de_ino e = i))"
proof -
  have es: "es = dir_listing (fs_index s) ino nd" unfolding assms(6) by (rule readdir_all [OF assms(1-3)]) (use assms(4,5) in auto)
  show ?thesis using listing_lookup(1) [OF assms(1-3), of nm i] listing_lookup(2) [OF assms(1-3)] unfolding es by (simp add: dir_listing_def)
qed

text \<open>C13 on the root directory of the sample archive, in pages of one entry.\<close>

theorem readdir_lists_children_witness:
  "\<exists>s nd. zipfs_new std_consts 2 (map Inr hello_archive) sample_guard (config_default None 0 0) = Ok (s :: (nat, unit, bytes, unit) zipfs)
    \<and> node_of (fs_index s) ROOT_INO = Some nd \<and> kind nd = Dir
    \<and> (let es = read_pages (\<lambda>full off. dir_page (snd (fs_readdir full ROOT_INO off s))) de_offset
            (replicate (child_len nd + 2) (\<lambda>es e. es \<noteq> [])) 0
       in length es = child_len nd + 2 \<and> sorted_wrt (<) (map de_name (drop 2 es))
         \<and> (lookup (fs_index s) ROOT_INO [108] = Ok (Some 3) \<longleftrightarrow> (\<exists>e \<in> set (drop 2 es). de_name e = [108] \<and> de_ino e = 3)))"
proof -
  obtain s where s: "zipfs_new std_consts 2 (map Inr hello_archive) sample_guard (config_default None 0 0)
      = Ok (s :: (nat, unit, bytes, unit) zipfs)" by (rule hello_mount)
  have wf: "index_wf (fs_index s)" using hello_mount_inv [OF s] by (simp add: mount_inv_def fs_inv_def)
  then obtain nd where nd: "node_of (fs_index s) ROOT_INO = Some nd" "kind nd = Dir" by (rule root_node)
  from readdir_lists_children [OF wf nd, of "replicate (child_len nd + 2) (\<lambda>es e. es \<noteq> [])" _ "[108]" 3] s nd
  show ?thesis by (simp add: Let_def)
qed

text \<open>
  C15. \<open>readdirplus\<close> agrees with \<open>readdir\<close> and \<open>getattr\<close>: read to its end it lists the same inodes,
  cursors and names, and the attributes of every entry are those \<open>getattr\<close> replies for its inode.
\<close>

theorem readdirplus_agrees:
  assumes "index_wf (fs_index s)" and "node_of (fs_index s) ino = Some nd" and "kind nd = Dir"
    and "\<forall>full \<in> set fulls. \<forall>e. \<not> full [] e" and "child_len nd + 2 \<le> length fulls"
    and "\<forall>full \<in> set plain. \<forall>e. \<not> full [] e" and "child_len nd + 2 \<le> length plain"
    and "es = read_pages (\<lambda>full off. plus_page (snd (fs_readdirplus full ino off s))) dp_offset fulls 0"
  shows "map (\<lambda>e. (dp_ino e, dp_offset e, dp_name e)) es = map (\<lambda>e. (de_ino e, de_offset e, de_name e))
      (read_pages (\<lambda>full off. dir_page (snd (fs_readdir full ino off s))) de_offset plain 0)
    \<and> list_all (\<lambda>e. fs_getattr (dp_ino e) s = (s, Ok (ReplyAttr (dp_ttl e) (dp_attr e)))) es"
proof -
  have es: "es = plus_listing s ino nd" unfolding assms(8) by (rule readdirplus_all [OF assms(1-3)]) (use assms(4,5) in auto)
  have "read_pages (\<lambda>full off. dir_page (snd (fs_readdir full ino off s))) de_offset plain 0 = dir_listing (fs_index s) ino nd"
    by (rule readdir_all [OF assms(1-3)]) (use assms(6,7) in auto)
  then show ?thesis using plus_listing_dir [of s ino nd] plus_listing_attr [OF assms(1-3)] by (simp add: es list_all_iff)
qed

text \<open>C15 on the root directory of the sample archive.\<close>

theorem readdirplus_agrees_witness:
  "\<exists>s nd. zipfs_new std_consts 2 (map Inr hello_archive) sample_guard (config_default None 0 0) = Ok (s :: (nat, unit, bytes, unit) zipfs)
    \<and> node_of (fs_index s) ROOT_INO = Some nd \<and> kind nd = Dir
    \<and> list_all (\<lambda>e. fs_getattr (dp_ino e) s = (s, Ok (ReplyAttr (dp_ttl e) (dp_attr e))))
        (read_pages (\<lambda>full off. plus_page (snd (fs_readdirplus full ROOT_INO off s))) dp_offset
          (replicate (child_len nd + 2) (\<lambda>es e. es \<noteq> [])) 0)"
proof -
  obtain s where s: "zipfs_new std_consts 2 (map Inr hello_archive) sample_guard (config_default None 0 0)
      = Ok (s :: (nat, unit, bytes, unit) zipfs)" by (rule hello_mount)
  have wf: "index_wf (fs_index s)" using hello_mount_inv [OF s] by (simp add: mount_inv_def fs_inv_def)
  then obtain nd where nd: "node_of (fs_index s) ROOT_INO = Some nd" "kind nd = Dir" by (rule root_node)
  from readdirplus_agrees [OF wf nd, of "replicate (child_len nd + 2) (\<lambda>es e. es \<noteq> [])" "replicate (child_len nd + 2) (\<lambda>es e. es \<noteq> [])"] s nd
  show ?thesis by simp
qed

text \<open>
  C19. A change of the archive is final for the mount: once one request found it, in every later
  state a read of an open file and the opening of a file fail with \<open>ESTALE\<close>, a read without an open
  file fails with \<open>EBADF\<close>, and neither changes the mount.
\<close>

theorem stale_mount_refuses:
  assumes "spec_ok S M" and "mount_inv M (sys_consts S) s0" and "is_stale (fs_reader s0)" and "reaches S s0 s"
    and "node_of (fs_index s) ino = Some nd" and "kind nd \<noteq> Dir" and "meta_of (fs_index s) nd = Some meta"
  shows "fs_read S fh offset sz s = (s, Err (if handle_get fh (fs_handles s) = None then EBADF else ESTALE))
    \<and> fs_open S ino O_RDONLY s = (s, Err ESTALE)"
proof -
  have "guard_le (fs_reader s0) (fs_reader s)" using reaches_inv [OF assms(4,1,2)] by (simp add: fs_le_def)
  then have stale: "is_stale (fs_reader s)" using assms(3) by (simp add: guard_le_def is_stale_def)
  then have "locate S (meta_idx nd) s = (s, Err ESTALE)" by (simp add: locate_def)
  then have "fs_open S ino O_RDONLY s = (s, Err ESTALE)"
    using assms(5-7) by (simp add: fs_open_def reply_error_def diagnose_def)
  then show ?thesis using stale by (auto simp: fs_read_def split: option.splits)
qed

text \<open>C19 on the sample archive, found to be changed before the first request.\<close>

theorem stale_mount_refuses_witness:
  "\<exists>s ino. zipfs_new std_consts 2 (map Inr hello_archive) (sample_guard\<lparr>gf_stale := True\<rparr>) (config_default None 0 0)
      = Ok (s :: (nat, unit, bytes, unit) zipfs)
    \<and> index_walk (fs_index s) [[100], [102]] = Ok (Some ino)
    \<and> fs_open hello_system ino O_RDONLY s = (s, Err ESTALE) \<and> fs_read hello_system 1 0 4 s = (s, Err EBADF)"
proof -
  let ?g = "sample_guard\<lparr>gf_stale := True\<rparr>"
  obtain s where s: "zipfs_new std_consts 2 (map Inr hello_archive) ?g (config_default None 0 0)
      = Ok (s :: (nat, unit, bytes, unit) zipfs)" by (rule hello_mount)
  have inv: "mount_inv hello_spec (sys_consts hello_system) s"
    using mount_fresh_inv [OF hello_fits(2,3) s, of hello_spec] hello_guard(2) by simp
  obtain ino nd m where p: "index_walk (fs_index s) [[100], [102]] = Ok (Some ino)" "node_of (fs_index s) ino = Some nd" "kind nd = File"
    "meta_of (fs_index s) nd = Some m" by (rule mount_path [OF hello_fits(2) s hello_tree(1)])
  have r: "is_stale (fs_reader s)" "fs_handles s = handle_table_new" by (rule zipfs_new_Ok [OF s], simp add: is_stale_def)+
  have "kind nd \<noteq> Dir" using p(3) by simp
  from stale_mount_refuses [OF hello_spec_ok inv r(1) reaches.start p(2) this p(4), of 1 0 4] s p(1) r(2) show ?thesis
    by (auto simp: handle_get_def handle_table_new_def)
qed

text \<open>
  C20. An open that succeeds is one for reading, of a node that is not a directory, whose entry is not
  encrypted and has a method the program can decode, in a mount that has not seen the archive change;
  its reply is a handle of a file of that inode.
\<close>

theorem open_only_reads:
  assumes "spec_ok S M" and "mount_inv M (sys_consts S) s" and "fs_open S ino acc s = (s', Ok q)"
  shows "\<exists>fh f nd meta. q = ReplyOpened fh FOPEN_KEEP_CACHE \<and> handle_get fh (fs_handles s') = Some f \<and> of_ino f = ino
    \<and> acc = O_RDONLY \<and> node_of (fs_index s) ino = Some nd \<and> kind nd \<noteq> Dir \<and> \<not> is_stale (fs_reader s)
    \<and> meta_of (fs_index s) nd = Some meta \<and> \<not> encrypted meta \<and> entry_method (sys_consts S) meta \<noteq> None"
proof -
  have inv: "fs_inv M (sys_consts S) s" using assms(2) by (simp add: mount_inv_def)
  obtain fh f nd loc where o: "q = ReplyOpened fh FOPEN_KEEP_CACHE" "handle_get fh (fs_handles s') = Some f" "of_ino f = ino" "acc = O_RDONLY"
    "node_of (fs_index s) ino = Some nd" "kind nd \<noteq> Dir" "\<not> is_stale (fs_reader s)"
    and loc: "located (sys_consts S) loc (metas (fs_index s') ! meta_idx nd)" using fs_open_ok(2) [OF assms(1) inv assms(3) refl] by blast
  have le: "index_le (fs_index s) (fs_index s')"
    using fs_open_ok(1) [OF assms(1) inv assms(3)] by (simp add: keeps_def fs_le_def)
  obtain meta where mo: "meta_of (fs_index s) nd = Some meta" using assms(3) o(4-6) by (auto simp: fs_open_def split: option.splits)
  note mi = meta_of_Some [OF mo]
  have ml: "meta_le meta (metas (fs_index s') ! meta_idx nd)" using index_le_nth [OF le] mi by blast
  have "\<not> encrypted meta" "entry_method (sys_consts S) meta \<noteq> None"
    using loc meta_le_fields(5,6) [OF ml] by (auto simp: located_def)
  then show ?thesis using o mo by blast
qed

text \<open>C20 on the sample archive.\<close>

theorem open_only_reads_witness:
  "\<exists>s ino fh s' f. zipfs_new std_consts 2 (map Inr hello_archive) sample_guard (config_default None 0 0) = Ok (s :: (nat, unit, bytes, unit) zipfs)
    \<and> fs_open hello_system ino O_RDONLY s = (s', Ok (ReplyOpened fh FOPEN_KEEP_CACHE))
    \<and> handle_get fh (fs_handles s') = Some f \<and> of_ino f = ino"
proof -
  obtain s ino fh s1 where s: "zipfs_new std_consts 2 (map Inr hello_archive) sample_guard (config_default None 0 0)
      = Ok (s :: (nat, unit, bytes, unit) zipfs)" and op: "fs_open hello_system ino O_RDONLY s = (s1, Ok (ReplyOpened fh FOPEN_KEEP_CACHE))"
    by (rule hello_opened)
  have "mount_inv hello_spec (sys_consts hello_system) s" using hello_mount_inv [OF s] by simp
  from open_only_reads [OF hello_spec_ok this op] s op show ?thesis by auto
qed

end
